(* ===== verification/Ws_Prelude.thy ===== *)
theory Ws_Prelude
  imports Main "HOL-Library.Word" "HOL-Library.DAList" "HOL-Library.Multiset"
    "HOL-Library.List_Lexorder" "HOL-Library.Sublist"
begin

text \<open>
  Shared ground of the development: the names of Rust's machine integers, the lemma
  collections the component theories fill, and the facts about lists, words and finite
  dictionaries that more than one component uses.

  A Rust \<open>DashMap<K, V>\<close> is modelled by \<open>('k, 'v) alist\<close> of \<open>HOL-Library.DAList\<close>: a
  finite dictionary whose keys are unique by its type. The list order of an \<open>alist\<close> stands for
  the iteration order, which DashMap leaves open; no property of the development depends on
  it beyond the order of the elements in a returned list.

  Lengths and element counts of in-memory collections (\<open>usize\<close> results of \<open>len\<close>) are
  natural numbers: a collection never has more elements than the address space. Every integer
  that the code computes with (counters, capacities, byte totals) is a word of its width, and
  \<open>usize\<close> is the 64-bit one.
\<close>

unbundle bit_operations_syntax

section \<open>Machine integers\<close>

type_synonym u8 = "8 word"
type_synonym u16 = "16 word"
type_synonym u32 = "32 word"
type_synonym u64 = "64 word"
type_synonym usize = "64 word"
type_synonym bytes = "u8 list"

named_theorems channel_laws \<open>what the code relies on from a broadcast channel\<close>
named_theorems dict_simps \<open>lookup, size and key set of an updated dictionary\<close>
named_theorems wf_intros \<open>preservation of well-formedness, one rule per operation\<close>

lemma unat_Suc_less: "(w :: 'a::len word) < v \<Longrightarrow> unat (w + 1) = Suc (unat w)"
proof -
  assume "w < v"
  moreover have "unat v < 2 ^ LENGTH('a)"
    by (rule unsigned_less)
  ultimately have "Suc (unat w) < 2 ^ LENGTH('a)"
    unfolding word_less_nat_alt by linarith
  then show ?thesis
    by (simp add: unat_word_ariths)
qed

lemma word_less_Suc_le: "(w :: 'a::len word) < v \<Longrightarrow> w + 1 \<le> v"
  by (rule inc_le)

lemma unat_pred: "(w :: 'a::len word) \<noteq> 0 \<Longrightarrow> unat (w - 1) = unat w - 1"
  by (metis One_nat_def unat_minus_one)

section \<open>Finite dictionaries\<close>

type_synonym ('k, 'v) dict = "('k, 'v) alist"

abbreviation entries :: "('k, 'v) dict \<Rightarrow> ('k \<times> 'v) list" where
  "entries d \<equiv> DAList.impl_of d"

definition dict_keys :: "('k, 'v) dict \<Rightarrow> 'k list" where
  "dict_keys d = map fst (entries d)"

definition dict_len :: "('k, 'v) dict \<Rightarrow> nat" where
  "dict_len d = length (entries d)"

lemma distinct_dict_keys [simp]: "distinct (dict_keys d)"
  by (simp add: dict_keys_def)

lemma length_dict_keys [simp]: "length (dict_keys d) = dict_len d"
  by (simp add: dict_keys_def dict_len_def)

lemma lookup_map_of: "DAList.lookup d = map_of (entries d)"
  by (simp add: DAList.lookup.rep_eq)

lemma in_entries_iff: "(k, v) \<in> set (entries d) \<longleftrightarrow> DAList.lookup d k = Some v"
  by (simp add: lookup_map_of map_of_eq_Some_iff)

lemma set_dict_keys [dict_simps]: "set (dict_keys d) = dom (DAList.lookup d)"
  by (simp add: dict_keys_def lookup_map_of dom_map_of_conv_image_fst)

lemma finite_dom_lookup [simp]: "finite (dom (DAList.lookup d))"
  by (metis List.finite_set set_dict_keys)

lemma dict_len_card: "dict_len d = card (dom (DAList.lookup d))"
  by (metis distinct_card distinct_dict_keys length_dict_keys set_dict_keys)

lemma dom_lookup_empty [simp]: "dom (DAList.lookup DAList.empty) = {}"
  by (simp add: dom_def)

lemma dom_lookup_update [simp]:
  "dom (DAList.lookup (DAList.update k v d)) = insert k (dom (DAList.lookup d))"
  by (auto simp: lookup_update split: if_splits)

lemma dict_len_empty [simp]: "dict_len DAList.empty = 0"
  by (simp add: dict_len_card)

lemma dict_len_update [dict_simps]:
  "dict_len (DAList.update k v d) =
     (if DAList.lookup d k = None then Suc (dict_len d) else dict_len d)"
  by (simp add: dict_len_card card_insert_if domIff)

lemma dict_len_delete [dict_simps]:
  "dict_len (DAList.delete k d) =
     (if DAList.lookup d k = None then dict_len d else dict_len d - 1)"
  by (simp add: dict_len_card card_Diff_singleton_if domIff)

lemma lookup_map_entry [dict_simps]:
  "DAList.lookup (DAList.map_entry k f d) k' =
     (if k' = k then map_option f (DAList.lookup d k) else DAList.lookup d k')"
  by (auto simp: DAList.lookup.rep_eq DAList.map_entry.rep_eq AList.map_of_map_entry
      split: option.split)

text \<open>Totals over the values of a dictionary, in a ring so that wrap-around is covered.\<close>

definition dict_sum :: "('v \<Rightarrow> 'b::comm_ring) \<Rightarrow> ('k, 'v) dict \<Rightarrow> 'b" where
  "dict_sum f d = sum_list (map (\<lambda>(k, v). f v) (entries d))"

lemma dict_sum_empty [simp]: "dict_sum f DAList.empty = 0"
  by (simp add: dict_sum_def DAList.empty.rep_eq)

lemma dict_sum_insert:
  assumes "DAList.lookup d k = None"
  shows "dict_sum f (DAList.update k v d) = dict_sum f d + f v"
proof -
  have "map_of xs k = None \<Longrightarrow>
      sum_list (map (\<lambda>(k, v). f v) (AList.update k v xs)) = sum_list (map (\<lambda>(k, v). f v) xs) + f v" for xs
    by (induction xs) (auto split: if_splits simp: add.assoc)
  then show ?thesis
    using assms by (simp add: dict_sum_def lookup_map_of DAList.update.rep_eq)
qed

lemma dict_sum_map_entry:
  assumes "DAList.lookup d k = Some v"
  shows "dict_sum f (DAList.map_entry k g d) = dict_sum f d + (f (g v) - f v)"
proof -
  have "map_of xs k = Some v \<Longrightarrow>
      sum_list (map (\<lambda>(k, v). f v) (AList.map_entry k g xs)) =
      sum_list (map (\<lambda>(k, v). f v) xs) + (f (g v) - f v)" for xs
    by (induction xs) (auto split: if_splits simp: algebra_simps)
  then show ?thesis
    using assms by (simp add: dict_sum_def lookup_map_of DAList.map_entry.rep_eq)
qed

text \<open>A dictionary listed in the order of its keys is determined by its lookup function.\<close>

lemma sorted_entries:
  "sort_key fst (map (\<lambda>(k, v). (k, f v)) (entries d)) =
     map (\<lambda>k. (k, f (the (DAList.lookup d k)))) (sorted_list_of_set (dom (DAList.lookup d)))"
proof -
  let ?xs = "map (\<lambda>(k, v). (k, f v)) (entries d)"
  let ?ys = "map (\<lambda>k. (k, f (the (DAList.lookup d k)))) (sorted_list_of_set (dom (DAList.lookup d)))"
  have keys: "map fst ?xs = dict_keys d" "map fst ?ys = sorted_list_of_set (dom (DAList.lookup d))"
    by (simp_all add: dict_keys_def comp_def case_prod_unfold)
  have "set ?ys = (\<lambda>k. (k, f (the (DAList.lookup d k)))) ` dom (DAList.lookup d)"
    by simp
  also have "\<dots> = {(k, f v) | k v. DAList.lookup d k = Some v}"
    by force
  also have "\<dots> = set ?xs"
    by (force simp flip: in_entries_iff)
  finally have set: "set (sort_key fst ?xs) = set ?ys" by simp
  have inj: "inj_on fst (set ?xs)"
    using distinct_dict_keys [of d] unfolding keys(1) [symmetric] distinct_map by blast
  have "distinct (map fst (sort_key fst ?xs))"
  proof -
    have "distinct (sort_key fst ?xs)"
      unfolding distinct_sort
      by (rule conjunct1 [OF distinct_map [of fst, THEN iffD1]]) (simp only: keys(1) distinct_dict_keys)
    then show ?thesis
      using inj by (simp add: distinct_map)
  qed
  with set inj show ?thesis
    by (intro map_sorted_distinct_set_unique [of fst]) (simp_all add: comp_def)
qed

lemma distinct_values_iff:
  fixes d :: "('a, 'b) dict"
  shows "distinct (map snd (entries d)) \<longleftrightarrow>
     (\<forall>k k' v. DAList.lookup d k = Some v \<longrightarrow> DAList.lookup d k' = Some v \<longrightarrow> k = k')"
proof -
  have "distinct (map fst xs) \<Longrightarrow> distinct (map snd xs) \<longleftrightarrow>
      (\<forall>k k' v. (k, v) \<in> set xs \<longrightarrow> (k', v) \<in> set xs \<longrightarrow> k = k')" for xs :: "('a \<times> 'b) list"
    by (auto simp: distinct_map inj_on_def) (metis prod.inject snd_conv)
  from this [OF distinct_dict_keys [of d, unfolded dict_keys_def]] show ?thesis
    unfolding in_entries_iff .
qed

lemma dict_len_0_iff: "dict_len d = 0 \<longleftrightarrow> DAList.lookup d = Map.empty"
  by (simp add: dict_len_card)

lemma dict_len_pos: "DAList.lookup d k = Some v \<Longrightarrow> 0 < dict_len d"
  by (metis dict_len_0_iff neq0_conv option.distinct(1))

text \<open>Deleting a list of keys, as the clean-up loops of the room manager do.\<close>

definition delete_all :: "'k list \<Rightarrow> ('k, 'v) dict \<Rightarrow> ('k, 'v) dict" where
  "delete_all ks d = fold DAList.delete ks d"

lemma lookup_delete_all [simp]:
  "DAList.lookup (delete_all ks d) k = (if k \<in> set ks then None else DAList.lookup d k)"
  by (induction ks arbitrary: d) (auto simp: delete_all_def)

lemma delete_all_cong:
  assumes "set ks = set ls"
  shows "delete_all ks d = delete_all ls d"
proof -
  have "DAList.impl_of (delete_all ks d) = filter (\<lambda>(k, v). k \<notin> set ks) (DAList.impl_of d)" for ks
  proof (induction ks arbitrary: d)
    case (Cons k ks)
    have "DAList.impl_of (delete_all (k # ks) d) = filter (\<lambda>(k, v). k \<notin> set ks) (AList.delete k (DAList.impl_of d))"
      using Cons [of "DAList.delete k d"] by (simp add: delete_all_def DAList.delete.rep_eq)
    then show ?case by (auto simp: AList.delete_eq intro: filter_cong)
  qed (simp add: delete_all_def)
  with assms show ?thesis by (simp flip: impl_of_inject)
qed

lemma dict_len_delete_all:
  assumes "distinct ks" "set ks \<subseteq> dom (DAList.lookup d)"
  shows "dict_len (delete_all ks d) + length ks = dict_len d"
proof -
  have "dom (DAList.lookup (delete_all ks d)) = dom (DAList.lookup d) - set ks"
    by (auto split: if_splits)
  moreover have "card (dom (DAList.lookup d) - set ks) + card (set ks) = card (dom (DAList.lookup d))"
    using assms(2) by (metis List.finite_set card_Diff_subset card_mono finite_dom_lookup
        le_add_diff_inverse2)
  ultimately show ?thesis
    by (simp add: dict_len_card distinct_card [OF assms(1)])
qed

section \<open>Lists\<close>

lemma sorted_le_last: "sorted xs \<Longrightarrow> x \<in> set xs \<Longrightarrow> x \<le> last xs"
  by (induction xs) auto

lemma sum_list_update_add:
  "i < length xs \<Longrightarrow> sum_list (map f (xs[i := y])) + f (xs ! i) = sum_list (map f xs) + (f y :: nat)"
  by (induction xs arbitrary: i) (auto split: nat.splits simp: nth_Cons)

lemma dropWhile_idem [simp]: "dropWhile P (dropWhile P xs) = dropWhile P xs"
  by (induction xs) auto

lemma dropWhile_id: "xs = [] \<or> \<not> P (hd xs) \<Longrightarrow> dropWhile P xs = xs"
  by (cases xs) auto

lemma hd_dropWhile_neg: "dropWhile P xs \<noteq> [] \<Longrightarrow> \<not> P (hd (dropWhile P xs))"
  by (rule hd_dropWhile)

lemma common_extension: "(\<exists>r q. xs @ r = ys @ q) \<longleftrightarrow> prefix ys xs \<or> prefix xs ys"
proof
  assume "\<exists>r q. xs @ r = ys @ q"
  then show "prefix ys xs \<or> prefix xs ys"
    by (metis prefixI prefix_same_cases)
next
  assume "prefix ys xs \<or> prefix xs ys"
  then show "\<exists>r q. xs @ r = ys @ q"
    by (metis append.right_neutral prefixE)
qed

text \<open>The first result of a list of attempts: the loops that return at the first hit.\<close>

fun first_some :: "('a \<Rightarrow> 'b option) \<Rightarrow> 'a list \<Rightarrow> 'b option" where
  "first_some f [] = None"
| "first_some f (x # xs) = (case f x of Some y \<Rightarrow> Some y | None \<Rightarrow> first_some f xs)"

lemma first_some_append:
  "first_some f (xs @ ys) = (case first_some f xs of Some y \<Rightarrow> Some y | None \<Rightarrow> first_some f ys)"
  by (induction xs) (auto split: option.splits)

lemma first_some_eq_None: "first_some f xs = None \<longleftrightarrow> (\<forall>x\<in>set xs. f x = None)"
  by (induction xs) (auto split: option.splits)

lemma first_some_SomeD: "first_some f xs = Some y \<Longrightarrow> \<exists>x\<in>set xs. f x = Some y"
  by (induction xs) (auto split: option.splits)

lemma first_some_map: "first_some f (map g xs) = first_some (\<lambda>x. f (g x)) xs"
  by (induction xs) (auto split: option.splits)

lemma first_some_cong: "(\<And>x. x \<in> set xs \<Longrightarrow> f x = g x) \<Longrightarrow> first_some f xs = first_some g xs"
  by (induction xs) (auto split: option.splits)

end
