(* ===== verification/Rust_Str.thy ===== *)
theory Rust_Str
  imports Ws_Prelude
begin

text \<open>
  The part of Rust's \<open>char\<close>, \<open>str\<close> and \<open>String\<close> that the crate uses.

  A \<open>char\<close> is a Unicode scalar value, here the type \<open>uchar\<close>; a string is a list of
  them, so every string of the model is valid UTF-8 once encoded, as Rust's \<open>String\<close>
  guarantees by its own type. Byte lengths, byte offsets and slices go through the UTF-8 encoding:
  a slice at an offset that is no character boundary panics in Rust and is \<open>None\<close> here.
\<close>

section \<open>Scalar values and strings\<close>

definition is_scalar :: "int \<Rightarrow> bool" where
  "is_scalar c \<longleftrightarrow> 0 \<le> c \<and> c < 0x110000 \<and> \<not> (0xD800 \<le> c \<and> c \<le> 0xDFFF)"

typedef uchar = "{c. is_scalar c}" morphisms codept Abs_uchar
  by (rule exI [of _ 0]) (simp add: is_scalar_def)

setup_lifting type_definition_uchar

type_synonym rstr = "uchar list"

lift_definition uchr :: "int \<Rightarrow> uchar" is "\<lambda>c. if is_scalar c then c else 0xFFFD"
  by (simp add: is_scalar_def)

instantiation uchar :: equal
begin

definition equal_uchar :: "uchar \<Rightarrow> uchar \<Rightarrow> bool" where
  "equal_uchar a b \<longleftrightarrow> codept a = codept b"

instance
  by standard (simp add: equal_uchar_def codept_inject)

end

instantiation uchar :: linorder
begin

definition less_eq_uchar :: "uchar \<Rightarrow> uchar \<Rightarrow> bool" where
  "less_eq_uchar a b \<longleftrightarrow> codept a \<le> codept b"

definition less_uchar :: "uchar \<Rightarrow> uchar \<Rightarrow> bool" where
  "less_uchar a b \<longleftrightarrow> codept a < codept b"

instance
  by standard (auto simp: less_eq_uchar_def less_uchar_def codept_inject)

end

text \<open>String and character literals of ASCII text.\<close>

definition lit :: "string \<Rightarrow> rstr" where
  "lit s = map (\<lambda>c. uchr (of_char c)) s"

lemma is_scalar_codept [simp]: "is_scalar (codept c)"
  by transfer simp

lemma codept_range: "0 \<le> codept c" "codept c < 0x110000"
  "\<not> (0xD800 \<le> codept c \<and> codept c \<le> 0xDFFF)"
  using is_scalar_codept [of c] by (simp_all add: is_scalar_def)

lemma codept_uchr [simp]: "is_scalar c \<Longrightarrow> codept (uchr c) = c"
  by transfer simp

lemma uchr_codept [simp]: "uchr (codept c) = c"
  by transfer simp

lemma uchr_inject: "is_scalar c \<Longrightarrow> is_scalar d \<Longrightarrow> uchr c = uchr d \<longleftrightarrow> c = d"
  by transfer simp

lemma is_scalar_small [simp]: "0 \<le> c \<Longrightarrow> c < 0xD800 \<Longrightarrow> is_scalar c"
  by (simp add: is_scalar_def)

lemma uchr_eqI: "codept c = n \<Longrightarrow> c = uchr n"
  by auto

lemma eq_uchr_iff: "is_scalar n \<Longrightarrow> c = uchr n \<longleftrightarrow> codept c = n"
  by auto

lemma lit_Nil [simp]: "lit [] = []"
  by (simp add: lit_def)

lemma lit_Cons [simp]: "lit (c # s) = uchr (of_char c) # lit s"
  by (simp add: lit_def)

section \<open>UTF-8\<close>

text \<open>Encoding of one scalar value; \<open>as_bytes\<close> of a string concatenates them.\<close>

definition utf8_char :: "uchar \<Rightarrow> int list" where
  "utf8_char x = (let c = codept x in
     if c < 0x80 then [c]
     else if c < 0x800 then [0xC0 + c div 64, 0x80 + c mod 64]
     else if c < 0x10000 then [0xE0 + c div 4096, 0x80 + c div 64 mod 64, 0x80 + c mod 64]
     else [0xF0 + c div 262144, 0x80 + c div 4096 mod 64, 0x80 + c div 64 mod 64, 0x80 + c mod 64])"

definition utf8_ints :: "rstr \<Rightarrow> int list" where
  "utf8_ints s = concat (map utf8_char s)"

definition str_bytes :: "rstr \<Rightarrow> bytes" where
  "str_bytes s = map word_of_int (utf8_ints s)"

text \<open>
  \<open>String::from_utf8\<close>: the strict decoder of the Unicode standard (table 3-7), which
  rejects overlong forms, surrogates and values above U+10FFFF.
\<close>

definition is_cont :: "int \<Rightarrow> bool" where
  "is_cont b \<longleftrightarrow> 0x80 \<le> b \<and> b \<le> 0xBF"

definition lead3_ok :: "int \<Rightarrow> int \<Rightarrow> bool" where
  "lead3_ok b0 b1 \<longleftrightarrow> is_cont b1 \<and> (b0 = 0xE0 \<longrightarrow> 0xA0 \<le> b1) \<and> (b0 = 0xED \<longrightarrow> b1 \<le> 0x9F)"

definition lead4_ok :: "int \<Rightarrow> int \<Rightarrow> bool" where
  "lead4_ok b0 b1 \<longleftrightarrow> is_cont b1 \<and> (b0 = 0xF0 \<longrightarrow> 0x90 \<le> b1) \<and> (b0 = 0xF4 \<longrightarrow> b1 \<le> 0x8F)"

definition dec2 :: "int \<Rightarrow> int \<Rightarrow> int" where
  "dec2 b0 b1 = (b0 - 0xC0) * 64 + (b1 - 0x80)"

definition dec3 :: "int \<Rightarrow> int \<Rightarrow> int \<Rightarrow> int" where
  "dec3 b0 b1 b2 = ((b0 - 0xE0) * 64 + (b1 - 0x80)) * 64 + (b2 - 0x80)"

definition dec4 :: "int \<Rightarrow> int \<Rightarrow> int \<Rightarrow> int \<Rightarrow> int" where
  "dec4 b0 b1 b2 b3 = (((b0 - 0xF0) * 64 + (b1 - 0x80)) * 64 + (b2 - 0x80)) * 64 + (b3 - 0x80)"

text \<open>The first scalar value of a byte sequence and the bytes after it.\<close>

fun utf8_next :: "int list \<Rightarrow> (uchar \<times> int list) option" where
  "utf8_next [] = None"
| "utf8_next (b0 # bs) =
    (if b0 < 0x80 then Some (uchr b0, bs)
     else if 0xC2 \<le> b0 \<and> b0 \<le> 0xDF then
       (case bs of b1 # r \<Rightarrow> if is_cont b1 then Some (uchr (dec2 b0 b1), r) else None
        | _ \<Rightarrow> None)
     else if 0xE0 \<le> b0 \<and> b0 \<le> 0xEF then
       (case bs of b1 # b2 # r \<Rightarrow>
          if lead3_ok b0 b1 \<and> is_cont b2 then Some (uchr (dec3 b0 b1 b2), r) else None
        | _ \<Rightarrow> None)
     else if 0xF0 \<le> b0 \<and> b0 \<le> 0xF4 then
       (case bs of b1 # b2 # b3 # r \<Rightarrow>
          if lead4_ok b0 b1 \<and> is_cont b2 \<and> is_cont b3
          then Some (uchr (dec4 b0 b1 b2 b3), r) else None
        | _ \<Rightarrow> None)
     else None)"

lemma utf8_next_shorter: "utf8_next bs = Some (c, r) \<Longrightarrow> length r < length bs"
  by (cases bs) (auto split: if_splits list.splits)

function utf8_decode :: "int list \<Rightarrow> rstr option" where
  "utf8_decode bs =
    (if bs = [] then Some []
     else case utf8_next bs of
       None \<Rightarrow> None
     | Some (c, r) \<Rightarrow> map_option ((#) c) (utf8_decode r))"
  by pat_completeness auto
termination
  by (relation "measure length") (auto dest: utf8_next_shorter)

declare utf8_decode.simps [simp del]

definition from_utf8 :: "bytes \<Rightarrow> rstr option" where
  "from_utf8 bs = utf8_decode (map uint bs)"

lemma utf8_char_bytes: "b \<in> set (utf8_char x) \<Longrightarrow> 0 \<le> b \<and> b < 256"
  using codept_range [of x] by (auto simp: utf8_char_def Let_def split: if_splits)

lemma is_cont_mod [simp]: "is_cont (0x80 + c mod 64)"
  using pos_mod_bound [of 64 c] by (simp add: is_cont_def)

lemma utf8_char_nonempty: "utf8_char x \<noteq> []"
  by (simp add: utf8_char_def Let_def)

lemma utf8_ints_simps [simp]:
  "utf8_ints [] = []"
  "utf8_ints (x # s) = utf8_char x @ utf8_ints s"
  "utf8_ints (s @ t) = utf8_ints s @ utf8_ints t"
  by (simp_all add: utf8_ints_def)

lemma div_4096: "(c::int) div 4096 = c div 64 div 64"
  using zdiv_zmult2_eq [of 64 c 64] by simp

lemma div_262144: "(c::int) div 262144 = c div 64 div 64 div 64"
  using zdiv_zmult2_eq [of 64 c 4096] by (simp add: div_4096)

lemma digit64:
  "0 \<le> r \<Longrightarrow> r < 64 \<Longrightarrow> (m * 64 + r) div 64 = (m::int)"
  "0 \<le> r \<Longrightarrow> r < 64 \<Longrightarrow> (m * 64 + r) mod 64 = (r::int)"
  by auto

lemma lead3_okI:
  assumes "0x20 \<le> h" "h < 0x360 \<or> 0x380 \<le> h"
  shows "lead3_ok (0xE0 + h div 64) (0x80 + h mod 64)"
proof -
  have "h div 64 = 0 \<Longrightarrow> 0x20 \<le> h mod 64" "h div 64 = 13 \<Longrightarrow> h mod 64 \<le> 0x1F"
    using assms by presburger+
  then show ?thesis
    by (auto simp: lead3_ok_def)
qed

lemma lead4_okI:
  assumes "0x10 \<le> h" "h < 0x110"
  shows "lead4_ok (0xF0 + h div 64) (0x80 + h mod 64)"
proof -
  have "h div 64 = 0 \<Longrightarrow> 0x10 \<le> h mod 64" "h div 64 = 4 \<Longrightarrow> h mod 64 \<le> 0xF"
    using assms by presburger+
  then show ?thesis
    by (auto simp: lead4_ok_def)
qed

lemma utf8_next_2:
  "0xC2 \<le> b0 \<Longrightarrow> b0 \<le> 0xDF \<Longrightarrow> is_cont b1 \<Longrightarrow>
   utf8_next (b0 # b1 # r) = Some (uchr (dec2 b0 b1), r)"
  by simp

lemma utf8_next_3:
  "0xE0 \<le> b0 \<Longrightarrow> b0 \<le> 0xEF \<Longrightarrow> lead3_ok b0 b1 \<Longrightarrow> is_cont b2 \<Longrightarrow>
   utf8_next (b0 # b1 # b2 # r) = Some (uchr (dec3 b0 b1 b2), r)"
  by simp

lemma utf8_next_4:
  "0xF0 \<le> b0 \<Longrightarrow> b0 \<le> 0xF4 \<Longrightarrow> lead4_ok b0 b1 \<Longrightarrow> is_cont b2 \<Longrightarrow> is_cont b3 \<Longrightarrow>
   utf8_next (b0 # b1 # b2 # b3 # r) = Some (uchr (dec4 b0 b1 b2 b3), r)"
  by simp

lemma utf8_next_char [simp]: "utf8_next (utf8_char x @ r) = Some (x, r)"
proof -
  let ?c = "codept x"
  note range = codept_range [of x]
  consider "?c < 0x80" | "0x80 \<le> ?c" "?c < 0x800" | "0x800 \<le> ?c" "?c < 0x10000"
    | "0x10000 \<le> ?c"
    by linarith
  then show ?thesis
  proof cases
    case 1
    then show ?thesis by (simp add: utf8_char_def)
  next
    case 2
    then have "utf8_char x = [0xC0 + ?c div 64, 0x80 + ?c mod 64]"
      by (simp add: utf8_char_def Let_def)
    moreover have "0xC2 \<le> 0xC0 + ?c div 64" "0xC0 + ?c div 64 \<le> 0xDF"
      using 2 by auto
    moreover have "dec2 (0xC0 + ?c div 64) (0x80 + ?c mod 64) = ?c"
      by (simp add: dec2_def)
    ultimately show ?thesis
      by (simp only: append.simps utf8_next_2 is_cont_mod uchr_codept)
  next
    case 3
    then have "utf8_char x = [0xE0 + ?c div 4096, 0x80 + ?c div 64 mod 64, 0x80 + ?c mod 64]"
      by (simp add: utf8_char_def Let_def)
    moreover have "0xE0 \<le> 0xE0 + ?c div 4096" "0xE0 + ?c div 4096 \<le> 0xEF"
      using 3 by auto
    moreover have "lead3_ok (0xE0 + ?c div 4096) (0x80 + ?c div 64 mod 64)"
      unfolding div_4096
    proof (rule lead3_okI)
      show "0x20 \<le> ?c div 64"
        using 3 by simp
      show "?c div 64 < 0x360 \<or> 0x380 \<le> ?c div 64"
        using range(3) by auto
    qed
    moreover have "dec3 (0xE0 + ?c div 4096) (0x80 + ?c div 64 mod 64) (0x80 + ?c mod 64) = ?c"
      by (simp add: dec3_def div_4096)
    ultimately show ?thesis
      by (simp only: append.simps utf8_next_3 is_cont_mod uchr_codept)
  next
    case 4
    then have "utf8_char x = [0xF0 + ?c div 262144, 0x80 + ?c div 4096 mod 64,
        0x80 + ?c div 64 mod 64, 0x80 + ?c mod 64]"
      by (simp add: utf8_char_def Let_def)
    moreover have "0xF0 \<le> 0xF0 + ?c div 262144" "0xF0 + ?c div 262144 \<le> 0xF4"
      using 4 range by auto
    moreover have "lead4_ok (0xF0 + ?c div 262144) (0x80 + ?c div 4096 mod 64)"
      unfolding div_262144 unfolding div_4096 [symmetric]
    proof (rule lead4_okI)
      show "0x10 \<le> ?c div 4096"
        using 4 by simp
      show "?c div 4096 < 0x110"
        using range(2) by simp
    qed
    moreover have "dec4 (0xF0 + ?c div 262144) (0x80 + ?c div 4096 mod 64)
        (0x80 + ?c div 64 mod 64) (0x80 + ?c mod 64) = ?c"
      by (simp add: dec4_def div_262144 div_4096)
    ultimately show ?thesis
      by (simp only: append.simps utf8_next_4 is_cont_mod uchr_codept)
  qed
qed

lemma utf8_decode_ints [simp]: "utf8_decode (utf8_ints s) = Some s"
  by (induction s) (simp_all add: utf8_decode.simps utf8_char_nonempty)

lemma uint_str_bytes: "map uint (str_bytes s) = utf8_ints s"
proof -
  have "b \<in> set (utf8_ints s) \<Longrightarrow> 0 \<le> b \<and> b < 256" for b
    by (auto simp: utf8_ints_def dest: utf8_char_bytes)
  then show ?thesis
    by (auto simp: str_bytes_def uint_word_of_int intro!: map_idI)
qed

text \<open>Encoding what a two-, three- or four-byte sequence decodes to gives the bytes back.\<close>

lemma is_cont_range: "is_cont b \<longleftrightarrow> 0 \<le> b - 0x80 \<and> b - 0x80 < 64"
  by (auto simp: is_cont_def)

lemma utf8_char_1: "0 \<le> b \<Longrightarrow> b < 0x80 \<Longrightarrow> utf8_char (uchr b) = [b]"
  by (simp add: utf8_char_def)

lemma utf8_char_2:
  assumes "0xC2 \<le> b0" "b0 \<le> 0xDF" "is_cont b1"
  shows "utf8_char (uchr (dec2 b0 b1)) = [b0, b1]"
proof -
  have b1: "0 \<le> b1 - 0x80" "b1 - 0x80 < 64"
    using assms(3) by (auto simp: is_cont_range)
  have "dec2 b0 b1 div 64 = b0 - 0xC0" "dec2 b0 b1 mod 64 = b1 - 0x80"
    using b1 unfolding dec2_def by (simp_all only: digit64)
  moreover have "0x80 \<le> dec2 b0 b1 \<and> dec2 b0 b1 < 0x800"
    using assms b1 by (simp add: dec2_def)
  ultimately show ?thesis
    by (simp add: utf8_char_def Let_def)
qed

lemma utf8_char_3:
  assumes "0xE0 \<le> b0" "b0 \<le> 0xEF" "lead3_ok b0 b1" "is_cont b2"
  shows "utf8_char (uchr (dec3 b0 b1 b2)) = [b0, b1, b2]"
proof -
  let ?c = "dec3 b0 b1 b2"
  have b: "0 \<le> b1 - 0x80" "b1 - 0x80 < 64" "0 \<le> b2 - 0x80" "b2 - 0x80 < 64"
    using assms(3,4) by (auto simp: lead3_ok_def is_cont_range)
  have c: "?c div 64 div 64 = b0 - 0xE0" "?c div 64 mod 64 = b1 - 0x80" "?c mod 64 = b2 - 0x80"
    using b unfolding dec3_def by (simp_all only: digit64)
  define h where "h = (b0 - 0xE0) * 64 + (b1 - 0x80)"
  have "0x20 \<le> h"
    using assms b by (cases "b0 = 0xE0") (auto simp: h_def lead3_ok_def)
  moreover have "h < 0x400"
    using assms b by (simp add: h_def)
  moreover have "h < 0x360 \<or> 0x380 \<le> h"
    using assms b by (cases b0 "0xED :: int" rule: linorder_cases) (auto simp: h_def lead3_ok_def)
  moreover have "?c = h * 64 + (b2 - 0x80)"
    by (simp add: dec3_def h_def)
  ultimately have r: "0x800 \<le> ?c" "?c < 0x10000" and "is_scalar ?c"
    using b(3,4) by (auto simp: is_scalar_def)
  with c r show ?thesis
    by (simp add: utf8_char_def Let_def div_4096)
qed

lemma utf8_char_4:
  assumes "0xF0 \<le> b0" "b0 \<le> 0xF4" "lead4_ok b0 b1" "is_cont b2" "is_cont b3"
  shows "utf8_char (uchr (dec4 b0 b1 b2 b3)) = [b0, b1, b2, b3]"
proof -
  let ?c = "dec4 b0 b1 b2 b3"
  have b: "0 \<le> b1 - 0x80" "b1 - 0x80 < 64" "0 \<le> b2 - 0x80" "b2 - 0x80 < 64"
    "0 \<le> b3 - 0x80" "b3 - 0x80 < 64"
    using assms(3-5) by (auto simp: lead4_ok_def is_cont_range)
  have c: "?c div 64 div 64 div 64 = b0 - 0xF0" "?c div 64 div 64 mod 64 = b1 - 0x80"
    "?c div 64 mod 64 = b2 - 0x80" "?c mod 64 = b3 - 0x80"
    using b unfolding dec4_def by (simp_all only: digit64)
  define h where "h = (b0 - 0xF0) * 64 + (b1 - 0x80)"
  have "0x10 \<le> h"
    using assms b by (cases "b0 = 0xF0") (auto simp: h_def lead4_ok_def)
  moreover have "h < 0x110"
    using assms b by (cases "b0 = 0xF4") (auto simp: h_def lead4_ok_def)
  moreover have "?c = (h * 64 + (b2 - 0x80)) * 64 + (b3 - 0x80)"
    by (simp add: dec4_def h_def)
  ultimately have r: "0x10000 \<le> ?c" "is_scalar ?c"
    using b(3-6) by (auto simp: is_scalar_def)
  then have "utf8_char (uchr ?c) = [0xF0 + ?c div 262144, 0x80 + ?c div 4096 mod 64,
      0x80 + ?c div 64 mod 64, 0x80 + ?c mod 64]"
    by (simp add: utf8_char_def Let_def)
  then show ?thesis
    unfolding div_262144 div_4096 c by simp
qed

lemma utf8_next_sound:
  assumes "utf8_next bs = Some (c, r)" "\<forall>b\<in>set bs. 0 \<le> b"
  shows "bs = utf8_char c @ r"
proof (cases bs)
  case Nil
  with assms(1) show ?thesis by simp
next
  case (Cons b0 t)
  consider "b0 < 0x80" | "0xC2 \<le> b0" "b0 \<le> 0xDF" | "0xE0 \<le> b0" "b0 \<le> 0xEF"
    | "0xF0 \<le> b0" "b0 \<le> 0xF4"
    using assms(1) Cons by (force split: if_splits)
  then show ?thesis
  proof cases
    case 1
    with assms Cons show ?thesis by (auto simp: utf8_char_1)
  next
    case 2
    with assms(1) Cons show ?thesis by (simp split: list.splits if_splits) (auto simp: utf8_char_2)
  next
    case 3
    with assms(1) Cons show ?thesis by (simp split: list.splits if_splits) (auto simp: utf8_char_3)
  next
    case 4
    with assms(1) Cons show ?thesis by (simp split: list.splits if_splits) (auto simp: utf8_char_4)
  qed
qed

lemma utf8_decode_sound:
  "utf8_decode bs = Some s \<Longrightarrow> \<forall>b\<in>set bs. 0 \<le> b \<Longrightarrow> utf8_ints s = bs"
proof (induction bs arbitrary: s rule: utf8_decode.induct)
  case (1 bs)
  show ?case
  proof (cases "bs = []")
    case True
    with "1.prems" show ?thesis by (simp add: utf8_decode.simps)
  next
    case False
    with "1.prems" obtain c r t where next': "utf8_next bs = Some (c, r)"
      and t: "utf8_decode r = Some t" "s = c # t"
      by (subst (asm) utf8_decode.simps) (auto split: option.splits)
    have bs: "bs = utf8_char c @ r"
      using next' "1.prems"(2) by (rule utf8_next_sound)
    with "1.prems"(2) have "utf8_ints t = r"
      using "1.IH" [OF False next' refl t(1)] by simp
    with bs t(2) show ?thesis by simp
  qed
qed

text \<open>Decoding what was encoded gives the string back, and only encodings decode.\<close>

lemma from_utf8_str_bytes [simp]: "from_utf8 (str_bytes s) = Some s"
  by (simp add: from_utf8_def uint_str_bytes)

lemma from_utf8_eq_Some: "from_utf8 bs = Some s \<longleftrightarrow> bs = str_bytes s"
proof
  assume "from_utf8 bs = Some s"
  then have "utf8_ints s = map uint bs"
    unfolding from_utf8_def by (rule utf8_decode_sound) simp
  then have "str_bytes s = map (word_of_int \<circ> uint) bs"
    by (simp add: str_bytes_def)
  then show "bs = str_bytes s"
    by (simp add: comp_def)
qed simp

lemma str_bytes_inject: "str_bytes s = str_bytes t \<longleftrightarrow> s = t"
  by (metis from_utf8_str_bytes option.inject)

section \<open>Lengths, boundaries and slices\<close>

definition byte_len :: "rstr \<Rightarrow> nat" where
  "byte_len s = length (str_bytes s)"

definition char_len :: "uchar \<Rightarrow> nat" where
  "char_len c = length (utf8_char c)"

text \<open>
  \<open>s[n..]\<close> for a byte offset \<open>n\<close>: \<open>None\<close> is the panic on an offset that is out of
  range or inside a character. \<open>is_char_boundary\<close> says when it does not panic.
\<close>

fun slice_from :: "nat \<Rightarrow> rstr \<Rightarrow> rstr option" where
  "slice_from 0 s = Some s"
| "slice_from (Suc n) [] = None"
| "slice_from (Suc n) (c # s) =
    (if char_len c \<le> Suc n then slice_from (Suc n - char_len c) s else None)"

definition is_char_boundary :: "nat \<Rightarrow> rstr \<Rightarrow> bool" where
  "is_char_boundary n s \<longleftrightarrow> slice_from n s \<noteq> None"

lemma str_bytes_append [simp]: "str_bytes (s @ t) = str_bytes s @ str_bytes t"
  by (simp add: str_bytes_def)

lemma str_bytes_Nil [simp]: "str_bytes [] = []"
  by (simp add: str_bytes_def)

lemma byte_len_simps [simp]:
  "byte_len [] = 0"
  "byte_len (c # s) = char_len c + byte_len s"
  "byte_len (s @ t) = byte_len s + byte_len t"
  by (simp_all add: byte_len_def str_bytes_def char_len_def)

lemma char_len_pos [simp]: "0 < char_len c"
  by (simp add: char_len_def utf8_char_nonempty)

lemma slice_from_append [simp]: "slice_from (byte_len s) (s @ t) = Some t"
proof (induction s)
  case (Cons c s)
  obtain n where "char_len c = Suc n"
    using char_len_pos [of c] by (cases "char_len c") auto
  with Cons show ?case by simp
qed simp

lemma slice_from_Some: "slice_from n s = Some t \<Longrightarrow> \<exists>u. s = u @ t \<and> byte_len u = n"
proof (induction n s rule: slice_from.induct)
  case (3 n c s)
  then obtain u where "s = u @ t" "byte_len u = Suc n - char_len c" "char_len c \<le> Suc n"
    by (auto split: if_splits)
  then have "c # s = (c # u) @ t \<and> byte_len (c # u) = Suc n"
    by simp
  then show ?case by blast
qed auto

section \<open>ASCII case\<close>

definition ascii_lower :: "uchar \<Rightarrow> uchar" where
  "ascii_lower c = (if 65 \<le> codept c \<and> codept c \<le> 90 then uchr (codept c + 32) else c)"

definition to_ascii_lowercase :: "rstr \<Rightarrow> rstr" where
  "to_ascii_lowercase s = map ascii_lower s"

definition eq_ignore_ascii_case :: "rstr \<Rightarrow> rstr \<Rightarrow> bool" where
  "eq_ignore_ascii_case s t \<longleftrightarrow> to_ascii_lowercase s = to_ascii_lowercase t"

definition byte_lower :: "u8 \<Rightarrow> u8" where
  "byte_lower b = (if 65 \<le> b \<and> b \<le> 90 then b + 32 else b)"

definition bytes_eq_ignore_ascii_case :: "bytes \<Rightarrow> bytes \<Rightarrow> bool" where
  "bytes_eq_ignore_ascii_case a b \<longleftrightarrow> map byte_lower a = map byte_lower b"

lemma codept_ascii_lower:
  "codept (ascii_lower c) =
     (if 65 \<le> codept c \<and> codept c \<le> 90 then codept c + 32 else codept c)"
  by (auto simp: ascii_lower_def)

lemma ascii_lower_idem [simp]: "ascii_lower (ascii_lower c) = ascii_lower c"
  by (auto simp: ascii_lower_def)

lemma to_ascii_lowercase_simps [simp]:
  "to_ascii_lowercase [] = []"
  "to_ascii_lowercase (c # s) = ascii_lower c # to_ascii_lowercase s"
  "to_ascii_lowercase (s @ t) = to_ascii_lowercase s @ to_ascii_lowercase t"
  "to_ascii_lowercase (to_ascii_lowercase s) = to_ascii_lowercase s"
  "length (to_ascii_lowercase s) = length s"
  "to_ascii_lowercase s = [] \<longleftrightarrow> s = []"
  by (simp_all add: to_ascii_lowercase_def comp_def)

text \<open>Characters that are no ASCII letters are neither changed nor produced.\<close>

definition caseless :: "uchar \<Rightarrow> bool" where
  "caseless c \<longleftrightarrow> codept c < 65 \<or> 122 < codept c \<or> (90 < codept c \<and> codept c < 97)"

lemma ascii_lower_caseless: "caseless c \<Longrightarrow> ascii_lower x = c \<longleftrightarrow> x = c"
  by (auto simp: caseless_def ascii_lower_def eq_uchr_iff codept_ascii_lower)

lemma caseless_fixed: "caseless c \<Longrightarrow> ascii_lower c = c"
  by (simp add: ascii_lower_caseless)

lemma in_lowercase_iff: "caseless c \<Longrightarrow> c \<in> set (to_ascii_lowercase s) \<longleftrightarrow> c \<in> set s"
  unfolding to_ascii_lowercase_def set_map image_iff
  by (metis ascii_lower_caseless)

lemma prefix_lowercase:
  "\<forall>c\<in>set p. caseless c \<Longrightarrow> prefix p (to_ascii_lowercase s) \<longleftrightarrow> prefix p s"
proof (induction p arbitrary: s)
  case (Cons c p)
  have "c = ascii_lower x \<longleftrightarrow> c = x" for x
    using Cons.prems by (metis ascii_lower_caseless list.set_intros(1))
  with Cons show ?case
    by (cases s) auto
qed simp

section \<open>White space and trimming\<close>

text \<open>\<open>char::is_whitespace\<close>: the Unicode property White\_Space.\<close>

definition is_white :: "uchar \<Rightarrow> bool" where
  "is_white c \<longleftrightarrow> (let n = codept c in
     (9 \<le> n \<and> n \<le> 13) \<or> n = 32 \<or> n = 0x85 \<or> n = 0xA0 \<or> n = 0x1680 \<or>
     (0x2000 \<le> n \<and> n \<le> 0x200A) \<or> n = 0x2028 \<or> n = 0x2029 \<or> n = 0x202F \<or> n = 0x205F \<or>
     n = 0x3000)"

definition trim_start :: "rstr \<Rightarrow> rstr" where
  "trim_start s = dropWhile is_white s"

definition trim_end :: "rstr \<Rightarrow> rstr" where
  "trim_end s = rev (dropWhile is_white (rev s))"

definition trim :: "rstr \<Rightarrow> rstr" where
  "trim s = trim_end (trim_start s)"

definition trim_start_matches :: "uchar \<Rightarrow> rstr \<Rightarrow> rstr" where
  "trim_start_matches c s = dropWhile (\<lambda>x. x = c) s"

definition trim_matches :: "uchar \<Rightarrow> rstr \<Rightarrow> rstr" where
  "trim_matches c s = rev (dropWhile (\<lambda>x. x = c) (rev (dropWhile (\<lambda>x. x = c) s)))"

text \<open>A string without white space at either end is what trimming leaves alone.\<close>

definition trimmed :: "rstr \<Rightarrow> bool" where
  "trimmed s \<longleftrightarrow> s = [] \<or> (\<not> is_white (hd s) \<and> \<not> is_white (last s))"

lemma is_white_ascii_lower [simp]: "is_white (ascii_lower c) = is_white c"
  by (auto simp: is_white_def Let_def codept_ascii_lower)

lemma trim_id: "trimmed s \<Longrightarrow> trim s = s"
  by (auto simp: trim_def trim_end_def trim_start_def trimmed_def dropWhile_id hd_rev)

lemma last_trim_end: "trim_end s \<noteq> [] \<Longrightarrow> \<not> is_white (last (trim_end s))"
  by (simp add: trim_end_def last_rev hd_dropWhile_neg)

lemma hd_trim_end: "trim_end s \<noteq> [] \<Longrightarrow> hd (trim_end s) = hd s"
proof -
  assume ne: "trim_end s \<noteq> []"
  have "s = trim_end s @ rev (takeWhile is_white (rev s))"
    by (metis rev_append rev_rev_ident takeWhile_dropWhile_id trim_end_def)
  with ne show ?thesis
    by (metis hd_append2)
qed

lemma trimmed_trim [simp]: "trimmed (trim s)"
proof (cases "trim s = []")
  case False
  then have "\<not> is_white (last (trim s))" "hd (trim s) = hd (trim_start s)"
    unfolding trim_def by (rule last_trim_end, rule hd_trim_end)
  moreover have "trim_start s \<noteq> []"
    using False by (auto simp: trim_def trim_end_def)
  then have "\<not> is_white (hd (trim_start s))"
    unfolding trim_start_def by (rule hd_dropWhile_neg)
  ultimately show ?thesis
    by (simp add: trimmed_def)
qed (simp add: trimmed_def)

lemma trim_idem [simp]: "trim (trim s) = trim s"
  by (simp add: trim_id)

lemma trimmed_lower [simp]: "trimmed (to_ascii_lowercase s) = trimmed s"
  by (cases "s = []") (auto simp: trimmed_def to_ascii_lowercase_def hd_map last_map)

section \<open>Searching and splitting\<close>

text \<open>\<open>s.split(c)\<close>\<close>

fun split_on :: "uchar \<Rightarrow> rstr \<Rightarrow> rstr list" where
  "split_on c [] = [[]]"
| "split_on c (x # xs) =
    (if x = c then [] # split_on c xs
     else (case split_on c xs of [] \<Rightarrow> [[x]] | p # ps \<Rightarrow> (x # p) # ps))"

text \<open>\<open>s.split_once(c)\<close> for a character, and \<open>s.splitn(2, c)\<close>\<close>

definition split_once_ch :: "uchar \<Rightarrow> rstr \<Rightarrow> (rstr \<times> rstr) option" where
  "split_once_ch c s =
     (if c \<in> set s then Some (takeWhile (\<lambda>x. x \<noteq> c) s, tl (dropWhile (\<lambda>x. x \<noteq> c) s)) else None)"

definition splitn2 :: "uchar \<Rightarrow> rstr \<Rightarrow> rstr list" where
  "splitn2 c s = (case split_once_ch c s of Some (a, b) \<Rightarrow> [a, b] | None \<Rightarrow> [s])"

text \<open>\<open>s.split_once(pat)\<close> for a string: around its first occurrence\<close>

fun split_once_str :: "rstr \<Rightarrow> rstr \<Rightarrow> (rstr \<times> rstr) option" where
  "split_once_str pat [] = (if pat = [] then Some ([], []) else None)"
| "split_once_str pat (x # xs) =
    (if prefix pat (x # xs) then Some ([], drop (length pat) (x # xs))
     else map_option (\<lambda>(a, b). (x # a, b)) (split_once_str pat xs))"

definition strip_prefix :: "rstr \<Rightarrow> rstr \<Rightarrow> rstr option" where
  "strip_prefix p s = (if prefix p s then Some (drop (length p) s) else None)"

lemma split_on_nonempty [simp]: "split_on c s \<noteq> []"
  by (cases s) (auto split: list.splits)

lemma split_on_no_sep: "c \<notin> set s \<Longrightarrow> split_on c s = [s]"
  by (induction s) auto

lemma split_on_append:
  "c \<notin> set s \<Longrightarrow> split_on c (s @ c # t) = s # split_on c t"
  by (induction s) auto

lemma split_on_pieces: "p \<in> set (split_on c s) \<Longrightarrow> c \<notin> set p \<and> set p \<subseteq> set s"
  by (induction s arbitrary: p) (force split: if_splits list.splits)+

text \<open>Joining pieces with a separator, the inverse of splitting.\<close>

fun join_with :: "uchar \<Rightarrow> rstr list \<Rightarrow> rstr" where
  "join_with c [] = []"
| "join_with c [p] = p"
| "join_with c (p # q # ps) = p @ c # join_with c (q # ps)"

lemma split_on_join:
  "ps \<noteq> [] \<Longrightarrow> \<forall>p\<in>set ps. c \<notin> set p \<Longrightarrow> split_on c (join_with c ps) = ps"
  by (induction c ps rule: join_with.induct) (auto simp: split_on_no_sep split_on_append)

lemma join_with_Nil_iff: "join_with c ps = [] \<longleftrightarrow> ps = [] \<or> ps = [[]]"
  by (induction c ps rule: join_with.induct) auto

lemma hd_join_with: "ps \<noteq> [] \<Longrightarrow> hd ps \<noteq> [] \<Longrightarrow> hd (join_with c ps) = hd (hd ps)"
  by (induction c ps rule: join_with.induct) auto

lemma split_once_ch_append [simp]:
  "c \<notin> set a \<Longrightarrow> split_once_ch c (a @ c # b) = Some (a, b)"
  by (simp add: split_once_ch_def takeWhile_append dropWhile_append)

lemma split_once_ch_None [simp]: "c \<notin> set a \<Longrightarrow> split_once_ch c a = None"
  by (simp add: split_once_ch_def)

lemma split_once_ch_Some:
  "split_once_ch c s = Some (a, b) \<longleftrightarrow> s = a @ c # b \<and> c \<notin> set a"
proof
  assume "split_once_ch c s = Some (a, b)"
  then have c: "c \<in> set s" and ab: "a = takeWhile (\<lambda>x. x \<noteq> c) s" "b = tl (dropWhile (\<lambda>x. x \<noteq> c) s)"
    by (auto simp: split_once_ch_def split: if_splits)
  from c have ne: "dropWhile (\<lambda>x. x \<noteq> c) s \<noteq> []"
    by (auto simp: dropWhile_eq_Nil_conv)
  then have "hd (dropWhile (\<lambda>x. x \<noteq> c) s) = c"
    using hd_dropWhile_neg [of "\<lambda>x. x \<noteq> c" s] by simp
  with ne ab have "dropWhile (\<lambda>x. x \<noteq> c) s = c # b"
    by (metis list.collapse)
  with ab(1) show "s = a @ c # b \<and> c \<notin> set a"
    using set_takeWhileD [of c "\<lambda>x. x \<noteq> c" s] takeWhile_dropWhile_id [of "\<lambda>x. x \<noteq> c" s] by auto
qed auto

lemma split_once_str_Some:
  "split_once_str pat s = Some (a, b) \<Longrightarrow> s = a @ pat @ b"
proof (induction s arbitrary: a)
  case (Cons x xs)
  show ?case
  proof (cases "prefix pat (x # xs)")
    case True
    with Cons.prems show ?thesis
      by (auto simp: prefix_def)
  next
    case False
    with Cons show ?thesis by auto
  qed
qed (auto split: if_splits)

lemma split_once_str_first:
  assumes "pat = p # ps" "p \<notin> set a"
  shows "split_once_str pat (a @ pat @ b) = Some (a, b)"
  using assms(2) by (induction a) (auto simp: assms(1))

lemma drop_lowercase: "drop n (to_ascii_lowercase s) = to_ascii_lowercase (drop n s)"
  by (simp add: to_ascii_lowercase_def drop_map)

lemma split_once_str_lowercase:
  assumes "\<forall>c\<in>set pat. caseless c"
  shows "split_once_str pat (to_ascii_lowercase s) =
    map_option (\<lambda>(a, b). (to_ascii_lowercase a, to_ascii_lowercase b)) (split_once_str pat s)"
proof (induction s)
  case (Cons x s)
  have "prefix pat (ascii_lower x # to_ascii_lowercase s) = prefix pat (x # s)"
    using prefix_lowercase [OF assms, of "x # s"] by simp
  with Cons drop_lowercase [of "length pat" "x # s"] show ?case
    by (simp add: option.map_comp comp_def split_def)
qed simp

lemma split_once_ch_lowercase:
  assumes "caseless c"
  shows "split_once_ch c (to_ascii_lowercase s) =
    map_option (\<lambda>(a, b). (to_ascii_lowercase a, to_ascii_lowercase b)) (split_once_ch c s)"
proof (cases "split_once_ch c s")
  case None
  then show ?thesis
    by (auto simp: split_once_ch_def in_lowercase_iff [OF assms] split: if_splits)
next
  case (Some ab)
  then obtain a b where ab: "ab = (a, b)" "s = a @ c # b" "c \<notin> set a"
    by (cases ab) (auto simp: split_once_ch_Some)
  then show ?thesis
    using Some assms by (simp add: caseless_fixed in_lowercase_iff)
qed

lemma strip_prefix_lowercase:
  "\<forall>c\<in>set p. caseless c \<Longrightarrow>
   strip_prefix p (to_ascii_lowercase s) = map_option to_ascii_lowercase (strip_prefix p s)"
  by (simp add: strip_prefix_def prefix_lowercase drop_lowercase)

lemma split_once_str_prefix:
  "prefix pat s \<Longrightarrow> split_once_str pat s = Some ([], drop (length pat) s)"
  by (cases s) auto

text \<open>Where a separator is found does not depend on what follows it.\<close>

lemma split_once_str_cong:
  "split_once_str pat (a @ pat @ b) = Some (a, b) \<Longrightarrow> split_once_str pat (a @ pat @ b') = Some (a, b')"
proof (induction a)
  case Nil
  show ?case by (simp add: split_once_str_prefix)
next
  case (Cons x a)
  have "prefix pat (x # a @ pat @ c) = prefix pat (x # a @ pat)" for c
    using prefix_prefix [of pat "x # a @ pat" c]
    by (auto dest: prefix_length_prefix [of pat _ "x # a @ pat"])
  with Cons show ?case by (auto split: if_splits)
qed

lemma strip_prefix_append [simp]: "strip_prefix p (p @ s) = Some s"
  by (simp add: strip_prefix_def)

lemma strip_prefix_Some: "strip_prefix p s = Some t \<longleftrightarrow> s = p @ t"
  by (auto simp: strip_prefix_def prefix_def)

section \<open>Parsing a port number\<close>

text \<open>
  \<open>str::parse::<u16>\<close>: an optional plus sign and a nonempty run of ASCII digits whose value fits.
\<close>

definition is_digit :: "uchar \<Rightarrow> bool" where
  "is_digit c \<longleftrightarrow> 48 \<le> codept c \<and> codept c \<le> 57"

definition digits_value :: "rstr \<Rightarrow> int" where
  "digits_value s = foldl (\<lambda>n c. n * 10 + (codept c - 48)) 0 s"

definition parse_u16 :: "rstr \<Rightarrow> int option" where
  "parse_u16 s =
     (let ds = (case s of c # cs \<Rightarrow> if c = uchr 43 then cs else s | [] \<Rightarrow> s)
      in if ds \<noteq> [] \<and> list_all is_digit ds \<and> digits_value ds < 65536
         then Some (digits_value ds) else None)"

end
