(* ===== verification/Ws_Error.thy ===== *)
theory Ws_Error
  imports Rust_Str
begin

text \<open>
  The error type of the crate (\<open>src/error.rs\<close>) with its \<open>Display\<close> texts. A Rust
  \<open>Result<T, WsError>\<close> is \<open>'a res\<close>: \<open>Inl\<close> carries the error, \<open>Inr\<close> the
  value. A panic is the \<open>None\<close> of an \<open>option\<close> around the whole result.
\<close>

datatype ws_error =
    AuthMissing
  | AuthInvalid
  | TooManyConnections
  | BroadcastFull
  | InvalidMessage
  | Compression
  | PayloadTooLarge
  | Redis rstr
  | Closed

type_synonym 'a res = "ws_error + 'a"

text \<open>The outcome of code that can panic: \<open>None\<close> is the panic.\<close>

type_synonym 'a run = "'a option"

primrec ws_error_display :: "ws_error \<Rightarrow> rstr" where
  "ws_error_display AuthMissing = lit ''authentication token missing''"
| "ws_error_display AuthInvalid = lit ''authentication token invalid''"
| "ws_error_display TooManyConnections = lit ''too many connections''"
| "ws_error_display BroadcastFull = lit ''broadcast channel full''"
| "ws_error_display InvalidMessage = lit ''invalid message''"
| "ws_error_display Compression = lit ''malformed compressed payload''"
| "ws_error_display PayloadTooLarge = lit ''payload exceeds size limit''"
| "ws_error_display (Redis e) = lit ''redis error: '' @ e"
| "ws_error_display Closed = lit ''connection closed''"

lemma lit_inject: "lit s = lit t \<longleftrightarrow> s = t"
proof -
  have "inj (\<lambda>c::char. uchr (of_char c))"
  proof (rule injI)
    fix c d :: char
    assume "uchr (of_char c) = uchr (of_char d)"
    moreover have "is_scalar (of_char c)" "is_scalar (of_char d)"
      by (cases c, simp add: is_scalar_def of_char_def, cases d, simp add: is_scalar_def of_char_def)
    ultimately show "c = d"
      by (simp add: uchr_inject)
  qed
  then show ?thesis
    by (simp add: lit_def inj_map_eq_map)
qed

text \<open>Two errors with the same text are the same error: a log line identifies its error.\<close>

lemma ws_error_display_inject: "ws_error_display e = ws_error_display f \<longleftrightarrow> e = f"
  by (cases e; cases f) (simp_all add: uchr_inject)

end
