(* ===== verification/Ws_Config.thy ===== *)
theory Ws_Config
  imports Ws_Error
begin

text \<open>
  \<open>src/config.rs\<close>: the configuration record, its defaults and its builder. The builder's
  setters are one datatype of calls as well, so that a chain of builder calls is a list.
\<close>

text \<open>\<open>std::time::Duration\<close>: seconds and nanoseconds.\<close>

datatype duration = Duration (secs: u64) (nanos: u32)

definition from_secs :: "u64 \<Rightarrow> duration" where
  "from_secs s = Duration s 0"

record ws_config =
  heartbeat_interval :: duration
  broadcast_capacity :: usize
  max_connections :: usize
  allowed_origins :: "rstr list"

record ws_config_builder =
  b_heartbeat_interval :: duration
  b_broadcast_capacity :: usize
  b_max_connections :: usize
  b_allowed_origins :: "rstr list"

definition config_default :: ws_config where
  "config_default =
     \<lparr> heartbeat_interval = from_secs 30,
       broadcast_capacity = 1024,
       max_connections = 1000,
       allowed_origins = [] \<rparr>"

definition config_new :: ws_config where
  "config_new = config_default"

definition builder_default :: ws_config_builder where
  "builder_default =
     (let d = config_default in
      \<lparr> b_heartbeat_interval = heartbeat_interval d,
        b_broadcast_capacity = broadcast_capacity d,
        b_max_connections = max_connections d,
        b_allowed_origins = allowed_origins d \<rparr>)"

definition config_builder :: ws_config_builder where
  "config_builder = builder_default"

definition set_heartbeat_interval :: "duration \<Rightarrow> ws_config_builder \<Rightarrow> ws_config_builder" where
  "set_heartbeat_interval v b = b\<lparr>b_heartbeat_interval := v\<rparr>"

definition set_broadcast_capacity :: "usize \<Rightarrow> ws_config_builder \<Rightarrow> ws_config_builder" where
  "set_broadcast_capacity v b = b\<lparr>b_broadcast_capacity := v\<rparr>"

definition set_max_connections :: "usize \<Rightarrow> ws_config_builder \<Rightarrow> ws_config_builder" where
  "set_max_connections v b = b\<lparr>b_max_connections := v\<rparr>"

definition set_allowed_origins :: "rstr list \<Rightarrow> ws_config_builder \<Rightarrow> ws_config_builder" where
  "set_allowed_origins os b = b\<lparr>b_allowed_origins := os\<rparr>"

definition allow_origin :: "rstr \<Rightarrow> ws_config_builder \<Rightarrow> ws_config_builder" where
  "allow_origin o' b = b\<lparr>b_allowed_origins := b_allowed_origins b @ [o']\<rparr>"

definition builder_build :: "ws_config_builder \<Rightarrow> ws_config" where
  "builder_build b =
     \<lparr> heartbeat_interval = b_heartbeat_interval b,
       broadcast_capacity = b_broadcast_capacity b,
       max_connections = b_max_connections b,
       allowed_origins = b_allowed_origins b \<rparr>"

section \<open>Chains of builder calls\<close>

datatype builder_call =
    HeartbeatInterval duration
  | BroadcastCapacity usize
  | MaxConnections usize
  | AllowedOrigins "rstr list"
  | AllowOrigin rstr

fun builder_step :: "builder_call \<Rightarrow> ws_config_builder \<Rightarrow> ws_config_builder" where
  "builder_step (HeartbeatInterval v) = set_heartbeat_interval v"
| "builder_step (BroadcastCapacity v) = set_broadcast_capacity v"
| "builder_step (MaxConnections v) = set_max_connections v"
| "builder_step (AllowedOrigins os) = set_allowed_origins os"
| "builder_step (AllowOrigin o') = allow_origin o'"

definition build_chain :: "builder_call list \<Rightarrow> ws_config" where
  "build_chain cs = builder_build (fold builder_step cs config_builder)"

text \<open>
  What a chain means, read from its end: the last value given to a setter, and the origins that
  were added after the last replacement of the list.
\<close>

fun last_capacity :: "usize \<Rightarrow> builder_call list \<Rightarrow> usize" where
  "last_capacity d [] = d"
| "last_capacity d (BroadcastCapacity v # cs) = last_capacity v cs"
| "last_capacity d (_ # cs) = last_capacity d cs"

fun last_max :: "usize \<Rightarrow> builder_call list \<Rightarrow> usize" where
  "last_max d [] = d"
| "last_max d (MaxConnections v # cs) = last_max v cs"
| "last_max d (_ # cs) = last_max d cs"

fun last_heartbeat :: "duration \<Rightarrow> builder_call list \<Rightarrow> duration" where
  "last_heartbeat d [] = d"
| "last_heartbeat d (HeartbeatInterval v # cs) = last_heartbeat v cs"
| "last_heartbeat d (_ # cs) = last_heartbeat d cs"

fun final_origins :: "rstr list \<Rightarrow> builder_call list \<Rightarrow> rstr list" where
  "final_origins os [] = os"
| "final_origins os (AllowedOrigins os' # cs) = final_origins os' cs"
| "final_origins os (AllowOrigin x # cs) = final_origins (os @ [x]) cs"
| "final_origins os (_ # cs) = final_origins os cs"

lemmas builder_defs = set_heartbeat_interval_def set_broadcast_capacity_def
  set_max_connections_def set_allowed_origins_def allow_origin_def

lemma fold_builder_step:
  "builder_build (fold builder_step cs b) =
     \<lparr> heartbeat_interval = last_heartbeat (b_heartbeat_interval b) cs,
       broadcast_capacity = last_capacity (b_broadcast_capacity b) cs,
       max_connections = last_max (b_max_connections b) cs,
       allowed_origins = final_origins (b_allowed_origins b) cs \<rparr>"
proof (induction cs arbitrary: b)
  case Nil
  show ?case by (simp add: builder_build_def)
next
  case (Cons c cs)
  show ?case by (cases c) (simp_all add: Cons builder_defs)
qed

lemma build_chain_fields:
  "broadcast_capacity (build_chain cs) = last_capacity 1024 cs"
  "max_connections (build_chain cs) = last_max 1000 cs"
  "allowed_origins (build_chain cs) = final_origins [] cs"
  by (simp_all add: build_chain_def fold_builder_step config_builder_def builder_default_def
      config_default_def Let_def)

text \<open>What a chain of builder calls builds: every scalar field has the value of the last call of
  its setter, or the default (30 s, 1024, 1000) without one, and the allowed origins are those added
  since the last replacement of the list.\<close>

lemma build_chain_meaning:
  "build_chain cs =
     \<lparr> heartbeat_interval = last_heartbeat (from_secs 30) cs,
       broadcast_capacity = last_capacity 1024 cs,
       max_connections = last_max 1000 cs,
       allowed_origins = final_origins [] cs \<rparr>"
  by (simp add: build_chain_def fold_builder_step config_builder_def builder_default_def
      config_default_def Let_def)

lemma build_default: "builder_build config_builder = config_default"
  by (simp add: builder_build_def config_builder_def builder_default_def config_default_def Let_def)

end
