(* ===== verification/Ws_Codec.thy ===== *)
theory Ws_Codec
  imports Ws_Error
begin

text \<open>
  \<open>src/codec.rs\<close>: the wire message \<open>Frame\<close> with its accessors and conversions, and the
  JSON codec. \<open>serde_json\<close> is not part of the crate: its serialiser and parser for the
  payload type are the arguments \<open>to_string\<close> and \<open>from_str\<close> of the codec's operations.
\<close>

datatype frame = Text rstr | Binary bytes

definition frame_binary :: "bytes \<Rightarrow> frame" where
  "frame_binary data = Binary data"

fun frame_len :: "frame \<Rightarrow> nat" where
  "frame_len (Text s) = byte_len s"
| "frame_len (Binary b) = length b"

definition frame_is_empty :: "frame \<Rightarrow> bool" where
  "frame_is_empty f \<longleftrightarrow> frame_len f = 0"

fun is_text :: "frame \<Rightarrow> bool" where
  "is_text (Text _) = True"
| "is_text (Binary _) = False"

fun is_binary :: "frame \<Rightarrow> bool" where
  "is_binary (Text _) = False"
| "is_binary (Binary _) = True"

fun as_bytes :: "frame \<Rightarrow> bytes" where
  "as_bytes (Text s) = str_bytes s"
| "as_bytes (Binary b) = b"

fun into_bytes :: "frame \<Rightarrow> bytes" where
  "into_bytes (Text s) = str_bytes s"
| "into_bytes (Binary b) = b"

fun into_text :: "frame \<Rightarrow> rstr res" where
  "into_text (Text s) = Inr s"
| "into_text (Binary _) = Inl InvalidMessage"

text \<open>The \<open>From\<close> conversions.\<close>

definition frame_from_string :: "rstr \<Rightarrow> frame" where
  "frame_from_string s = Text s"

definition frame_from_str :: "rstr \<Rightarrow> frame" where
  "frame_from_str s = Text s"

definition frame_from_bytes :: "bytes \<Rightarrow> frame" where
  "frame_from_bytes b = Binary b"

definition frame_from_vec :: "bytes \<Rightarrow> frame" where
  "frame_from_vec v = Binary v"

definition frame_from_slice :: "bytes \<Rightarrow> frame" where
  "frame_from_slice v = Binary v"

lemma frame_len_bytes: "frame_len f = length (as_bytes f)"
  by (cases f) (simp_all add: byte_len_def)

lemma into_bytes_eq: "into_bytes f = as_bytes f"
  by (cases f) simp_all

lemma is_binary_not_text: "is_binary f \<longleftrightarrow> \<not> is_text f"
  by (cases f) simp_all

text \<open>
  The payload bytes and the kind determine the frame, and the bytes of a text frame are always
  valid UTF-8 that decodes to the frame's text.
\<close>

lemma text_bytes_decode: "is_text f \<Longrightarrow> \<exists>s. f = Text s \<and> from_utf8 (as_bytes f) = Some s"
  by (cases f) simp_all

lemma frame_eq_iff: "f = g \<longleftrightarrow> is_text f = is_text g \<and> as_bytes f = as_bytes g"
  by (cases f; cases g) (auto simp: str_bytes_inject)

lemma into_text_Inr: "into_text f = Inr s \<longleftrightarrow> f = Text s"
  by (cases f) auto

lemma into_text_Inl: "into_text f = Inl e \<longleftrightarrow> is_binary f \<and> e = InvalidMessage"
  by (cases f) auto

section \<open>JSON codec\<close>

definition codec_encode :: "('a \<Rightarrow> 'e + rstr) \<Rightarrow> 'a \<Rightarrow> rstr" where
  "codec_encode to_string v = (case to_string v of Inr s \<Rightarrow> s | Inl _ \<Rightarrow> [])"

definition codec_encode_result :: "('a \<Rightarrow> 'e + rstr) \<Rightarrow> 'a \<Rightarrow> rstr res" where
  "codec_encode_result to_string v =
     (case to_string v of Inr s \<Rightarrow> Inr s | Inl _ \<Rightarrow> Inl InvalidMessage)"

definition codec_decode :: "(rstr \<Rightarrow> 'e + 'a) \<Rightarrow> rstr \<Rightarrow> 'a res" where
  "codec_decode from_str s =
     (case from_str s of Inr v \<Rightarrow> Inr v | Inl _ \<Rightarrow> Inl InvalidMessage)"

definition json_encode :: "('a \<Rightarrow> 'e + rstr) \<Rightarrow> 'a \<Rightarrow> rstr res" where
  "json_encode to_string v =
     (case to_string v of Inr s \<Rightarrow> Inr s | Inl _ \<Rightarrow> Inl InvalidMessage)"

definition json_decode :: "(rstr \<Rightarrow> 'e + 'a) \<Rightarrow> rstr \<Rightarrow> 'a res" where
  "json_decode from_str s =
     (case from_str s of Inr v \<Rightarrow> Inr v | Inl _ \<Rightarrow> Inl InvalidMessage)"

definition json_encode_pretty :: "('a \<Rightarrow> 'e + rstr) \<Rightarrow> 'a \<Rightarrow> rstr res" where
  "json_encode_pretty to_string_pretty v =
     (case to_string_pretty v of Inr s \<Rightarrow> Inr s | Inl _ \<Rightarrow> Inl InvalidMessage)"

lemma codec_is_json:
  "codec_encode_result to_string v = json_encode to_string v"
  "codec_decode from_str s = json_decode from_str s"
  by (simp_all add: codec_encode_result_def json_encode_def codec_decode_def json_decode_def)

lemma codec_errors:
  "codec_encode_result to_string v = Inl e \<Longrightarrow> e = InvalidMessage \<and> codec_encode to_string v = []"
  "codec_decode from_str s = Inl e \<Longrightarrow> e = InvalidMessage"
  by (auto simp: codec_encode_result_def codec_encode_def codec_decode_def split: sum.splits)

section \<open>Properties\<close>

text \<open>A frame is determined by its kind and its payload bytes; the length and the emptiness it
  reports are those of the bytes it sends; \<open>into_text\<close> succeeds exactly on text frames, with the
  text its bytes decode to.\<close>

lemma frame_payload:
    "(f = g \<longleftrightarrow> is_text f = is_text g \<and> into_bytes f = into_bytes g) \<and>
     (frame_len f = length (as_bytes f)) \<and>
     (frame_is_empty f \<longleftrightarrow> into_bytes f = []) \<and>
     (into_text f = Inr s \<longleftrightarrow> is_text f \<and> from_utf8 (as_bytes f) = Some s) \<and>
     (into_text f = Inl e \<longleftrightarrow> is_binary f \<and> e = InvalidMessage)"
  by (cases f; cases g) (auto simp: str_bytes_inject byte_len_def frame_is_empty_def)

end
