(* ===== verification/Ws_Origin.thy ===== *)
theory Ws_Origin
  imports Ws_Error
begin

text \<open>
  \<open>src/origin.rs\<close>: Origin validation of the WebSocket upgrade. The definitions follow the
  code on strings; \<open>origin_key\<close> is the abstract view the comparison implements, a scheme, a host
  and the port that counts.

  \<open>http::request::Parts\<close> is not part of the crate: the lookup of a header by its
  lower-case name and \<open>HeaderValue::to_str\<close> are arguments of \<open>origin_allowed_in_parts\<close>.
\<close>

definition scheme_sep :: rstr where
  "scheme_sep = lit ''://''"

text \<open>\<open>host[:port]\<close> with bracketed IPv6 hosts.\<close>

definition split_authority :: "rstr \<Rightarrow> rstr \<times> rstr option" where
  "split_authority authority =
     (if prefix (lit ''['') authority then
        (case split_once_ch (uchr 93) authority of
           Some (before, after) \<Rightarrow>
             (case strip_prefix (lit '':'') after of
                Some port \<Rightarrow> (before @ lit '']'', Some port)
              | None \<Rightarrow> (authority, None))
         | None \<Rightarrow> (authority, None))
      else
        (case split_once_ch (uchr 58) authority of
           Some (host, port) \<Rightarrow> (host, Some port)
         | None \<Rightarrow> (authority, None)))"

definition is_default_port :: "rstr \<Rightarrow> rstr \<Rightarrow> bool" where
  "is_default_port scheme port =
     (case parse_u16 port of
        Some p \<Rightarrow>
          (scheme = lit ''http'' \<and> p = 80) \<or> (scheme = lit ''https'' \<and> p = 443) \<or>
          (scheme = lit ''ws'' \<and> p = 80) \<or> (scheme = lit ''wss'' \<and> p = 443)
      | None \<Rightarrow> False)"

definition normalize_origin :: "rstr \<Rightarrow> rstr" where
  "normalize_origin origin0 =
     (let origin = trim origin0 in
      case split_once_str scheme_sep origin of
        None \<Rightarrow> to_ascii_lowercase origin
      | Some (scheme0, authority) \<Rightarrow>
          let scheme = to_ascii_lowercase scheme0;
              (host, port) = split_authority authority;
              out = scheme @ scheme_sep @ to_ascii_lowercase host
          in case port of
               Some p \<Rightarrow> if p \<noteq> [] \<and> \<not> is_default_port scheme p then out @ lit '':'' @ p else out
             | None \<Rightarrow> out)"

definition origin_allowed :: "rstr option \<Rightarrow> rstr list \<Rightarrow> bool" where
  "origin_allowed origin allowed =
     (if allowed = [] then True
      else case origin of
        None \<Rightarrow> False
      | Some o' \<Rightarrow>
          let normalized = normalize_origin o' in
          list_ex (\<lambda>entry. normalize_origin entry = normalized) allowed)"

definition origin_allowed_in_parts ::
  "(rstr \<Rightarrow> 'hv option) \<Rightarrow> ('hv \<Rightarrow> rstr option) \<Rightarrow> rstr list \<Rightarrow> bool" where
  "origin_allowed_in_parts header to_str allowed =
     origin_allowed (Option.bind (header (lit ''origin'')) to_str) allowed"

section \<open>The abstract view: scheme, host and significant port\<close>

datatype origin_key = Opaque rstr | Tuple (key_scheme: rstr) (key_host: rstr) (key_port: "rstr option")

text \<open>The port a URL of the scheme has when it names none (RFC 6454, RFC 6455), and the port that
  counts: none when it is absent, empty or, as a number, the scheme's default.\<close>

definition scheme_port :: "rstr \<Rightarrow> int option" where
  "scheme_port scheme =
     (if scheme = lit ''http'' \<or> scheme = lit ''ws'' then Some 80
      else if scheme = lit ''https'' \<or> scheme = lit ''wss'' then Some 443
      else None)"

definition effective_port :: "rstr \<Rightarrow> rstr option \<Rightarrow> rstr option" where
  "effective_port scheme port =
     (case port of
        Some p \<Rightarrow>
          if p = [] \<or> (scheme_port scheme \<noteq> None \<and> parse_u16 p = scheme_port scheme) then None else Some p
      | None \<Rightarrow> None)"

lemma is_default_port_scheme:
  "is_default_port scheme p \<longleftrightarrow> scheme_port scheme \<noteq> None \<and> parse_u16 p = scheme_port scheme"
  by (auto simp: is_default_port_def scheme_port_def uchr_inject split: option.split)

definition read_key :: "rstr \<Rightarrow> origin_key" where
  "read_key s =
     (case split_once_str scheme_sep s of
        None \<Rightarrow> Opaque (to_ascii_lowercase s)
      | Some (scheme, authority) \<Rightarrow>
          (case split_authority authority of (host, port) \<Rightarrow>
             Tuple (to_ascii_lowercase scheme) (to_ascii_lowercase host)
               (effective_port (to_ascii_lowercase scheme) port)))"

definition origin_key :: "rstr \<Rightarrow> origin_key" where
  "origin_key s = read_key (trim s)"

definition render_authority :: "rstr \<Rightarrow> rstr option \<Rightarrow> rstr" where
  "render_authority host port = host @ (case port of Some p \<Rightarrow> lit '':'' @ p | None \<Rightarrow> [])"

primrec render_key :: "origin_key \<Rightarrow> rstr" where
  "render_key (Opaque t) = t"
| "render_key (Tuple scheme host port) = scheme @ scheme_sep @ render_authority host port"

lemma normalize_origin_key: "normalize_origin s = render_key (origin_key s)"
  by (auto simp: normalize_origin_def origin_key_def read_key_def effective_port_def render_authority_def Let_def
      is_default_port_scheme
      split: option.splits prod.splits)

section \<open>Reading a rendered key back\<close>

lemma caseless_sep [simp]: "\<forall>c\<in>set scheme_sep. caseless c"
  by (simp add: scheme_sep_def caseless_def)

lemma caseless_punct [simp]: "caseless (uchr 58)" "caseless (uchr 91)" "caseless (uchr 93)"
  by (simp_all add: caseless_def)

lemma lower_sep [simp]: "to_ascii_lowercase scheme_sep = scheme_sep"
  by (simp add: scheme_sep_def caseless_fixed caseless_def)

lemma split_authority_lowercase:
  "split_authority (to_ascii_lowercase a) =
     map_prod to_ascii_lowercase (map_option to_ascii_lowercase) (split_authority a)"
  by (auto simp: split_authority_def prefix_lowercase split_once_ch_lowercase
      strip_prefix_lowercase caseless_fixed split: option.splits
      simp flip: prefix_Cons)

text \<open>
  Splitting a rendered authority gives its host and port back, whether the port was kept or left
  out.
\<close>

lemma split_authority_render:
  assumes "split_authority a = (h, p)" "q = p \<or> q = None"
  shows "split_authority (render_authority (to_ascii_lowercase h) q) = (to_ascii_lowercase h, q)"
proof (cases p)
  case None
  with assms have "render_authority (to_ascii_lowercase h) q = to_ascii_lowercase a" "h = a" "q = None"
    by (auto simp: split_authority_def render_authority_def split: if_splits option.splits)
  with assms None show ?thesis
    by (simp add: split_authority_lowercase)
next
  case (Some port)
  show ?thesis
  proof (cases "prefix (lit ''['') a")
    case True
    with assms(1) Some obtain bf where h: "h = bf @ lit '']''" "a = bf @ uchr 93 # lit '':'' @ port"
      "uchr 93 \<notin> set bf"
      by (auto simp: split_authority_def split_once_ch_Some strip_prefix_Some split: option.splits)
    with True have pre: "prefix (lit ''['') (to_ascii_lowercase bf @ t)" for t
      by (cases bf) (auto simp: uchr_inject caseless_fixed)
    have "uchr 93 \<notin> set (to_ascii_lowercase bf)"
      using h(3) by (simp add: in_lowercase_iff)
    with h assms(2) Some pre show ?thesis
      by (auto simp: split_authority_def render_authority_def caseless_fixed strip_prefix_Some
          strip_prefix_def split: option.splits)
  next
    case False
    with assms(1) Some have h: "uchr 58 \<notin> set h" "a = h @ uchr 58 # port"
      by (auto simp: split_authority_def split_once_ch_Some split: option.splits)
    with False have "\<not> prefix (lit ''['') (to_ascii_lowercase h @ lit '':'' @ t)"
      "\<not> prefix (lit ''['') (to_ascii_lowercase h)" for t
      using prefix_lowercase [of "lit ''[''" h] by (cases h; simp add: uchr_inject)+
    moreover have "uchr 58 \<notin> set (to_ascii_lowercase h)"
      using h(1) by (simp add: in_lowercase_iff)
    ultimately show ?thesis
      using assms(2) Some by (auto simp: split_authority_def render_authority_def)
  qed
qed

lemma effective_port_idem [simp]:
  "effective_port s (effective_port s p) = effective_port s p"
  by (auto simp: effective_port_def split: option.splits)

lemma effective_port_sub: "effective_port s p = p \<or> effective_port s p = None"
  by (auto simp: effective_port_def split: option.splits)

lemma read_render_key: "read_key (render_key (read_key t)) = read_key t"
proof (cases "split_once_str scheme_sep t")
  case None
  then show ?thesis
    by (simp add: read_key_def split_once_str_lowercase)
next
  case (Some sa)
  then obtain sch auth where sa: "split_once_str scheme_sep t = Some (sch, auth)"
    by (cases sa) auto
  obtain h p where hp: "split_authority auth = (h, p)"
    by (cases "split_authority auth") auto
  let ?s = "to_ascii_lowercase sch" and ?q = "effective_port (to_ascii_lowercase sch) p"
  have "split_once_str scheme_sep (to_ascii_lowercase t) = Some (?s, to_ascii_lowercase auth)"
    using sa by (simp add: split_once_str_lowercase)
  moreover from this have "to_ascii_lowercase t = ?s @ scheme_sep @ to_ascii_lowercase auth"
    by (rule split_once_str_Some)
  ultimately have "split_once_str scheme_sep (?s @ scheme_sep @ render_authority (to_ascii_lowercase h) ?q)
      = Some (?s, render_authority (to_ascii_lowercase h) ?q)"
    by (metis split_once_str_cong)
  moreover have "split_authority (render_authority (to_ascii_lowercase h) ?q) = (to_ascii_lowercase h, ?q)"
    using hp effective_port_sub by (rule split_authority_render)
  ultimately show ?thesis
    using sa hp by (simp add: read_key_def)
qed

lemma read_normalize: "read_key (normalize_origin s) = origin_key s"
  by (simp add: normalize_origin_key origin_key_def read_render_key)

lemma normalize_eq_iff: "normalize_origin a = normalize_origin b \<longleftrightarrow> origin_key a = origin_key b"
  by (metis normalize_origin_key read_normalize)

lemma origin_key_normalize:
  "trimmed (normalize_origin s) \<Longrightarrow> origin_key (normalize_origin s) = origin_key s"
  by (simp add: origin_key_def trim_id) (simp add: read_normalize flip: origin_key_def)

section \<open>Web origins\<close>

text \<open>
  The origins browsers send: a scheme, a host without brackets and an optional port, none of them
  with white space, and no colon in scheme or host.
\<close>

definition web_origin :: "rstr \<Rightarrow> rstr \<Rightarrow> rstr option \<Rightarrow> rstr" where
  "web_origin scheme host port = scheme @ scheme_sep @ render_authority host port"

definition plain_part :: "rstr \<Rightarrow> bool" where
  "plain_part s \<longleftrightarrow> list_all (\<lambda>c. \<not> is_white c \<and> c \<noteq> uchr 58 \<and> c \<noteq> uchr 91) s"

lemma plain_partD:
  "plain_part s \<Longrightarrow> uchr 58 \<notin> set s" "plain_part s \<Longrightarrow> uchr 91 \<notin> set s"
  "plain_part s \<Longrightarrow> c \<in> set s \<Longrightarrow> \<not> is_white c"
  by (auto simp: plain_part_def list_all_iff)

lemma trimmed_if_no_white: "list_all (\<lambda>c. \<not> is_white c) s \<Longrightarrow> trimmed s"
  by (cases "s = []") (auto simp: trimmed_def list_all_iff)

lemma plain_part_no_white: "plain_part s \<Longrightarrow> list_all (\<lambda>c. \<not> is_white c) s"
  by (simp add: plain_part_def list_all_iff)

lemma no_white_punct:
  "list_all (\<lambda>c. \<not> is_white c) scheme_sep" "\<not> is_white (uchr 58)"
  by (simp_all add: scheme_sep_def is_white_def)

lemma origin_key_web:
  assumes "plain_part scheme" "plain_part host" "case port of None \<Rightarrow> True | Some p \<Rightarrow> plain_part p"
  shows "origin_key (web_origin scheme host port) =
    Tuple (to_ascii_lowercase scheme) (to_ascii_lowercase host)
      (effective_port (to_ascii_lowercase scheme) port)"
proof -
  have "list_all (\<lambda>c. \<not> is_white c) (web_origin scheme host port)"
    using assms no_white_punct
    by (simp add: web_origin_def render_authority_def plain_part_no_white split: option.splits)
  then have "trim (web_origin scheme host port) = web_origin scheme host port"
    by (intro trim_id trimmed_if_no_white)
  moreover have "split_once_str scheme_sep (web_origin scheme host port)
      = Some (scheme, render_authority host port)"
    using split_once_str_first [of scheme_sep "uchr 58" "[uchr 47, uchr 47]" scheme]
      plain_partD(1) [OF assms(1)]
    by (simp add: web_origin_def scheme_sep_def)
  moreover have "\<not> prefix (lit ''['') (render_authority host port)"
    using plain_partD(2) [OF assms(2)]
    by (cases host) (auto simp: render_authority_def uchr_inject split: option.splits)
  then have "split_authority (render_authority host port) = (host, port)"
    using plain_partD(1) [OF assms(2)]
    by (auto simp: split_authority_def render_authority_def split: option.splits)
  ultimately show ?thesis
    by (simp add: origin_key_def read_key_def)
qed

section \<open>Properties\<close>

text \<open>C6 (REQ-WSKIT-200/201). The decision refines the abstract one: an empty allow-list admits
  every request; a non-empty one admits a request exactly when it has an Origin whose scheme,
  host and significant port are those of an entry, so a missing Origin is refused and no
  suffix, prefix or wildcard of an entry matches.\<close>

theorem origin_allowed_iff:
  "origin_allowed origin allowed \<longleftrightarrow>
     allowed = [] \<or> (\<exists>o' entry. origin = Some o' \<and> entry \<in> set allowed \<and> origin_key entry = origin_key o')"
  by (auto simp: origin_allowed_def Let_def list_ex_iff normalize_eq_iff split: option.splits)

text \<open>C32. For origins as browsers send them, an allow-list entry accepts exactly the origins
  with the same scheme and host up to ASCII case and the same port once default ports are left out:
  neither a longer host, nor a subdomain, nor another port or scheme is accepted.\<close>

theorem web_origin_allowed_iff:
  assumes "plain_part scheme" "plain_part host" "case port of None \<Rightarrow> True | Some p \<Rightarrow> plain_part p"
    and "plain_part scheme'" "plain_part host'" "case port' of None \<Rightarrow> True | Some p \<Rightarrow> plain_part p"
  shows "origin_allowed (Some (web_origin scheme host port)) [web_origin scheme' host' port'] \<longleftrightarrow>
    eq_ignore_ascii_case scheme scheme' \<and> eq_ignore_ascii_case host host' \<and>
    effective_port (to_ascii_lowercase scheme) port = effective_port (to_ascii_lowercase scheme') port'"
  using assms by (auto simp: origin_allowed_def Let_def normalize_eq_iff origin_key_web
      eq_ignore_ascii_case_def)

theorem web_origin_allowed_iff_witness:
  "\<not> origin_allowed (Some (web_origin (lit ''https'') (lit ''example.com.evil.com'') None))
       [web_origin (lit ''HTTPS'') (lit ''example.com'') (Some (lit ''443''))] \<and>
   origin_allowed (Some (web_origin (lit ''https'') (lit ''EXAMPLE.com'') None))
       [web_origin (lit ''HTTPS'') (lit ''example.com'') (Some (lit ''443''))]"
proof
  show "\<not> origin_allowed (Some (web_origin (lit ''https'') (lit ''example.com.evil.com'') None))
       [web_origin (lit ''HTTPS'') (lit ''example.com'') (Some (lit ''443''))]"
    by (subst web_origin_allowed_iff) code_simp+
  show "origin_allowed (Some (web_origin (lit ''https'') (lit ''EXAMPLE.com'') None))
       [web_origin (lit ''HTTPS'') (lit ''example.com'') (Some (lit ''443''))]"
    by (subst web_origin_allowed_iff) code_simp+
qed

text \<open>Normalising twice changes nothing as long as the first result has no white space
  at its ends (leaving out a default port can expose a blank before it, as in
  \<open>https://example.com :443\<close>, and the trim of the second pass would then remove it).\<close>

lemma normalize_origin_idem:
  assumes "trimmed (normalize_origin s)"
  shows "normalize_origin (normalize_origin s) = normalize_origin s"
  using assms by (simp add: normalize_eq_iff origin_key_normalize)

lemma normalize_origin_idem_witness:
  "normalize_origin (normalize_origin (lit '' HTTPS://[2001:DB8::1]:443 '')) = lit ''https://[2001:db8::1]''"
proof -
  have n: "normalize_origin (lit '' HTTPS://[2001:DB8::1]:443 '') = lit ''https://[2001:db8::1]''"
    by code_simp
  have "trimmed (normalize_origin (lit '' HTTPS://[2001:DB8::1]:443 ''))"
    unfolding n by code_simp
  from normalize_origin_idem [OF this] show ?thesis
    by (simp only: n)
qed

text \<open>The check reads the \<open>Origin\<close> header and nothing else of the request: with a
  non-empty list, a request without that header, or with one that is no visible text, is refused
  whatever its other headers say.\<close>

lemma origin_header_required:
  assumes "allowed \<noteq> []" "Option.bind (header (lit ''origin'')) to_str = None"
  shows "\<not> origin_allowed_in_parts header to_str allowed"
  using assms by (simp add: origin_allowed_in_parts_def origin_allowed_def)

lemma origin_header_required_witness:
  "\<not> origin_allowed_in_parts (\<lambda>n. if n = lit ''host'' then Some (lit ''example.com'') else None) Some
      [lit ''https://example.com'']"
proof -
  have "[lit ''https://example.com''] \<noteq> []"
    by simp
  moreover have "Option.bind ((\<lambda>n. if n = lit ''host'' then Some (lit ''example.com'') else None)
      (lit ''origin'')) Some = None"
    by code_simp
  ultimately show ?thesis
    by (rule origin_header_required)
qed

end
