(* ===== verification/Ws_Extractor.thy ===== *)
theory Ws_Extractor
  imports Ws_Error
begin

text \<open>
  \<open>src/extractor.rs\<close>: token extraction from the upgrade request. \<open>parse_bearer\<close> slices a
  string at a byte offset and could panic there, so its result and that of the functions that call
  it are wrapped in \<open>run\<close>; the theorems show that the panic never happens.

  \<open>http::request::Parts\<close> is not part of the crate: the header lookup and
  \<open>HeaderValue::to_str\<close> are arguments of the functions that take it.
\<close>

datatype token_source_kind = AuthorizationHeader | QueryParam rstr | Cookie rstr

datatype ws_auth_error = Missing | Invalid | Expired

record token_extractor =
  sources :: "token_source_kind list"

definition extractor_default :: token_extractor where
  "extractor_default =
     \<lparr> sources = [AuthorizationHeader, QueryParam (lit ''token''), QueryParam (lit ''access_token'')] \<rparr>"

definition extractor_new :: "token_source_kind list \<Rightarrow> token_extractor" where
  "extractor_new srcs = \<lparr> sources = srcs \<rparr>"

definition bearer_only :: token_extractor where
  "bearer_only = \<lparr> sources = [AuthorizationHeader] \<rparr>"

definition with_source :: "token_source_kind \<Rightarrow> token_extractor \<Rightarrow> token_extractor" where
  "with_source src ex = ex\<lparr>sources := sources ex @ [src]\<rparr>"

section \<open>URL decoding\<close>

definition hex_val :: "uchar \<Rightarrow> u8 option" where
  "hex_val c =
     (let n = codept c in
      if 48 \<le> n \<and> n \<le> 57 then Some (word_of_int n - 48)
      else if 97 \<le> n \<and> n \<le> 102 then Some (word_of_int n - 97 + 10)
      else if 65 \<le> n \<and> n \<le> 70 then Some (word_of_int n - 65 + 10)
      else None)"

text \<open>
  A percent sign consumes the next two characters whatever they are; two hexadecimal digits become
  the character with that code, anything else is copied.
\<close>

fun url_decode :: "rstr \<Rightarrow> rstr" where
  "url_decode [] = []"
| "url_decode (c # cs) =
    (if c = uchr 43 then uchr 32 # url_decode cs
     else if c = uchr 37 then
       (case cs of
          h # l # r \<Rightarrow>
            (case (hex_val h, hex_val l) of
               (Some hv, Some lv) \<Rightarrow> uchr (uint (hv * 16 + lv)) # url_decode r
             | _ \<Rightarrow> uchr 37 # h # l # url_decode r)
        | _ \<Rightarrow> uchr 37 # cs)
     else c # url_decode cs)"

section \<open>The three sources\<close>

definition parse_bearer :: "rstr \<Rightarrow> rstr option run" where
  "parse_bearer s =
     (let bs = str_bytes s in
      if length bs < 7 then Some None
      else if \<not> bytes_eq_ignore_ascii_case (take 7 bs) (str_bytes (lit ''bearer '')) then Some None
      else if \<not> is_char_boundary 7 s then Some None
      else case slice_from 7 s of
             None \<Rightarrow> None
           | Some rest \<Rightarrow>
               let token = trim rest in
               if token = [] then Some None else Some (Some token))"

definition query_pair :: "rstr \<Rightarrow> rstr \<Rightarrow> rstr option" where
  "query_pair name pair =
     (if pair = [] then None
      else
        let parts = splitn2 (uchr 61) pair;
            k = (case parts of p # _ \<Rightarrow> p | [] \<Rightarrow> []);
            v = (case parts of _ # p # _ \<Rightarrow> p | _ \<Rightarrow> [])
        in if url_decode k = name \<and> url_decode v \<noteq> [] then Some (url_decode v) else None)"

definition extract_query_param :: "rstr \<Rightarrow> rstr \<Rightarrow> rstr option" where
  "extract_query_param query0 name =
     (let query = trim_start_matches (uchr 63) query0 in
      if query = [] then None
      else first_some (query_pair name) (split_on (uchr 38) query))"

definition cookie_part :: "rstr \<Rightarrow> rstr \<Rightarrow> rstr option" where
  "cookie_part name part0 =
     (let part = trim part0;
          parts = splitn2 (uchr 61) part;
          k = trim (case parts of p # _ \<Rightarrow> p | [] \<Rightarrow> []);
          v = trim_matches (uchr 34) (trim (case parts of _ # p # _ \<Rightarrow> p | _ \<Rightarrow> []))
      in if k = name \<and> v \<noteq> [] then Some (url_decode v) else None)"

definition parse_cookie :: "rstr \<Rightarrow> rstr \<Rightarrow> rstr option" where
  "parse_cookie header name = first_some (cookie_part name) (split_on (uchr 59) header)"

section \<open>Extraction\<close>

fun scan_sources ::
  "rstr option \<Rightarrow> rstr option \<Rightarrow> rstr \<Rightarrow> token_source_kind list \<Rightarrow> rstr option run" where
  "scan_sources auth cookie query [] = Some None"
| "scan_sources auth cookie query (AuthorizationHeader # srcs) =
    (case auth of
       None \<Rightarrow> scan_sources auth cookie query srcs
     | Some h \<Rightarrow>
         (case parse_bearer h of
            None \<Rightarrow> None
          | Some None \<Rightarrow> scan_sources auth cookie query srcs
          | Some (Some v) \<Rightarrow>
              if v \<noteq> [] then Some (Some v) else scan_sources auth cookie query srcs))"
| "scan_sources auth cookie query (QueryParam name # srcs) =
    (case extract_query_param query name of
       Some v \<Rightarrow> Some (Some v)
     | None \<Rightarrow> scan_sources auth cookie query srcs)"
| "scan_sources auth cookie query (Cookie name # srcs) =
    (case Option.bind cookie (\<lambda>c. parse_cookie c name) of
       Some v \<Rightarrow> Some (Some v)
     | None \<Rightarrow> scan_sources auth cookie query srcs)"

definition extract_from_parts ::
  "token_extractor \<Rightarrow> rstr option \<Rightarrow> rstr option \<Rightarrow> rstr \<Rightarrow> rstr option run" where
  "extract_from_parts ex auth cookie query = scan_sources auth cookie query (sources ex)"

definition extract_bearer ::
  "(rstr \<Rightarrow> 'hv option) \<Rightarrow> ('hv \<Rightarrow> rstr option) \<Rightarrow> rstr option run" where
  "extract_bearer header to_str =
     (case header (lit ''authorization'') of
        None \<Rightarrow> Some None
      | Some hv \<Rightarrow> (case to_str hv of None \<Rightarrow> Some None | Some s \<Rightarrow> parse_bearer s))"

definition extract_cookie ::
  "(rstr \<Rightarrow> 'hv option) \<Rightarrow> ('hv \<Rightarrow> rstr option) \<Rightarrow> rstr \<Rightarrow> rstr option" where
  "extract_cookie header to_str name =
     (case header (lit ''cookie'') of
        None \<Rightarrow> None
      | Some hv \<Rightarrow> (case to_str hv of None \<Rightarrow> None | Some s \<Rightarrow> parse_cookie s name))"

fun scan_parts ::
  "(rstr \<Rightarrow> 'hv option) \<Rightarrow> ('hv \<Rightarrow> rstr option) \<Rightarrow> rstr \<Rightarrow> token_source_kind list \<Rightarrow> rstr option run" where
  "scan_parts header to_str query [] = Some None"
| "scan_parts header to_str query (AuthorizationHeader # srcs) =
    (case extract_bearer header to_str of
       None \<Rightarrow> None
     | Some (Some v) \<Rightarrow> Some (Some v)
     | Some None \<Rightarrow> scan_parts header to_str query srcs)"
| "scan_parts header to_str query (QueryParam name # srcs) =
    (case extract_query_param query name of
       Some v \<Rightarrow> Some (Some v)
     | None \<Rightarrow> scan_parts header to_str query srcs)"
| "scan_parts header to_str query (Cookie name # srcs) =
    (case extract_cookie header to_str name of
       Some v \<Rightarrow> Some (Some v)
     | None \<Rightarrow> scan_parts header to_str query srcs)"

definition extract_token ::
  "token_extractor \<Rightarrow> (rstr \<Rightarrow> 'hv option) \<Rightarrow> ('hv \<Rightarrow> rstr option) \<Rightarrow> rstr \<Rightarrow> rstr option run" where
  "extract_token ex header to_str query = scan_parts header to_str query (sources ex)"

definition require_token ::
  "token_extractor \<Rightarrow> (rstr \<Rightarrow> 'hv option) \<Rightarrow> ('hv \<Rightarrow> rstr option) \<Rightarrow> rstr \<Rightarrow> (ws_auth_error + rstr) run" where
  "require_token ex header to_str query =
     map_option (\<lambda>t. case t of Some v \<Rightarrow> Inr v | None \<Rightarrow> Inl Missing)
       (extract_token ex header to_str query)"

section \<open>The bearer prefix: bytes against characters\<close>

lemma str_bytes_Cons: "str_bytes (c # s) = map word_of_int (utf8_char c) @ str_bytes s"
  by (simp add: str_bytes_def)

lemma utf8_char_ascii: "codept c < 0x80 \<Longrightarrow> utf8_char c = [codept c]"
  by (simp add: utf8_char_def)

lemma utf8_char_lead:
  assumes "utf8_char c = b # bs" "b < 0x80"
  shows "codept c < 0x80"
  using assms codept_range [of c] by (auto simp: utf8_char_def Let_def split: if_splits)

definition ascii_str :: "rstr \<Rightarrow> bool" where
  "ascii_str s \<longleftrightarrow> list_all (\<lambda>c. codept c < 0x80) s"

lemma byte_lower_ascii:
  "0 \<le> n \<Longrightarrow> n < 0x80 \<Longrightarrow>
   byte_lower (word_of_int n) = word_of_int (if 65 \<le> n \<and> n \<le> 90 then n + 32 else n)"
  by (auto simp: byte_lower_def word_le_def uint_word_of_int)

lemma byte_lower_ge:
  "0x80 \<le> n \<Longrightarrow> n < 0x100 \<Longrightarrow> byte_lower (word_of_int n) = word_of_int n"
  by (auto simp: byte_lower_def word_le_def uint_word_of_int)

lemma word8_inject:
  "0 \<le> m \<Longrightarrow> m < 256 \<Longrightarrow> 0 \<le> n \<Longrightarrow> n < 256 \<Longrightarrow>
   (word_of_int m :: u8) = word_of_int n \<longleftrightarrow> m = n"
  by (auto dest: arg_cong [where f = uint] simp: uint_word_of_int)

lemma byte_lower_char:
  assumes "utf8_char c = b # bs" "codept x < 0x80"
    and "byte_lower (word_of_int b) = byte_lower (word_of_int (codept x))"
  shows "codept c < 0x80 \<and> bs = [] \<and> ascii_lower c = ascii_lower x"
proof -
  have b: "0 \<le> b" "b < 256"
    using utf8_char_bytes [of b c] assms(1) by auto
  have x: "0 \<le> codept x" by (rule codept_range)
  have "b < 0x80"
  proof (rule ccontr)
    assume "\<not> b < 0x80"
    with b assms x have "(word_of_int b :: u8) =
        word_of_int (if 65 \<le> codept x \<and> codept x \<le> 90 then codept x + 32 else codept x)"
      by (simp only: byte_lower_ge byte_lower_ascii not_less)
    with b x assms(2) \<open>\<not> b < 0x80\<close> show False
      by (subst (asm) word8_inject) (auto split: if_splits)
  qed
  with assms(1) have c: "codept c < 0x80"
    by (rule utf8_char_lead)
  with assms(1) have bs: "b = codept c" "bs = []"
    by (simp_all add: utf8_char_ascii)
  with assms(2,3) c x codept_range(1) [of c]
  have "(if 65 \<le> codept c \<and> codept c \<le> 90 then codept c + 32 else codept c) =
        (if 65 \<le> codept x \<and> codept x \<le> 90 then codept x + 32 else codept x)"
    unfolding bs(1) by (subst (asm) (1 2) byte_lower_ascii) (auto simp: word8_inject)
  then have "ascii_lower c = ascii_lower x"
    by (simp add: codept_inject [symmetric] codept_ascii_lower)
  with c bs show ?thesis by simp
qed

lemma ascii_prefix:
  assumes "bytes_eq_ignore_ascii_case (take (length p) (str_bytes s)) (str_bytes p)" "ascii_str p"
  shows "\<exists>u t. s = u @ t \<and> byte_len u = length p \<and> eq_ignore_ascii_case u p"
  using assms
proof (induction p arbitrary: s)
  case Nil
  then show ?case
    by (intro exI [of _ "[]"] exI [of _ s]) (simp add: eq_ignore_ascii_case_def)
next
  case (Cons x p)
  have x: "codept x < 0x80" and p: "ascii_str p"
    using Cons.prems(2) by (simp_all add: ascii_str_def)
  have xb: "str_bytes (x # p) = word_of_int (codept x) # str_bytes p"
    using x by (simp add: str_bytes_Cons utf8_char_ascii)
  obtain c s' where s: "s = c # s'"
    using Cons.prems(1) by (cases s) (auto simp: xb bytes_eq_ignore_ascii_case_def)
  obtain b bs where b: "utf8_char c = b # bs"
    using utf8_char_nonempty [of c] by (cases "utf8_char c") auto
  have low: "byte_lower (word_of_int b) = byte_lower (word_of_int (codept x))"
    using Cons.prems(1) by (simp add: s b str_bytes_Cons utf8_char_ascii [OF x] bytes_eq_ignore_ascii_case_def)
  have c: "codept c < 0x80" "bs = []" "ascii_lower c = ascii_lower x"
    using byte_lower_char [OF b x low] by simp_all
  have "bytes_eq_ignore_ascii_case (take (length p) (str_bytes s')) (str_bytes p)"
    using Cons.prems(1) c by (simp add: s b str_bytes_Cons utf8_char_ascii [OF x] bytes_eq_ignore_ascii_case_def)
  then obtain u t where "s' = u @ t" "byte_len u = length p" "eq_ignore_ascii_case u p"
    using Cons.IH p by blast
  with c show ?case
    by (intro exI [of _ "c # u"] exI [of _ t])
      (simp add: s eq_ignore_ascii_case_def char_len_def utf8_char_ascii)
qed

lemma ascii_prefix_conv:
  assumes "eq_ignore_ascii_case u p" "ascii_str p"
  shows "byte_len u = length p \<and> bytes_eq_ignore_ascii_case (str_bytes u) (str_bytes p)"
  using assms
proof (induction p arbitrary: u)
  case (Cons x p)
  then obtain c v where u: "u = c # v" "ascii_lower c = ascii_lower x" "eq_ignore_ascii_case v p"
    by (cases u) (auto simp: eq_ignore_ascii_case_def)
  have x: "codept x < 0x80"
    using Cons.prems(2) by (simp add: ascii_str_def)
  have low: "(if 65 \<le> codept c \<and> codept c \<le> 90 then codept c + 32 else codept c) =
        (if 65 \<le> codept x \<and> codept x \<le> 90 then codept x + 32 else codept x)"
    using arg_cong [OF u(2), of codept] by (simp only: codept_ascii_lower)
  with x have c: "codept c < 0x80"
    by (auto split: if_splits)
  then have "byte_lower (word_of_int (codept c)) = byte_lower (word_of_int (codept x))"
    using x low codept_range(1) by (simp only: byte_lower_ascii)
  with Cons u x c show ?case
    by (simp add: ascii_str_def str_bytes_Cons utf8_char_ascii char_len_def
        bytes_eq_ignore_ascii_case_def)
qed (simp add: eq_ignore_ascii_case_def bytes_eq_ignore_ascii_case_def)

text \<open>
  What \<open>parse_bearer\<close> accepts: seven characters that spell the scheme in any ASCII case, then a
  token that is not all white space. The character-boundary check of the code never fails once the
  prefix matched, so the slice after it never panics.
\<close>

lemma ascii_bearer: "ascii_str (lit ''bearer '')" "length (lit ''bearer '') = 7"
  "length (str_bytes (lit ''bearer '')) = 7"
  by (simp_all add: ascii_str_def str_bytes_def utf8_ints_def utf8_char_def)

lemma parse_bearer_split:
  assumes "eq_ignore_ascii_case u (lit ''bearer '')"
  shows "parse_bearer (u @ t) = Some (if trim t = [] then None else Some (trim t))"
proof -
  have u: "byte_len u = 7" "bytes_eq_ignore_ascii_case (str_bytes u) (str_bytes (lit ''bearer ''))"
    using ascii_prefix_conv [OF assms ascii_bearer(1)] by (simp_all only: ascii_bearer)
  moreover have "slice_from 7 (u @ t) = Some t"
    using slice_from_append [of u t] u(1) by simp
  ultimately show ?thesis
    by (simp add: parse_bearer_def is_char_boundary_def byte_len_def Let_def)
qed

lemma parse_bearer_other:
  assumes "\<nexists>u t. s = u @ t \<and> eq_ignore_ascii_case u (lit ''bearer '')"
  shows "parse_bearer s = Some None"
proof -
  have "\<not> bytes_eq_ignore_ascii_case (take 7 (str_bytes s)) (str_bytes (lit ''bearer ''))"
    using ascii_prefix [of "lit ''bearer ''" s] assms ascii_bearer by metis
  then show ?thesis
    by (simp add: parse_bearer_def Let_def)
qed

lemma parse_bearer_total: "\<exists>r. parse_bearer s = Some r"
  using parse_bearer_split parse_bearer_other by metis

lemma parse_bearer_Some:
  "parse_bearer s = Some (Some v) \<longleftrightarrow>
     (\<exists>u t. s = u @ t \<and> eq_ignore_ascii_case u (lit ''bearer '') \<and> v = trim t \<and> v \<noteq> [])"
proof (cases "\<exists>u t. s = u @ t \<and> eq_ignore_ascii_case u (lit ''bearer '')")
  case True
  then obtain u t where ut: "s = u @ t" "eq_ignore_ascii_case u (lit ''bearer '')"
    by blast
  have "length u = length u'" if "eq_ignore_ascii_case u' (lit ''bearer '')" for u'
    using that ut(2) by (auto simp: eq_ignore_ascii_case_def dest!: arg_cong [where f = length])
  then have "u' @ t' = u @ t \<Longrightarrow> eq_ignore_ascii_case u' (lit ''bearer '') \<Longrightarrow> t' = t" for u' t'
    by (metis append_eq_append_conv)
  with ut show ?thesis
    by (auto simp: parse_bearer_split)
next
  case False
  then show ?thesis
    using parse_bearer_other [OF False] by auto
qed

section \<open>A reference encoder for URLs and cookies\<close>

text \<open>
  Percent-encoding as a client does it: unreserved characters stand for themselves, every other
  byte becomes \<open>%XX\<close>. \<open>url_encode\<close> encodes one character as one byte (Latin-1), and
  \<open>pct_bytes\<close> a sequence of bytes.
\<close>

definition hex_digit :: "int \<Rightarrow> uchar" where
  "hex_digit n = uchr (if n < 10 then 48 + n else 55 + n)"

definition pct :: "int \<Rightarrow> rstr" where
  "pct b = [uchr 37, hex_digit (b div 16), hex_digit (b mod 16)]"

definition pct_bytes :: "int list \<Rightarrow> rstr" where
  "pct_bytes bs = concat (map pct bs)"

definition unreserved :: "uchar \<Rightarrow> bool" where
  "unreserved c \<longleftrightarrow> (let n = codept c in
     (48 \<le> n \<and> n \<le> 57) \<or> (65 \<le> n \<and> n \<le> 90) \<or> (97 \<le> n \<and> n \<le> 122) \<or>
     n = 45 \<or> n = 46 \<or> n = 95 \<or> n = 126)"

definition url_encode :: "rstr \<Rightarrow> rstr" where
  "url_encode s = concat (map (\<lambda>c. if unreserved c then [c] else pct (codept c)) s)"

definition latin1 :: "rstr \<Rightarrow> bool" where
  "latin1 s \<longleftrightarrow> list_all (\<lambda>c. codept c < 256) s"

lemma hex_val_digit: "0 \<le> n \<Longrightarrow> n < 16 \<Longrightarrow> hex_val (hex_digit n) = Some (word_of_int n)"
  by (auto simp: hex_val_def hex_digit_def Let_def)

lemma uint_hex_pair:
  "0 \<le> b \<Longrightarrow> b < 256 \<Longrightarrow> uint (word_of_int (b div 16) * 16 + word_of_int (b mod 16) :: u8) = b"
proof -
  assume b: "0 \<le> b" "b < 256"
  have "(word_of_int (b div 16) * 16 + word_of_int (b mod 16) :: u8) = word_of_int (b div 16 * 16 + b mod 16)"
    by (simp only: of_int_add of_int_mult of_int_numeral)
  with b show ?thesis
    by (simp add: uint_word_of_int)
qed

lemma url_decode_pct: "0 \<le> b \<Longrightarrow> b < 256 \<Longrightarrow> url_decode (pct b @ s) = uchr b # url_decode s"
  by (simp add: pct_def hex_val_digit uint_hex_pair uchr_inject)

lemma url_decode_pct_bytes:
  "\<forall>b\<in>set bs. 0 \<le> b \<and> b < 256 \<Longrightarrow> url_decode (pct_bytes bs @ s) = map uchr bs @ url_decode s"
proof (induction bs)
  case (Cons b bs)
  have "url_decode (pct b @ pct_bytes bs @ s) = uchr b # url_decode (pct_bytes bs @ s)"
    by (rule url_decode_pct) (use Cons.prems in auto)
  with Cons show ?case
    by (simp add: pct_bytes_def)
qed (simp add: pct_bytes_def)

lemma url_decode_plain:
  "c \<noteq> uchr 43 \<Longrightarrow> c \<noteq> uchr 37 \<Longrightarrow> url_decode (c # s) = c # url_decode s"
  by simp

lemma unreservedD: "unreserved c \<Longrightarrow> c \<noteq> uchr 43 \<and> c \<noteq> uchr 37"
  by (auto simp: unreserved_def)

lemma url_decode_encode_append: "latin1 s \<Longrightarrow> url_decode (url_encode s @ t) = s @ url_decode t"
proof (induction s)
  case (Cons c s)
  have "0 \<le> codept c" by (rule codept_range)
  with Cons show ?case
    by (simp add: url_encode_def latin1_def url_decode_pct url_decode_plain unreservedD
        del: url_decode.simps)
qed (simp add: url_encode_def)

lemma url_decode_encode: "latin1 s \<Longrightarrow> url_decode (url_encode s) = s"
  using url_decode_encode_append [of s "[]"] by simp

lemma url_decode_Nil_iff [simp]: "url_decode s = [] \<longleftrightarrow> s = []"
  by (cases s) (auto split: list.splits option.splits)

lemma length_url_decode: "length (url_decode s) \<le> length s"
proof (induction s rule: length_induct)
  case (1 s)
  then have IH: "length r < length s \<Longrightarrow> length (url_decode r) \<le> length r" for r
    by blast
  show ?case
  proof (cases s)
    case (Cons c cs)
    then show ?thesis
      using IH [of cs] IH [of "drop 2 cs"] by (auto split: list.splits option.splits)
  qed simp
qed

text \<open>An encoded text holds unreserved characters and percent signs only.\<close>

lemma set_url_encode: "latin1 s \<Longrightarrow> c \<in> set (url_encode s) \<Longrightarrow> unreserved c \<or> c = uchr 37"
proof (induction s)
  case (Cons x s)
  have "unreserved (hex_digit n)" if "0 \<le> n" "n < 16" for n
    using that by (auto simp: unreserved_def hex_digit_def Let_def)
  moreover have "0 \<le> codept x" "codept x < 256"
    using Cons.prems by (simp_all add: latin1_def codept_range)
  ultimately have "c \<in> set (pct (codept x)) \<Longrightarrow> unreserved c \<or> c = uchr 37"
    by (auto simp: pct_def)
  with Cons show ?case
    by (auto simp: url_encode_def latin1_def split: if_splits)
qed (simp add: url_encode_def)

lemma not_in_url_encode:
  "latin1 s \<Longrightarrow> \<not> unreserved c \<Longrightarrow> c \<noteq> uchr 37 \<Longrightarrow> c \<notin> set (url_encode s)"
  using set_url_encode by blast

lemma reserved_punct [simp]:
  "\<not> unreserved (uchr 38)" "\<not> unreserved (uchr 61)" "\<not> unreserved (uchr 63)"
  "\<not> unreserved (uchr 59)" "\<not> unreserved (uchr 34)"
  by (simp_all add: unreserved_def)

lemma url_encode_Nil_iff [simp]: "url_encode s = [] \<longleftrightarrow> s = []"
  by (cases s) (simp_all add: url_encode_def pct_def)

section \<open>Extraction as a search over the sources\<close>

text \<open>What one source yields, without the order of the search.\<close>

definition bearer_token :: "rstr \<Rightarrow> rstr option" where
  "bearer_token s = (case parse_bearer s of Some r \<Rightarrow> r | None \<Rightarrow> None)"

primrec source_token :: "rstr option \<Rightarrow> rstr option \<Rightarrow> rstr \<Rightarrow> token_source_kind \<Rightarrow> rstr option" where
  "source_token auth cookie query AuthorizationHeader = Option.bind auth bearer_token"
| "source_token auth cookie query (QueryParam name) = extract_query_param query name"
| "source_token auth cookie query (Cookie name) = Option.bind cookie (\<lambda>c. parse_cookie c name)"

lemma parse_bearer_token: "parse_bearer s = Some (bearer_token s)"
  using parse_bearer_total [of s] by (auto simp: bearer_token_def)

lemma bearer_token_nonempty: "bearer_token s \<noteq> Some []"
  using parse_bearer_Some [of s "[]"] by (auto simp: parse_bearer_token)

lemma query_nonempty: "extract_query_param query name \<noteq> Some []"
  by (auto simp: extract_query_param_def query_pair_def Let_def split: if_splits
      dest!: first_some_SomeD)

lemma cookie_nonempty: "parse_cookie header name \<noteq> Some []"
  by (auto simp: parse_cookie_def cookie_part_def Let_def split: if_splits dest!: first_some_SomeD)

lemma source_token_nonempty: "source_token auth cookie query src \<noteq> Some []"
  by (cases src) (auto simp: bearer_token_nonempty query_nonempty cookie_nonempty
      split: bind_splits)

lemma scan_sources_first:
  "scan_sources auth cookie query srcs = Some (first_some (source_token auth cookie query) srcs)"
proof (induction srcs)
  case (Cons src srcs)
  note IH = Cons.IH
  show ?case
  proof (cases src)
    case AuthorizationHeader
    show ?thesis
    proof (cases auth)
      case None
      with IH show ?thesis by (simp add: AuthorizationHeader)
    next
      case (Some h)
      with IH show ?thesis
        using bearer_token_nonempty [of h]
        by (simp add: AuthorizationHeader parse_bearer_token split: option.split)
    qed
  qed (use IH in \<open>simp_all split: option.split\<close>)
qed simp

lemma scan_parts_sources:
  "scan_parts header to_str query srcs =
     scan_sources (Option.bind (header (lit ''authorization'')) to_str)
       (Option.bind (header (lit ''cookie'')) to_str) query srcs"
proof (induction srcs)
  case (Cons src srcs)
  note IH = Cons.IH
  show ?case
  proof (cases src)
    case AuthorizationHeader
    show ?thesis
    proof (cases "Option.bind (header (lit ''authorization'')) to_str")
      case None
      with IH show ?thesis
        by (auto simp: AuthorizationHeader extract_bearer_def split: option.splits bind_splits)
    next
      case (Some h)
      with IH show ?thesis
        using bearer_token_nonempty [of h]
        by (auto simp: AuthorizationHeader extract_bearer_def parse_bearer_token
            split: option.splits bind_splits)
    qed
  next
    case (Cookie name)
    have "extract_cookie header to_str name =
        Option.bind (Option.bind (header (lit ''cookie'')) to_str) (\<lambda>c. parse_cookie c name)"
      by (simp add: extract_cookie_def split: option.split)
    with IH show ?thesis by (simp add: Cookie split: option.split)
  qed (use IH in \<open>simp split: option.split\<close>)
qed simp

lemma extract_from_parts_first:
  "extract_from_parts ex auth cookie query =
     Some (first_some (source_token auth cookie query) (sources ex))"
  by (simp add: extract_from_parts_def scan_sources_first)

text \<open>Reading back what a client wrote: query strings and cookie headers.\<close>

definition render_query :: "(rstr \<times> rstr) list \<Rightarrow> rstr" where
  "render_query kvs = join_with (uchr 38) (map (\<lambda>(k, v). url_encode k @ uchr 61 # url_encode v) kvs)"

definition render_cookies :: "(rstr \<times> rstr) list \<Rightarrow> rstr" where
  "render_cookies kvs = join_with (uchr 59) (map (\<lambda>(k, v). uchr 32 # k @ uchr 61 # url_encode v) kvs)"

definition latin1_pairs :: "(rstr \<times> rstr) list \<Rightarrow> bool" where
  "latin1_pairs kvs \<longleftrightarrow> list_all (\<lambda>(k, v). latin1 k \<and> latin1 v) kvs"

definition cookie_name_ok :: "rstr \<Rightarrow> bool" where
  "cookie_name_ok k \<longleftrightarrow> list_all (\<lambda>c. \<not> is_white c \<and> c \<noteq> uchr 61 \<and> c \<noteq> uchr 59) k"

definition value_of :: "rstr \<Rightarrow> rstr \<times> rstr \<Rightarrow> rstr option" where
  "value_of name kv = (if fst kv = name \<and> snd kv \<noteq> [] then Some (snd kv) else None)"

lemma query_pair_render:
  assumes "latin1 k" "latin1 v"
  shows "query_pair name (url_encode k @ uchr 61 # url_encode v) = value_of name (k, v)"
proof -
  have "uchr 61 \<notin> set (url_encode k)"
    using assms(1) by (rule not_in_url_encode) (simp_all add: uchr_inject)
  with assms show ?thesis
    by (simp add: query_pair_def splitn2_def Let_def url_decode_encode value_of_def)
qed

lemma extract_query_param_render:
  assumes "latin1_pairs kvs"
  shows "extract_query_param (render_query kvs) name = first_some (value_of name) kvs"
proof (cases "kvs = []")
  case True
  then show ?thesis
    by (simp add: render_query_def extract_query_param_def trim_start_matches_def)
next
  case False
  let ?p = "\<lambda>(k, v). url_encode k @ uchr 61 # url_encode v"
  have safe: "\<forall>q\<in>set (map ?p kvs). uchr 38 \<notin> set q \<and> uchr 63 \<notin> set q"
  proof
    fix q assume "q \<in> set (map ?p kvs)"
    then obtain k v where q: "q = url_encode k @ uchr 61 # url_encode v" "latin1 k" "latin1 v"
      using assms by (auto simp: latin1_pairs_def list_all_iff)
    then show "uchr 38 \<notin> set q \<and> uchr 63 \<notin> set q"
      using not_in_url_encode [of k] not_in_url_encode [of v] by (simp add: uchr_inject)
  qed
  have ne: "map ?p kvs \<noteq> []" "hd (map ?p kvs) \<noteq> []"
    using False by (cases kvs; auto)+
  then have "hd (render_query kvs) = hd (hd (map ?p kvs))"
    unfolding render_query_def by (rule hd_join_with)
  also have "\<dots> \<noteq> uchr 63"
    using safe ne by (metis hd_in_set list.set_sel(1))
  finally have "trim_start_matches (uchr 63) (render_query kvs) = render_query kvs"
    unfolding trim_start_matches_def by (intro dropWhile_id) simp
  moreover have "render_query kvs \<noteq> []"
    using ne unfolding render_query_def by (auto simp: join_with_Nil_iff)
  moreover have "split_on (uchr 38) (render_query kvs) = map ?p kvs"
    unfolding render_query_def using ne(1) safe by (intro split_on_join) auto
  ultimately have "extract_query_param (render_query kvs) name = first_some (query_pair name) (map ?p kvs)"
    by (simp add: extract_query_param_def Let_def)
  also have "\<dots> = first_some (value_of name) kvs"
    unfolding first_some_map using assms
    by (intro first_some_cong) (auto simp: latin1_pairs_def list_all_iff query_pair_render)
  finally show ?thesis .
qed

lemma unreserved_not_white: "unreserved c \<Longrightarrow> \<not> is_white c"
  by (auto simp: unreserved_def is_white_def Let_def)

lemma url_encode_not_white: "latin1 v \<Longrightarrow> c \<in> set (url_encode v) \<Longrightarrow> \<not> is_white c"
  using set_url_encode [of v c] unreserved_not_white [of c] by (auto simp: is_white_def)

lemma trim_white_Cons: "is_white c \<Longrightarrow> trim (c # s) = trim s"
  by (simp add: trim_def trim_start_def)

lemma dropWhile_notin: "c \<notin> set s \<Longrightarrow> dropWhile (\<lambda>x. x = c) s = s"
  by (cases s) auto

lemma trim_matches_id: "c \<notin> set s \<Longrightarrow> trim_matches c s = s"
  by (simp add: trim_matches_def dropWhile_notin)

lemma cookie_part_render:
  assumes "cookie_name_ok k" "latin1 v"
  shows "cookie_part name (uchr 32 # k @ uchr 61 # url_encode v) = value_of name (k, v)"
proof -
  have k: "trimmed k" "uchr 61 \<notin> set k"
    using assms(1) by (cases "k = []"; auto simp: cookie_name_ok_def list_all_iff trimmed_def)+
  have v: "trimmed (url_encode v)" "uchr 34 \<notin> set (url_encode v)"
    using assms(2) url_encode_not_white not_in_url_encode
    by (cases "v = []"; auto simp: trimmed_def uchr_inject)+
  have "trimmed (k @ uchr 61 # url_encode v)"
    using k v by (cases k) (auto simp: trimmed_def is_white_def)
  then have "trim (uchr 32 # k @ uchr 61 # url_encode v) = k @ uchr 61 # url_encode v"
    by (subst trim_white_Cons) (simp add: is_white_def, rule trim_id)
  then have "cookie_part name (uchr 32 # k @ uchr 61 # url_encode v) =
      (if k = name \<and> url_encode v \<noteq> [] then Some (url_decode (url_encode v)) else None)"
    unfolding cookie_part_def Let_def using k v
    by (simp only: splitn2_def split_once_ch_append option.case prod.case list.case trim_id
        trim_matches_id not_False_eq_True)
  then show ?thesis
    using assms(2) by (simp add: url_decode_encode value_of_def)
qed

lemma parse_cookie_render:
  assumes "kvs \<noteq> []" "list_all (\<lambda>(k, v). cookie_name_ok k \<and> latin1 v) kvs"
  shows "parse_cookie (render_cookies kvs) name = first_some (value_of name) kvs"
proof -
  let ?p = "\<lambda>(k, v). uchr 32 # k @ uchr 61 # url_encode v"
  have "\<forall>q\<in>set (map ?p kvs). uchr 59 \<notin> set q"
    using assms(2) not_in_url_encode
    by (auto simp: list_all_iff cookie_name_ok_def uchr_inject)
  with assms(1) have "split_on (uchr 59) (render_cookies kvs) = map ?p kvs"
    unfolding render_cookies_def by (intro split_on_join) auto
  then have "parse_cookie (render_cookies kvs) name = first_some (\<lambda>kv. cookie_part name (?p kv)) kvs"
    by (simp add: parse_cookie_def first_some_map)
  also have "\<dots> = first_some (value_of name) kvs"
    using assms(2) by (intro first_some_cong) (auto simp: list_all_iff cookie_part_render)
  finally show ?thesis .
qed

text \<open>Percent-encoded UTF-8 against the decoder's reading, one character per byte.\<close>

lemma length_utf8_char: "length (utf8_char c) = 1 \<longleftrightarrow> codept c < 0x80"
  by (simp add: utf8_char_def Let_def)

lemma length_utf8_ints: "length (utf8_ints s) = length s \<longleftrightarrow> ascii_str s"
  "length s \<le> length (utf8_ints s)"
proof (induction s)
  case (Cons c s)
  have "1 \<le> length (utf8_char c)"
    using utf8_char_nonempty [of c] by (cases "utf8_char c") auto
  moreover have "length (utf8_ints (c # s)) = length (utf8_char c) + length (utf8_ints s)"
    by simp
  moreover have "ascii_str (c # s) \<longleftrightarrow> length (utf8_char c) = 1 \<and> length (utf8_ints s) = length s"
    using Cons(1) length_utf8_char [of c] by (simp add: ascii_str_def)
  ultimately have "(length (utf8_ints (c # s)) = length (c # s) \<longleftrightarrow> ascii_str (c # s)) \<and>
      length (c # s) \<le> length (utf8_ints (c # s))"
    using Cons(2) by (simp only: list.size, linarith)
  then show "length (utf8_ints (c # s)) = length (c # s) \<longleftrightarrow> ascii_str (c # s)"
    "length (c # s) \<le> length (utf8_ints (c # s))"
    by blast+
qed (simp_all add: ascii_str_def)

lemma utf8_ints_ascii: "ascii_str s \<Longrightarrow> map uchr (utf8_ints s) = s"
  by (induction s) (simp_all add: ascii_str_def utf8_char_ascii)

section \<open>Properties\<close>

text \<open>C14 \<open>extract_token\<close>, and \<open>extract_from_parts\<close> on the same header values, return the
  token of the first configured source that has one; both always return (the slice in
  \<open>parse_bearer\<close> never panics) and never return an empty token.\<close>

theorem extract_token_first_source:
    "(extract_token ex header to_str query =
     Some (first_some
       (source_token (Option.bind (header (lit ''authorization'')) to_str)
          (Option.bind (header (lit ''cookie'')) to_str) query) (sources ex))) \<and>
     (extract_from_parts ex (Option.bind (header (lit ''authorization'')) to_str)
     (Option.bind (header (lit ''cookie'')) to_str) query = extract_token ex header to_str query) \<and>
     (extract_token ex header to_str query \<noteq> Some (Some []))"
  by (auto simp: extract_token_def scan_parts_sources scan_sources_first extract_from_parts_def
      source_token_nonempty dest: first_some_SomeD)

text \<open>\<open>require_token\<close> returns the token of the first source that has one, and \<open>Missing\<close> when
  none has; it reports \<open>Invalid\<close> or \<open>Expired\<close> on no input.\<close>

lemma require_token_outcome:
    "(require_token ex header to_str query =
     Some (case first_some
             (source_token (Option.bind (header (lit ''authorization'')) to_str)
               (Option.bind (header (lit ''cookie'')) to_str) query) (sources ex)
           of Some v \<Rightarrow> Inr v | None \<Rightarrow> Inl Missing)) \<and>
     (require_token ex header to_str query \<noteq> Some (Inl Invalid)) \<and>
     (require_token ex header to_str query \<noteq> Some (Inl Expired))"
  by (simp_all add: require_token_def extract_token_def scan_parts_sources scan_sources_first
      split: option.split)

text \<open>C30 \<open>parse_bearer\<close> works on bytes: it tests seven bytes, checks the character boundary and
  slices. It never panics, and it accepts exactly the texts that consist of seven characters
  spelling \<open>bearer\<close> and a space in any ASCII case, followed by a text that is not all white space;
  the token is that text, trimmed.\<close>

theorem parse_bearer_accepts:
  "\<exists>r. parse_bearer s = Some r \<and>
     (\<forall>v. r = Some v \<longleftrightarrow>
        (\<exists>u t. s = u @ t \<and> eq_ignore_ascii_case u (lit ''bearer '') \<and> v = trim t \<and> v \<noteq> []))"
  using parse_bearer_total [of s] parse_bearer_Some [of s] by auto

text \<open>C33 Round trip of query strings: for a query string written by a client from name and value
  pairs (Latin-1 texts, percent-encoded byte by byte), \<open>extract_query_param\<close> returns the first
  non-empty value with the requested name.\<close>

theorem query_param_roundtrip:
  assumes "latin1_pairs kvs"
  shows "extract_query_param (render_query kvs) name = first_some (value_of name) kvs"
  using assms by (rule extract_query_param_render)

theorem query_param_roundtrip_witness:
  "extract_query_param (render_query
      [(lit ''token'', []), (lit ''a&b'', lit ''1''), (lit ''token'', lit ''x=y&z'')]) (lit ''token'')
    = Some (lit ''x=y&z'')"
  by (rule query_param_roundtrip [THEN trans]) code_simp+

text \<open>C34 Round trip of cookie headers: for a \<open>Cookie\<close> header written from names without white
  space, \<open>=\<close> and \<open>;\<close> and percent-encoded Latin-1 values, \<open>parse_cookie\<close> returns the first
  non-empty value with the requested name.\<close>

theorem cookie_roundtrip:
  assumes "kvs \<noteq> []" "list_all (\<lambda>(k, v). cookie_name_ok k \<and> latin1 v) kvs"
  shows "parse_cookie (render_cookies kvs) name = first_some (value_of name) kvs"
  using assms by (rule parse_cookie_render)

theorem cookie_roundtrip_witness:
  "parse_cookie (render_cookies
      [(lit ''theme'', lit ''dark''), (lit ''sid'', lit ''a; b=c'')]) (lit ''sid'') = Some (lit ''a; b=c'')"
  by (rule cookie_roundtrip [THEN trans]) code_simp+

text \<open>C40 \<open>url_decode\<close> reads every percent-encoded byte as one character: the percent-encoding of the
  UTF-8 bytes of a text decodes to the Latin-1 reading of these bytes, which is the text itself
  exactly when the text is ASCII.\<close>

theorem url_decode_percent_utf8:
    "(url_decode (pct_bytes (utf8_ints s)) = map uchr (utf8_ints s)) \<and>
     (url_decode (pct_bytes (utf8_ints s)) = s \<longleftrightarrow> ascii_str s)"
proof -
  have "\<forall>b\<in>set (utf8_ints s). 0 \<le> b \<and> b < 256"
    by (auto simp: utf8_ints_def utf8_char_bytes)
  then have eq: "url_decode (pct_bytes (utf8_ints s)) = map uchr (utf8_ints s)"
    using url_decode_pct_bytes [of "utf8_ints s" "[]"] by simp
  then show ?thesis
    unfolding eq using length_utf8_ints(1) [of s] utf8_ints_ascii [of s] by (metis length_map)
qed

end
