(* ===== verification/Conn_Counter.thy ===== *)
theory Conn_Counter
  imports Ws_Error
begin

text \<open>
  \<open>src/counter.rs\<close>: the connection counter that all clones of a hub share. The operations are
  modelled twice. \<open>increment\<close> and \<open>decrement\<close> are the operations as one caller sees them;
  \<open>thread_step\<close> has one rule per atomic access of the code, and \<open>world_step\<close> interleaves any
  number of threads.

  The accesses are \<open>Ordering::Relaxed\<close>, so a load may return an older value of the cell. The
  world keeps the modification order of the cell (\<open>hist\<close>, oldest value first), and a thread
  keeps the index of the last value it has seen: a plain load, and the load of a failed
  compare-exchange, may return any value from that index on (coherence); a successful
  read-modify-write acts on the newest value. \<open>AtomicU64\<close> arithmetic wraps, and so does
  the \<open>+ 1\<close> of the returned count in a release build.

  \<open>loom_tests.rs\<close> model-checks four programs of two and three threads; the theorems here hold
  for any number of threads.
\<close>

section \<open>The operations of a single caller\<close>

definition counter_new :: u64 where
  "counter_new = 0"

definition counter_get :: "u64 \<Rightarrow> u64" where
  "counter_get c = c"

definition increment :: "usize option \<Rightarrow> u64 \<Rightarrow> u64 \<times> u64 res" where
  "increment mx c =
     (case mx of
        None \<Rightarrow> (c + 1, Inr (c + 1))
      | Some limit \<Rightarrow>
          if limit \<le> c then (c, Inl TooManyConnections) else (c + 1, Inr (c + 1)))"

definition decrement :: "u64 \<Rightarrow> u64 \<times> u64" where
  "decrement c = (let c' = (if c = 0 then 0 else c - 1) in (c', c'))"

lemma increment_capped: "c \<le> limit \<Longrightarrow> fst (increment (Some limit) c) \<le> limit"
  by (auto simp: increment_def not_le word_less_Suc_le)

lemma increment_Inr: "increment (Some limit) c = (c', Inr n) \<Longrightarrow> c' = n \<and> unat n = Suc (unat c)"
  by (auto simp: increment_def not_le unat_Suc_less split: if_splits)

lemma increment_Inl: "increment mx c = (c', Inl e) \<Longrightarrow> c' = c \<and> e = TooManyConnections"
  by (auto simp: increment_def split: option.splits if_splits)

lemma decrement_increment: "c \<noteq> - 1 \<Longrightarrow> fst (decrement (fst (increment None c))) = c"
  by (auto simp: decrement_def increment_def eq_neg_iff_add_eq_0 Let_def)

lemma unat_decrement: "unat (fst (decrement c)) = unat c - 1"
  by (simp add: decrement_def unat_pred Let_def)

section \<open>Threads and atomic accesses\<close>

datatype call = Increment "usize option" | Decrement

datatype ret = Incremented "u64 res" | Decremented u64

text \<open>Where a thread is inside a call.\<close>

datatype pc =
    Idle
  | IncAdd                 \<comment> \<open>before the \<open>fetch_add\<close>\<close>
  | IncLoad usize          \<comment> \<open>at the head of the compare-exchange loop\<close>
  | IncCas usize u64       \<comment> \<open>before the compare-exchange, with the loaded value\<close>
  | DecLoad                \<comment> \<open>before the first load of \<open>fetch_update\<close>\<close>
  | DecCas u64             \<comment> \<open>before its compare-exchange\<close>
  | DecRead                \<comment> \<open>before the final load\<close>

record thread =
  todo :: "call list"
  pc :: pc
  seen :: nat
  rets :: "ret list"

text \<open>What a step decides: an increment won or was refused, a decrement took one or saturated.\<close>

datatype event = Won | Refused | Taken | Saturated

primrec entry :: "call \<Rightarrow> pc" where
  "entry (Increment mx) = (case mx of None \<Rightarrow> IncAdd | Some limit \<Rightarrow> IncLoad limit)"
| "entry Decrement = DecLoad"

definition finish :: "nat \<Rightarrow> ret \<Rightarrow> thread \<Rightarrow> thread" where
  "finish j r t = t\<lparr>pc := Idle, seen := j, rets := rets t @ [r]\<rparr>"

definition goto :: "nat \<Rightarrow> pc \<Rightarrow> thread \<Rightarrow> thread" where
  "goto j p t = t\<lparr>pc := p, seen := j\<rparr>"

text \<open>A load may return the value at index \<open>j\<close> of the modification order.\<close>

definition readable :: "u64 list \<Rightarrow> thread \<Rightarrow> nat \<Rightarrow> bool" where
  "readable h t j \<longleftrightarrow> seen t \<le> j \<and> j < length h"

text \<open>\<open>thread_step h t evs ws t'\<close>: one access of a thread; \<open>ws\<close> is what it writes.\<close>

inductive thread_step ::
  "u64 list \<Rightarrow> thread \<Rightarrow> event list \<Rightarrow> u64 list \<Rightarrow> thread \<Rightarrow> bool" where
  begin_call:
    "pc t = Idle \<Longrightarrow> todo t = k # ks \<Longrightarrow>
     thread_step h t [] [] (t\<lparr>todo := ks, pc := entry k\<rparr>)"
| fetch_add:
    "pc t = IncAdd \<Longrightarrow>
     thread_step h t [Won] [last h + 1] (finish (length h) (Incremented (Inr (last h + 1))) t)"
| inc_load_refused:
    "pc t = IncLoad limit \<Longrightarrow> readable h t j \<Longrightarrow> limit \<le> h ! j \<Longrightarrow>
     thread_step h t [Refused] [] (finish j (Incremented (Inl TooManyConnections)) t)"
| inc_load:
    "pc t = IncLoad limit \<Longrightarrow> readable h t j \<Longrightarrow> h ! j < limit \<Longrightarrow>
     thread_step h t [] [] (goto j (IncCas limit (h ! j)) t)"
| inc_cas:
    "pc t = IncCas limit v \<Longrightarrow> last h = v \<Longrightarrow>
     thread_step h t [Won] [v + 1] (finish (length h) (Incremented (Inr (v + 1))) t)"
| inc_cas_failed:
    "pc t = IncCas limit v \<Longrightarrow> readable h t j \<Longrightarrow> h ! j \<noteq> v \<Longrightarrow>
     thread_step h t [] [] (goto j (IncLoad limit) t)"
| dec_load_zero:
    "pc t = DecLoad \<Longrightarrow> readable h t j \<Longrightarrow> h ! j = 0 \<Longrightarrow>
     thread_step h t [Saturated] [] (goto j DecRead t)"
| dec_load:
    "pc t = DecLoad \<Longrightarrow> readable h t j \<Longrightarrow> h ! j \<noteq> 0 \<Longrightarrow>
     thread_step h t [] [] (goto j (DecCas (h ! j)) t)"
| dec_cas:
    "pc t = DecCas v \<Longrightarrow> last h = v \<Longrightarrow>
     thread_step h t [Taken] [v - 1] (goto (length h) DecRead t)"
| dec_cas_failed_zero:
    "pc t = DecCas v \<Longrightarrow> readable h t j \<Longrightarrow> h ! j = 0 \<Longrightarrow>
     thread_step h t [Saturated] [] (goto j DecRead t)"
| dec_cas_failed:
    "pc t = DecCas v \<Longrightarrow> readable h t j \<Longrightarrow> h ! j \<noteq> 0 \<Longrightarrow>
     thread_step h t [] [] (goto j (DecCas (h ! j)) t)"
| dec_read:
    "pc t = DecRead \<Longrightarrow> readable h t j \<Longrightarrow>
     thread_step h t [] [] (finish j (Decremented (h ! j)) t)"

record world =
  hist :: "u64 list"
  threads :: "thread list"
  log :: "event list"

definition cell :: "world \<Rightarrow> u64" where
  "cell w = last (hist w)"

definition start :: "call list list \<Rightarrow> world" where
  "start progs =
     \<lparr> hist = [counter_new],
       threads = map (\<lambda>p. \<lparr> todo = p, pc = Idle, seen = 0, rets = [] \<rparr>) progs,
       log = [] \<rparr>"

inductive world_step :: "world \<Rightarrow> world \<Rightarrow> bool" where
  thread: "i < length (threads w) \<Longrightarrow> thread_step (hist w) (threads w ! i) evs ws t' \<Longrightarrow>
    world_step w (w\<lparr>hist := hist w @ ws, threads := (threads w)[i := t'], log := log w @ evs\<rparr>)"

inductive reachable :: "call list list \<Rightarrow> world \<Rightarrow> bool" for progs where
  start: "reachable progs (start progs)"
| step: "reachable progs w \<Longrightarrow> world_step w w' \<Longrightarrow> reachable progs w'"

definition all_done :: "world \<Rightarrow> bool" where
  "all_done w \<longleftrightarrow> list_all (\<lambda>t. pc t = Idle \<and> todo t = []) (threads w)"

definition wins :: "world \<Rightarrow> nat" where
  "wins w = count_list (log w) Won"

definition takes :: "world \<Rightarrow> nat" where
  "takes w = count_list (log w) Taken"

inductive_cases thread_stepE: "thread_step h t evs ws t'"

lemmas thread_defs = finish_def goto_def readable_def

section \<open>Invariants\<close>

text \<open>An invariant over reachable worlds, from a condition on the threads and one on the cell.\<close>

lemma reachable_invariant:
  assumes "reachable progs w" "P (start progs)"
    and "\<And>w i evs ws t'. reachable progs w \<Longrightarrow> P w \<Longrightarrow> i < length (threads w) \<Longrightarrow>
      thread_step (hist w) (threads w ! i) evs ws t' \<Longrightarrow>
      P (w\<lparr>hist := hist w @ ws, threads := (threads w)[i := t'], log := log w @ evs\<rparr>)"
  shows "P w"
  using assms(1)
proof induction
  case start
  show ?case by (rule assms(2))
next
  case (step w w')
  from step.hyps(2) show ?case
    by cases (use assms(3) step in auto)
qed

text \<open>Every thread has seen an index of the history, and the history is never empty.\<close>

definition views_ok :: "world \<Rightarrow> bool" where
  "views_ok w \<longleftrightarrow> hist w \<noteq> [] \<and> (\<forall>t\<in>set (threads w). seen t < length (hist w))"

lemma thread_step_seen:
  "thread_step h t evs ws t' \<Longrightarrow> seen t < length h \<Longrightarrow> seen t \<le> seen t' \<and> seen t' < length (h @ ws)"
  by (erule thread_stepE) (auto simp: thread_defs)

lemma reachable_views: "reachable progs w \<Longrightarrow> views_ok w"
proof (erule reachable_invariant)
  show "views_ok (start progs)"
    by (auto simp: views_ok_def start_def)
next
  fix w :: world and i evs ws t'
  assume w: "views_ok w" "i < length (threads w)" "thread_step (hist w) (threads w ! i) evs ws t'"
  then have "seen (threads w ! i) < length (hist w)"
    by (auto simp: views_ok_def)
  with w have "seen t' < length (hist w @ ws)"
    using thread_step_seen by blast
  with w(1) show "views_ok (w\<lparr>hist := hist w @ ws, threads := (threads w)[i := t'], log := log w @ evs\<rparr>)"
    by (auto simp: views_ok_def dest!: set_update_subset_insert [THEN subsetD])
qed

subsection \<open>The cell counts the won increments minus the effective decrements\<close>

definition pending :: "thread \<Rightarrow> nat" where
  "pending t = length (todo t) + (if pc t = Idle \<or> pc t = DecRead then 0 else 1)"

lemma entry_not_idle [simp]: "entry k \<noteq> Idle" "entry k \<noteq> DecRead"
  by (cases k; simp split: option.split)+

lemma thread_step_pending:
  "thread_step h t evs ws t' \<Longrightarrow> length evs + pending t' = pending t"
  by (erule thread_stepE) (auto simp: thread_defs pending_def)

lemma reachable_pending:
  "reachable progs w \<Longrightarrow>
   length (log w) + sum_list (map pending (threads w)) = sum_list (map length progs)"
proof (erule reachable_invariant)
  show "length (log (start progs)) + sum_list (map pending (threads (start progs))) = sum_list (map length progs)"
    by (simp add: start_def pending_def comp_def)
next
  fix w :: world and i evs ws t'
  assume w: "length (log w) + sum_list (map pending (threads w)) = sum_list (map length progs)"
    "i < length (threads w)" "thread_step (hist w) (threads w ! i) evs ws t'"
  let ?w = "w\<lparr>hist := hist w @ ws, threads := (threads w)[i := t'], log := log w @ evs\<rparr>"
  show "length (log ?w) + sum_list (map pending (threads ?w)) = sum_list (map length progs)"
    using w(1) sum_list_update_add [OF w(2), of pending t'] thread_step_pending [OF w(3)] by simp
qed

lemma wins_le_calls: "reachable progs w \<Longrightarrow> wins w \<le> sum_list (map length progs)"
  using reachable_pending [of progs w] count_le_length [of "log w" Won] by (simp add: wins_def)

text \<open>A thread holds a loaded value only after it checked it.\<close>

definition pc_ok :: "thread \<Rightarrow> bool" where
  "pc_ok t \<longleftrightarrow> (case pc t of IncCas limit v \<Rightarrow> v < limit | DecCas v \<Rightarrow> v \<noteq> 0 | _ \<Rightarrow> True)"

lemma pc_ok_entry: "pc_ok (t\<lparr>todo := ks, pc := entry k\<rparr>)"
  by (cases k) (auto simp: pc_ok_def split: option.split)

lemma thread_step_pc_ok: "thread_step h t evs ws t' \<Longrightarrow> pc_ok t'"
  by (erule thread_stepE; (simp only: pc_ok_entry)?) (simp_all add: thread_defs pc_ok_def)

lemma reachable_pc_ok: "reachable progs w \<Longrightarrow> \<forall>t\<in>set (threads w). pc_ok t"
  by (erule reachable_invariant)
    (auto simp: start_def pc_ok_def [of "\<lparr>todo = _, pc = _, seen = _, rets = _\<rparr>"]
      dest: thread_step_pc_ok dest!: set_update_subset_insert [THEN subsetD])

text \<open>The three kinds of access: a won increment, an effective decrement, and no write at all.\<close>

lemma thread_step_writes:
  assumes "thread_step h t evs ws t'" "pc_ok t"
  obtains (won) "evs = [Won]" "ws = [last h + 1]"
    | (taken) "evs = [Taken]" "ws = [last h - 1]" "last h \<noteq> 0"
    | (silent) "ws = []" "Won \<notin> set evs" "Taken \<notin> set evs"
  using assms by (auto elim!: thread_stepE simp: pc_ok_def)

lemma count_list_append [simp]: "count_list (xs @ ys) x = count_list xs x + count_list ys x"
  by (induction xs) auto

lemma reachable_step_views:
  assumes "reachable progs w" "i < length (threads w)"
  shows "hist w \<noteq> []" "seen (threads w ! i) < length (hist w)" "pc_ok (threads w ! i)"
  using reachable_views [OF assms(1)] reachable_pc_ok [OF assms(1)] assms(2)
  by (auto simp: views_ok_def)

lemma reachable_count:
  assumes "reachable progs w" "sum_list (map length progs) < 2 ^ 64"
  shows "unat (cell w) + takes w = wins w"
  using assms(1)
proof (rule reachable_invariant)
  show "unat (cell (start progs)) + takes (start progs) = wins (start progs)"
    by (simp add: start_def cell_def wins_def takes_def counter_new_def)
next
  fix w :: world and i evs ws t'
  assume w: "reachable progs w" "unat (cell w) + takes w = wins w" "i < length (threads w)"
    and step: "thread_step (hist w) (threads w ! i) evs ws t'"
  let ?w = "w\<lparr>hist := hist w @ ws, threads := (threads w)[i := t'], log := log w @ evs\<rparr>"
  have "reachable progs ?w"
    using w step by (blast intro: reachable.step world_step.thread)
  then have le: "wins ?w < 2 ^ 64"
    using wins_le_calls assms(2) by (meson le_less_trans)
  show "unat (cell ?w) + takes ?w = wins ?w"
    using step reachable_step_views(3) [OF w(1,3)]
  proof (cases rule: thread_step_writes)
    case won
    then have "unat (last (hist w)) + 1 < 2 ^ 64"
      using le w(2) by (simp add: wins_def cell_def takes_def)
    then have "unat (last (hist w) + 1) = unat (last (hist w)) + 1"
      by (simp add: unat_word_ariths)
    with won w(2) show ?thesis
      by (simp add: cell_def wins_def takes_def)
  next
    case taken
    then have "unat (last (hist w)) \<noteq> 0"
      by (simp add: unat_eq_0)
    with taken w(2) show ?thesis
      by (simp add: cell_def wins_def takes_def unat_pred)
  next
    case silent
    with w(2) show ?thesis
      by (simp add: cell_def wins_def takes_def count_list_0_iff)
  qed
qed

subsection \<open>The limit\<close>

text \<open>Programs whose increments are all capped by at most \<open>limit\<close>.\<close>

primrec capped_call :: "usize \<Rightarrow> call \<Rightarrow> bool" where
  "capped_call limit (Increment mx) = (case mx of None \<Rightarrow> False | Some l \<Rightarrow> l \<le> limit)"
| "capped_call limit Decrement = True"

definition capped_thread :: "usize \<Rightarrow> thread \<Rightarrow> bool" where
  "capped_thread limit t \<longleftrightarrow> list_all (capped_call limit) (todo t) \<and>
     (case pc t of IncAdd \<Rightarrow> False | IncLoad l \<Rightarrow> l \<le> limit | IncCas l v \<Rightarrow> l \<le> limit | _ \<Rightarrow> True)"

lemma thread_step_capped:
  assumes "thread_step h t evs ws t'" "capped_thread limit t" "pc_ok t"
    and "\<forall>v\<in>set h. v \<le> limit" "h \<noteq> []"
  shows "capped_thread limit t' \<and> (\<forall>v\<in>set ws. v \<le> limit)"
proof -
  have entry: "capped_thread limit (t\<lparr>todo := ks, pc := entry k\<rparr>)"
    if "list_all (capped_call limit) (k # ks)" for k ks
    using that by (cases k) (auto simp: capped_thread_def split: option.splits)
  have bounds: "last h \<le> limit"
    using assms(4,5) by simp
  have up: "v < l \<Longrightarrow> l \<le> limit \<Longrightarrow> v + 1 \<le> limit" for v l :: u64
    by (meson order_trans word_less_Suc_le)
  have down: "v \<noteq> 0 \<Longrightarrow> v \<le> limit \<Longrightarrow> v - 1 \<le> limit" for v :: u64
    by (simp add: word_le_nat_alt unat_pred)
  show ?thesis
    by (rule thread_stepE [OF assms(1)])
      (use assms(2,3) bounds entry up down in
        \<open>auto simp: capped_thread_def [of _ t] capped_thread_def [of _ "t\<lparr>pc := _, seen := _\<rparr>"]
          capped_thread_def [of _ "t\<lparr>pc := _, seen := _, rets := _\<rparr>"] thread_defs pc_ok_def\<close>)
qed

lemma reachable_capped:
  assumes "reachable progs w" "list_all (list_all (capped_call limit)) progs"
  shows "(\<forall>t\<in>set (threads w). capped_thread limit t) \<and> (\<forall>v\<in>set (hist w). v \<le> limit)"
  using assms(1)
proof (rule reachable_invariant)
  show "(\<forall>t\<in>set (threads (start progs)). capped_thread limit t) \<and> (\<forall>v\<in>set (hist (start progs)). v \<le> limit)"
    using assms(2) by (auto simp: start_def capped_thread_def counter_new_def list_all_iff)
next
  fix w :: world and i evs ws t'
  assume w: "reachable progs w" "i < length (threads w)"
    "(\<forall>t\<in>set (threads w). capped_thread limit t) \<and> (\<forall>v\<in>set (hist w). v \<le> limit)"
    and step: "thread_step (hist w) (threads w ! i) evs ws t'"
  have "capped_thread limit t' \<and> (\<forall>v\<in>set ws. v \<le> limit)"
    using step reachable_step_views [OF w(1,2)] w by (intro thread_step_capped) auto
  with w(3) show "(\<forall>t\<in>set (threads (w\<lparr>hist := hist w @ ws, threads := (threads w)[i := t'], log := log w @ evs\<rparr>)). capped_thread limit t) \<and>
    (\<forall>v\<in>set (hist (w\<lparr>hist := hist w @ ws, threads := (threads w)[i := t'], log := log w @ evs\<rparr>)). v \<le> limit)"
    by (auto dest!: set_update_subset_insert [THEN subsetD])
qed

subsection \<open>What the callers get\<close>

fun is_success :: "ret \<Rightarrow> bool" where
  "is_success (Incremented (Inr _)) = True"
| "is_success _ = False"

definition successes :: "world \<Rightarrow> nat" where
  "successes w = sum_list (map (\<lambda>t. length (filter is_success (rets t))) (threads w))"

lemma thread_step_success:
  "thread_step h t evs ws t' \<Longrightarrow>
   length (filter is_success (rets t')) = length (filter is_success (rets t)) + count_list evs Won"
  by (erule thread_stepE) (auto simp: thread_defs)

lemma reachable_successes: "reachable progs w \<Longrightarrow> successes w = wins w"
proof (erule reachable_invariant)
  show "successes (start progs) = wins (start progs)"
    by (simp add: successes_def wins_def start_def comp_def)
next
  fix w :: world and i evs ws t'
  assume w: "successes w = wins w" "i < length (threads w)" "thread_step (hist w) (threads w ! i) evs ws t'"
  let ?f = "\<lambda>t. length (filter is_success (rets t))"
  show "successes (w\<lparr>hist := hist w @ ws, threads := (threads w)[i := t'], log := log w @ evs\<rparr>) =
      wins (w\<lparr>hist := hist w @ ws, threads := (threads w)[i := t'], log := log w @ evs\<rparr>)"
    using w(1) sum_list_update_add [OF w(2), of ?f t'] thread_step_success [OF w(3)]
    by (simp add: successes_def wins_def)
qed

lemma all_done_pending: "all_done w \<Longrightarrow> sum_list (map pending (threads w)) = 0"
  by (simp add: all_done_def pending_def list_all_iff)

lemma count_list_all: "\<forall>y\<in>set xs. y = x \<Longrightarrow> count_list xs x = length xs"
  by (induction xs) auto

lemma word_add_1_ge: "(v::u64) < l \<Longrightarrow> v \<le> v + 1"
  by (simp add: word_le_nat_alt unat_Suc_less)

subsection \<open>A race of increments for the same limit\<close>

definition racing :: "usize \<Rightarrow> thread \<Rightarrow> bool" where
  "racing limit t \<longleftrightarrow> list_all (\<lambda>k. k = Increment (Some limit)) (todo t) \<and>
     (case pc t of Idle \<Rightarrow> True | IncLoad l \<Rightarrow> l = limit | IncCas l v \<Rightarrow> l = limit | _ \<Rightarrow> False)"

definition race_ok :: "usize \<Rightarrow> world \<Rightarrow> bool" where
  "race_ok limit w \<longleftrightarrow> list_all (racing limit) (threads w) \<and> sorted (hist w) \<and>
     set (log w) \<subseteq> {Won, Refused} \<and> (Refused \<in> set (log w) \<longrightarrow> limit \<le> cell w)"

lemma thread_step_racing:
  assumes "thread_step h t evs ws t'" "racing limit t" "pc_ok t" "sorted h" "h \<noteq> []"
  shows "racing limit t' \<and> set evs \<subseteq> {Won, Refused} \<and> (Refused \<in> set evs \<longrightarrow> limit \<le> last h) \<and>
    (ws = [] \<or> ws = [last h + 1] \<and> last h < limit)"
proof -
  have "h ! j \<le> last h" if "j < length h" for j
    using assms(4,5) that by (simp add: last_conv_nth sorted_iff_nth_mono)
  then have reach: "limit \<le> h ! j \<Longrightarrow> j < length h \<Longrightarrow> limit \<le> last h" for j
    by (meson order_trans)
  show ?thesis
    by (rule thread_stepE [OF assms(1)])
      (use assms(2,3) reach in \<open>auto simp: racing_def thread_defs pc_ok_def\<close>)
qed

lemma reachable_race:
  assumes "reachable progs w" "list_all (list_all (\<lambda>k. k = Increment (Some limit))) progs"
  shows "race_ok limit w"
  using assms(1)
proof (rule reachable_invariant)
  show "race_ok limit (start progs)"
    using assms(2) by (simp add: race_ok_def start_def racing_def list_all_iff)
next
  fix w :: world and i evs ws t'
  assume w: "reachable progs w" "i < length (threads w)" "race_ok limit w"
    and step: "thread_step (hist w) (threads w ! i) evs ws t'"
  have *: "racing limit t'" "set evs \<subseteq> {Won, Refused}" "Refused \<in> set evs \<longrightarrow> limit \<le> last (hist w)"
    "ws = [] \<or> ws = [last (hist w) + 1] \<and> last (hist w) < limit"
    using thread_step_racing [OF step, of limit] reachable_step_views [OF w(1,2)] w(2,3)
    by (auto simp: race_ok_def list_all_length)
  have grow: "last (hist w) \<le> last (hist w @ ws)"
    using *(4) reachable_step_views(1) [OF w(1,2)] word_add_1_ge by auto
  have "x \<le> last (hist w @ ws)" if "x \<in> set (hist w)" for x
    using sorted_le_last [OF _ that] w(3) grow by (meson order_trans race_ok_def)
  then have "sorted (hist w @ ws)"
    using *(4) w(3) by (auto simp: race_ok_def sorted_append)
  with grow  show "race_ok limit (w\<lparr>hist := hist w @ ws, threads := (threads w)[i := t'], log := log w @ evs\<rparr>)"
    using *(1-3) w(2,3) unfolding race_ok_def cell_def
    by (auto simp: list_all_length nth_list_update intro: order_trans)
qed

lemma race_result:
  assumes "reachable progs w" "all_done w" "sum_list (map length progs) < 2 ^ 64"
    and "list_all (list_all (\<lambda>k. k = Increment (Some limit))) progs"
  shows "unat (cell w) = min (unat limit) (sum_list (map length progs)) \<and> wins w = unat (cell w)"
proof -
  have "list_all (list_all (capped_call limit)) progs"
    using assms(4) by (fastforce simp: list_all_iff)
  then have "cell w \<le> limit"
    using reachable_capped [OF assms(1)] reachable_views [OF assms(1)]
    by (simp add: cell_def views_ok_def)
  then have le: "unat (cell w) \<le> unat limit"
    by (simp add: word_le_nat_alt)
  have race: "set (log w) \<subseteq> {Won, Refused}" "Refused \<in> set (log w) \<longrightarrow> limit \<le> cell w"
    using reachable_race [OF assms(1,4)] by (simp_all add: race_ok_def)
  have len: "length (log w) = sum_list (map length progs)"
    using reachable_pending [OF assms(1)] all_done_pending [OF assms(2)] by simp
  have "takes w = 0"
    using race(1) by (auto simp: takes_def count_list_0_iff)
  then have won: "unat (cell w) = wins w"
    using reachable_count [OF assms(1,3)] by simp
  show ?thesis
  proof (cases "Refused \<in> set (log w)")
    case True
    then have "unat (cell w) = unat limit"
      using race(2) le by (simp add: word_le_nat_alt)
    with won wins_le_calls [OF assms(1)] show ?thesis by simp
  next
    case False
    with race(1) have "\<forall>e\<in>set (log w). e = Won"
      by auto
    then have "wins w = length (log w)"
      unfolding wins_def by (rule count_list_all)
    with won len le show ?thesis by simp
  qed
qed

subsection \<open>Clients that decrement what they incremented\<close>

text \<open>\<open>balanced b ks\<close>: the calls \<open>ks\<close> are increment and decrement pairs, after an open
  increment if \<open>b\<close>.\<close>

fun balanced :: "bool \<Rightarrow> call list \<Rightarrow> bool" where
  "balanced False [] = True"
| "balanced False (Increment None # ks) = balanced True ks"
| "balanced True (Decrement # ks) = balanced False ks"
| "balanced _ _ = False"

definition holds :: "thread \<Rightarrow> bool" where
  "holds t = (case pc t of
      Idle \<Rightarrow> (case todo t of Decrement # _ \<Rightarrow> True | _ \<Rightarrow> False)
    | DecLoad \<Rightarrow> True | DecCas _ \<Rightarrow> True | _ \<Rightarrow> False)"

definition balanced_thread :: "thread \<Rightarrow> bool" where
  "balanced_thread t = (case pc t of
      Idle \<Rightarrow> balanced (holds t) (todo t)
    | IncAdd \<Rightarrow> balanced True (todo t)
    | IncLoad _ \<Rightarrow> False
    | IncCas _ _ \<Rightarrow> False
    | _ \<Rightarrow> balanced False (todo t))"

definition held :: "thread list \<Rightarrow> nat" where
  "held ts = sum_list (map (\<lambda>t. of_bool (holds t)) ts)"

text \<open>A thread that holds a connection cannot read a zero.\<close>

definition sees_own :: "u64 list \<Rightarrow> thread \<Rightarrow> bool" where
  "sees_own h t \<longleftrightarrow> holds t \<longrightarrow> (\<forall>j. readable h t j \<longrightarrow> h ! j \<noteq> 0)"

lemma balanced_head:
  "balanced b ks \<Longrightarrow> (case ks of Decrement # _ \<Rightarrow> True | _ \<Rightarrow> False) = b"
  by (induction b ks rule: balanced.induct) auto

lemma balanced_Cons:
  "balanced b (k # ks) \<longleftrightarrow>
     (if b then k = Decrement \<and> balanced False ks else k = Increment None \<and> balanced True ks)"
  by (cases "(b, k # ks)" rule: balanced.cases) auto

lemma thread_step_balanced:
  assumes "thread_step h t evs ws t'" "balanced_thread t" "sees_own h t" "seen t < length h"
  shows "balanced_thread t' \<and> Saturated \<notin> set evs \<and> seen t \<le> seen t' \<and>
    (ws = [] \<and> holds t' = holds t \<or>
     ws = [last h + 1] \<and> \<not> holds t \<and> holds t' \<and> seen t' = length h \<or>
     ws = [last h - 1] \<and> holds t \<and> \<not> holds t')"
  using assms(1)
proof (cases rule: thread_step.cases)
  case (begin_call k ks)
  with assms(2) have "balanced (holds t) (k # ks)"
    by (simp add: balanced_thread_def)
  with begin_call show ?thesis
    by (simp add: balanced_Cons balanced_thread_def holds_def split: if_splits)
next
  case fetch_add
  with assms(2,4) show ?thesis
    by (simp add: balanced_thread_def finish_def holds_def balanced_head)
next
  case (dec_read j)
  with assms(2) show ?thesis
    by (simp add: balanced_thread_def finish_def holds_def balanced_head readable_def)
qed (use assms(2-4) in \<open>auto simp: balanced_thread_def goto_def holds_def sees_own_def readable_def\<close>)

definition balanced_ok :: "world \<Rightarrow> bool" where
  "balanced_ok w \<longleftrightarrow> (\<forall>t\<in>set (threads w). balanced_thread t \<and> sees_own (hist w) t) \<and>
     Saturated \<notin> set (log w) \<and> cell w = of_nat (held (threads w))"

lemma held_le: "held ts \<le> length ts"
  by (induction ts) (auto simp: held_def)

lemma held_pos: "t \<in> set ts \<Longrightarrow> holds t \<Longrightarrow> 0 < held ts"
  unfolding held_def by (induction ts) auto

lemma held_update:
  "i < length ts \<Longrightarrow> held (ts[i := t']) + of_bool (holds (ts ! i)) = held ts + of_bool (holds t')"
  unfolding held_def by (rule sum_list_update_add)

lemma sees_own_grow:
  assumes "sees_own h t" "holds t \<Longrightarrow> x \<noteq> 0"
  shows "sees_own (h @ [x]) t"
  using assms by (auto simp: sees_own_def readable_def nth_append less_Suc_eq)

lemma reachable_balanced:
  assumes "reachable progs w" "list_all (balanced False) progs" "length progs < 2 ^ 64"
  shows "length (threads w) = length progs \<and> balanced_ok w"
  using assms(1)
proof (rule reachable_invariant)
  have "held (threads (start progs)) = 0"
    using assms(2) by (auto simp: held_def start_def list_all_iff holds_def balanced_head)
  moreover have "holds \<lparr> todo = p, pc = Idle, seen = 0, rets = [] \<rparr> = False" if "p \<in> set progs" for p
    using assms(2) that by (auto simp: list_all_iff holds_def balanced_head)
  ultimately show "length (threads (start progs)) = length progs \<and> balanced_ok (start progs)"
    using assms(2)
    by (auto simp: balanced_ok_def cell_def start_def counter_new_def sees_own_def balanced_thread_def
        list_all_iff)
next
  fix w :: world and i evs ws t'
  assume w: "reachable progs w" "i < length (threads w)"
    "length (threads w) = length progs \<and> balanced_ok w"
    and step: "thread_step (hist w) (threads w ! i) evs ws t'"
  let ?t = "threads w ! i" and ?ts = "(threads w)[i := t']"
  have t: "balanced_thread ?t" "sees_own (hist w) ?t" "hist w \<noteq> []"
    using w reachable_step_views(1) [OF w(1,2)] by (auto simp: balanced_ok_def)
  note * = thread_step_balanced [OF step t(1,2) reachable_step_views(2) [OF w(1,2)]]
  have small: "held ?ts < 2 ^ 64"
    using held_le [of ?ts] w(3) assms(3) by simp
  have new: "last (hist w @ ws) = of_nat (held ?ts)"
  proof -
    have eq: "last (hist w) = of_nat (held (threads w))"
      using w(3) by (simp add: balanced_ok_def cell_def)
    from * consider "ws = []" "holds t' = holds ?t" | "ws = [last (hist w) + 1]" "\<not> holds ?t" "holds t'"
      | "ws = [last (hist w) - 1]" "holds ?t" "\<not> holds t'"
      by blast
    then show ?thesis
      by cases (use held_update [OF w(2), of t'] eq in \<open>simp_all flip: of_nat_Suc add: algebra_simps\<close>)
  qed
  have pos: "of_nat (held ?ts) \<noteq> (0::u64)" if "t \<in> set ?ts" "holds t" for t
  proof -
    have "unat (of_nat (held ?ts) :: u64) = held ?ts"
      using small by (simp add: unat_of_nat)
    with held_pos [OF that] show ?thesis by (metis less_numeral_extra(3) unat_0)
  qed
  have own: "sees_own (hist w @ ws) t" if "t \<in> set ?ts" "t \<noteq> t'" for t
    using * sees_own_grow [of "hist w" t] w that pos [OF that(1)] new
    by (auto simp: balanced_ok_def dest!: set_update_subset_insert [THEN subsetD])
  have "sees_own (hist w @ ws) t'"
    using * t(2) pos [of t'] new w(2) by (auto simp: sees_own_def readable_def nth_append set_update_memI)
  then have all: "\<forall>t\<in>set ?ts. balanced_thread t \<and> sees_own (hist w @ ws) t"
    using own * w(3) by (auto simp: balanced_ok_def dest: set_update_subset_insert [THEN subsetD])
  show "length (threads (w\<lparr>hist := hist w @ ws, threads := ?ts, log := log w @ evs\<rparr>)) = length progs \<and>
    balanced_ok (w\<lparr>hist := hist w @ ws, threads := ?ts, log := log w @ evs\<rparr>)"
    using all new * w(3) by (simp add: balanced_ok_def cell_def)
qed

lemma all_done_held: "all_done w \<Longrightarrow> held (threads w) = 0"
  by (auto simp: all_done_def held_def holds_def list_all_iff)

subsection \<open>A call that runs alone is the sequential operation\<close>

primrec effect :: "call \<Rightarrow> u64 \<Rightarrow> u64 \<times> ret" where
  "effect (Increment mx) c = apsnd Incremented (increment mx c)"
| "effect Decrement c = apsnd Decremented (decrement c)"

definition thread_run :: "u64 list \<times> thread \<Rightarrow> u64 list \<times> thread \<Rightarrow> bool" where
  "thread_run a b \<longleftrightarrow> (\<exists>evs ws. thread_step (fst a) (snd a) evs ws (snd b) \<and> fst b = fst a @ ws)"

lemma thread_runI: "thread_step h t evs ws t' \<Longrightarrow> h' = h @ ws \<Longrightarrow> thread_run (h, t) (h', t')"
  by (auto simp: thread_run_def)

lemma readable_last: "seen t < length h \<Longrightarrow> readable h t (length h - 1)"
  by (auto simp: readable_def)

lemma goto_simps [simp]:
  "pc (goto j p t) = p" "seen (goto j p t) = j" "finish j r (goto i p t) = finish j r t"
  "goto j p (goto i q t) = goto j p t"
  by (simp_all add: goto_def finish_def)

lemma alone_increment:
  assumes "pc t = entry (Increment mx)" "seen t < length h"
  shows "\<exists>h' j. thread_run\<^sup>*\<^sup>* (h, t) (h', finish j (Incremented (snd (increment mx (last h)))) t) \<and>
    last h' = fst (increment mx (last h))"
proof -
  have last: "h ! (length h - 1) = last h"
    using assms(2) by (subst last_conv_nth) auto
  note r = readable_last [OF assms(2)]
  consider (uncapped) "mx = None" | (refused) l where "mx = Some l" "l \<le> last h"
    | (won) l where "mx = Some l" "last h < l"
    by (cases mx) (auto simp: not_le [symmetric])
  then show ?thesis
  proof cases
    case uncapped
    then have "thread_run (h, t) (h @ [last h + 1], finish (length h) (Incremented (Inr (last h + 1))) t)"
      using thread_runI [OF fetch_add [of t h] refl] assms(1) by simp
    with uncapped show ?thesis
      by (intro exI [of _ "h @ [last h + 1]"] exI [of _ "length h"]) (simp add: increment_def)
  next
    case refused
    then show ?thesis
      using thread_runI [OF inc_load_refused [OF _ r, of l] refl] assms(1) last
      by (auto simp: increment_def)
  next
    case won
    let ?t = "goto (length h - 1) (IncCas l (last h)) t"
    have "thread_run (h, t) (h, ?t)"
      using thread_runI [OF inc_load [OF _ r, of l] refl] assms(1) last won by simp
    moreover have "thread_run (h, ?t) (h @ [last h + 1], finish (length h) (Incremented (Inr (last h + 1))) t)"
      using thread_runI [OF inc_cas [of ?t l "last h" h] refl] by simp
    ultimately have "thread_run\<^sup>*\<^sup>* (h, t) (h @ [last h + 1], finish (length h) (Incremented (Inr (last h + 1))) t)"
      by (meson converse_rtranclp_into_rtranclp r_into_rtranclp)
    with won show ?thesis
      by (auto simp: increment_def)
  qed
qed

lemma alone_read:
  assumes "pc t = DecRead" "seen t < length h"
  shows "thread_run (h, t) (h, finish (length h - 1) (Decremented (last h)) t)"
proof -
  have "h ! (length h - 1) = last h"
    using assms(2) by (subst last_conv_nth) auto
  then show ?thesis
    using thread_runI [OF dec_read [OF assms(1) readable_last [OF assms(2)]] refl] by simp
qed

lemma alone_decrement:
  assumes "pc t = DecLoad" "seen t < length h"
  shows "\<exists>h' j. thread_run\<^sup>*\<^sup>* (h, t) (h', finish j (Decremented (snd (decrement (last h)))) t) \<and>
    last h' = fst (decrement (last h))"
proof (cases "last h = 0")
  case True
  let ?n = "length h - 1"
  have last: "h ! ?n = last h" and n: "?n < length h"
    using assms(2) by (subst last_conv_nth, auto)
  have "thread_run (h, t) (h, goto ?n DecRead t)"
    using thread_runI [OF dec_load_zero [OF assms(1) readable_last [OF assms(2)]] refl] last True by simp
  moreover have "thread_run (h, goto ?n DecRead t) (h, finish ?n (Decremented (last h)) t)"
    using alone_read [of "goto ?n DecRead t" h] n by simp
  ultimately have "thread_run\<^sup>*\<^sup>* (h, t) (h, finish ?n (Decremented (last h)) t)"
    by (meson converse_rtranclp_into_rtranclp r_into_rtranclp)
  with True show ?thesis
    by (auto simp: decrement_def)
next
  case False
  let ?n = "length h - 1" and ?h = "h @ [last h - 1]"
  have last: "h ! ?n = last h"
    using assms(2) by (subst last_conv_nth) auto
  have 1: "thread_run (h, t) (h, goto ?n (DecCas (last h)) t)"
    using thread_runI [OF dec_load [OF assms(1) readable_last [OF assms(2)]] refl] last False by simp
  have 2: "thread_run (h, goto ?n (DecCas (last h)) t) (?h, goto (length h) DecRead t)"
    using thread_runI [OF dec_cas [of "goto ?n (DecCas (last h)) t" "last h" h] refl] by simp
  have 3: "thread_run (?h, goto (length h) DecRead t) (?h, finish (length h) (Decremented (last h - 1)) t)"
    using alone_read [of "goto (length h) DecRead t" ?h] by simp
  from 1 2 3 have "thread_run\<^sup>*\<^sup>* (h, t) (?h, finish (length h) (Decremented (last h - 1)) t)"
    by (meson converse_rtranclp_into_rtranclp r_into_rtranclp)
  with False show ?thesis
    by (auto simp: decrement_def Let_def)
qed

lemma call_alone:
  assumes "pc t = Idle" "todo t = k # ks" "seen t < length h"
  shows "\<exists>h' j. thread_run\<^sup>*\<^sup>* (h, t) (h', finish j (snd (effect k (last h))) (t\<lparr>todo := ks, pc := entry k\<rparr>)) \<and>
    last h' = fst (effect k (last h))"
proof -
  let ?t = "t\<lparr>todo := ks, pc := entry k\<rparr>"
  have first: "thread_run (h, t) (h, ?t)"
    using begin_call [OF assms(1,2)] by (rule thread_runI) simp
  have "\<exists>h' j. thread_run\<^sup>*\<^sup>* (h, ?t) (h', finish j (snd (effect k (last h))) ?t) \<and>
      last h' = fst (effect k (last h))"
  proof (cases k)
    case (Increment mx)
    then show ?thesis
      using alone_increment [of ?t mx h] assms(3) by (simp del: entry.simps(1))
  next
    case Decrement
    then show ?thesis
      using alone_decrement [of ?t h] assms(3) by simp
  qed
  with first show ?thesis
    by (blast intro: converse_rtranclp_into_rtranclp)
qed

text \<open>
  A thread that has seen the newest value has no choice: whatever it does on its own, its call is on its
  way to the result \<open>e\<close> of the sequential operation. (Afterwards it may begin its next call.)
\<close>

definition on_course :: "call \<Rightarrow> call list \<Rightarrow> ret list \<Rightarrow> u64 \<Rightarrow> u64 list \<Rightarrow> thread \<Rightarrow> bool" where
  "on_course k ks old c h t \<longleftrightarrow> h \<noteq> [] \<and> seen t = length h - 1 \<and> todo t = ks \<and>
     (case pc t of
        Idle \<Rightarrow> last h = fst (effect k c) \<and> rets t = old @ [snd (effect k c)]
      | IncAdd \<Rightarrow> rets t = old \<and> k = Increment None \<and> last h = c
      | IncLoad l \<Rightarrow> rets t = old \<and> k = Increment (Some l) \<and> last h = c
      | IncCas l v \<Rightarrow> rets t = old \<and> k = Increment (Some l) \<and> last h = c \<and> v = c \<and> c < l
      | DecLoad \<Rightarrow> rets t = old \<and> k = Decrement \<and> last h = c
      | DecCas v \<Rightarrow> rets t = old \<and> k = Decrement \<and> last h = c \<and> v = c \<and> c \<noteq> 0
      | DecRead \<Rightarrow> rets t = old \<and> k = Decrement \<and> last h = fst (decrement c))"

lemma readable_newest:
  assumes "h \<noteq> []" "seen t = length h - 1" "readable h t j"
  shows "j = length h - 1 \<and> h ! j = last h"
proof -
  from assms(2,3) have "j = length h - 1" unfolding readable_def by linarith
  with assms(1) show ?thesis by (simp add: last_conv_nth)
qed

lemma on_course_begins:
  "h \<noteq> [] \<Longrightarrow> seen t = length h - 1 \<Longrightarrow>
   on_course k ks (rets t) (last h) h (t\<lparr>todo := ks, pc := entry k\<rparr>)"
  by (cases k) (simp_all add: on_course_def split: option.split)

lemma on_course_step:
  assumes "on_course k ks old c h t" "thread_step h t evs ws t'"
  shows "length (todo t') < length ks \<or> on_course k ks old c (h @ ws) t'"
proof -
  have new: "h \<noteq> []" "seen t = length h - 1" and todo: "todo t = ks"
    using assms(1) by (simp_all add: on_course_def)
  note newest = readable_newest [OF new]
  from assms(2) show ?thesis
  proof (cases rule: thread_step.cases)
    case (begin_call k' ks')
    then show ?thesis using todo by simp
  qed (use assms(1) newest in \<open>auto simp: on_course_def goto_def finish_def increment_def decrement_def Let_def\<close>)
qed

lemma thread_run_todo: "thread_run a b \<Longrightarrow> length (todo (snd b)) \<le> length (todo (snd a))"
  by (auto simp: thread_run_def thread_defs elim!: thread_stepE)

lemma on_course_run:
  assumes "thread_run\<^sup>*\<^sup>* (h, t) (h', t')" "length (todo t) < length ks \<or> on_course k ks old c h t"
  shows "length (todo t') < length ks \<or> on_course k ks old c h' t'"
  using assms
proof (induction "(h', t')" arbitrary: h' t' rule: rtranclp_induct)
  case (step b)
  obtain h1 t1 where b: "b = (h1, t1)" by (cases b)
  from step.hyps(2) obtain evs ws where s: "thread_step h1 t1 evs ws t'" "h' = h1 @ ws"
    by (auto simp: thread_run_def b)
  from step.hyps(3) [OF b step.prems] show ?case
    using on_course_step [OF _ s(1)] thread_run_todo [OF step.hyps(2)] s(2) b by fastforce
qed simp

lemma call_on_course:
  assumes "pc t = Idle" "todo t = k # ks" "h \<noteq> []" "seen t = length h - 1"
    and "thread_run\<^sup>*\<^sup>* (h, t) (h', t')" "pc t' = Idle" "todo t' = ks"
  shows "last h' = fst (effect k (last h)) \<and> rets t' = rets t @ [snd (effect k (last h))]"
proof -
  from assms(5) obtain b where first: "thread_run (h, t) b" and rest: "thread_run\<^sup>*\<^sup>* b (h', t')"
    using assms(2,7) by (auto elim: converse_rtranclpE)
  then have "b = (h, t\<lparr>todo := ks, pc := entry k\<rparr>)"
    using assms(1,2) by (cases b) (auto simp: thread_run_def elim!: thread_stepE)
  with on_course_run [of h "t\<lparr>todo := ks, pc := entry k\<rparr>" h' t' ks k "rets t" "last h"] rest
    on_course_begins [OF assms(3,4)] assms(6,7)
  show ?thesis by (simp add: on_course_def)
qed

text \<open>The run of one thread, in the world.\<close>

lemma thread_run_world:
  assumes "thread_run\<^sup>*\<^sup>* (hist w, threads w ! i) (h', t')" "i < length (threads w)"
  shows "\<exists>w'. world_step\<^sup>*\<^sup>* w w' \<and> hist w' = h' \<and> threads w' = (threads w)[i := t']"
  using assms(1)
proof (induction "(h', t')" arbitrary: h' t' rule: rtranclp_induct)
  case base
  then show ?case by (intro exI [of _ w]) simp
next
  case (step b)
  obtain h t where b: "b = (h, t)" by (cases b)
  then obtain v where v: "world_step\<^sup>*\<^sup>* w v" "hist v = h" "threads v = (threads w)[i := t]"
    using step.hyps(3) by blast
  from step.hyps(2) obtain evs ws where "thread_step h t evs ws t'" "h' = h @ ws"
    by (auto simp: thread_run_def b)
  then have "world_step v (v\<lparr>hist := hist v @ ws, threads := (threads v)[i := t'], log := log v @ evs\<rparr>)"
    using v assms(2) by (intro world_step.thread) simp_all
  with v \<open>h' = h @ ws\<close> show ?case
    by (intro exI [of _ "v\<lparr>hist := hist v @ ws, threads := (threads v)[i := t'], log := log v @ evs\<rparr>"])
      (simp add: rtranclp.rtrancl_into_rtrancl)
qed

section \<open>Schedules\<close>

text \<open>
  An executable scheduler, for concrete runs: thread \<open>i\<close> makes its next access and, where the
  access is a load, reads the value at index \<open>j\<close> of the history (an index past its end stands
  for the attempt of a compare-exchange). It makes steps of the relation only.
\<close>

definition exec_thread :: "u64 list \<Rightarrow> thread \<Rightarrow> nat \<Rightarrow> (event list \<times> u64 list \<times> thread) option" where
  "exec_thread h t j = (case pc t of
      Idle \<Rightarrow> (case todo t of [] \<Rightarrow> None | k # ks \<Rightarrow> Some ([], [], t\<lparr>todo := ks, pc := entry k\<rparr>))
    | IncAdd \<Rightarrow> Some ([Won], [last h + 1], finish (length h) (Incremented (Inr (last h + 1))) t)
    | IncLoad limit \<Rightarrow>
        if \<not> readable h t j then None
        else if limit \<le> h ! j then Some ([Refused], [], finish j (Incremented (Inl TooManyConnections)) t)
        else Some ([], [], goto j (IncCas limit (h ! j)) t)
    | IncCas limit v \<Rightarrow>
        if length h \<le> j \<and> last h = v
        then Some ([Won], [v + 1], finish (length h) (Incremented (Inr (v + 1))) t)
        else if readable h t j \<and> h ! j \<noteq> v then Some ([], [], goto j (IncLoad limit) t)
        else None
    | DecLoad \<Rightarrow>
        if \<not> readable h t j then None
        else if h ! j = 0 then Some ([Saturated], [], goto j DecRead t)
        else Some ([], [], goto j (DecCas (h ! j)) t)
    | DecCas v \<Rightarrow>
        if length h \<le> j \<and> last h = v then Some ([Taken], [v - 1], goto (length h) DecRead t)
        else if \<not> readable h t j then None
        else if h ! j = 0 then Some ([Saturated], [], goto j DecRead t)
        else Some ([], [], goto j (DecCas (h ! j)) t)
    | DecRead \<Rightarrow> if readable h t j then Some ([], [], finish j (Decremented (h ! j)) t) else None)"

lemma exec_thread_sound: "exec_thread h t j = Some (evs, ws, t') \<Longrightarrow> thread_step h t evs ws t'"
  by (cases "pc t")
    (auto simp: exec_thread_def thread_step.intros split: list.splits if_splits)

definition exec_step :: "nat \<times> nat \<Rightarrow> world \<Rightarrow> world" where
  "exec_step ij w =
     (if fst ij < length (threads w)
      then case exec_thread (hist w) (threads w ! fst ij) (snd ij) of
             None \<Rightarrow> w
           | Some (evs, ws, t') \<Rightarrow>
               w\<lparr>hist := hist w @ ws, threads := (threads w)[fst ij := t'], log := log w @ evs\<rparr>
      else w)"

definition exec :: "(nat \<times> nat) list \<Rightarrow> call list list \<Rightarrow> world" where
  "exec sched progs = fold exec_step sched (start progs)"

lemma exec_step_reachable: "reachable progs w \<Longrightarrow> reachable progs (exec_step ij w)"
  unfolding exec_step_def
  by (auto split: option.split intro: reachable.step world_step.thread exec_thread_sound)

lemma exec_reachable: "reachable progs (exec sched progs)"
proof -
  have "reachable progs w \<Longrightarrow> reachable progs (fold exec_step sched w)" for w
    by (induction sched arbitrary: w) (simp_all add: exec_step_reachable)
  then show ?thesis
    by (simp add: exec_def reachable.start)
qed

lemmas run_defs = exec_def exec_step_def exec_thread_def start_def counter_new_def thread_defs
  cell_def all_done_def successes_def takes_def word_le_nat_alt word_less_nat_alt

section \<open>Properties\<close>

text \<open>C1 When every increment of every thread is capped by a limit that is at most \<open>limit\<close>, the
  count exceeds \<open>limit\<close> at no moment of any interleaving, whatever relaxed loads return and
  however the threads decrement.\<close>

theorem capped_count_never_exceeds:
  assumes "reachable progs w" "list_all (list_all (capped_call limit)) progs"
  shows
    "(\<forall>v\<in>set (hist w). v \<le> limit) \<and>
     (counter_get (cell w) \<le> limit)"
  using reachable_capped [OF assms] reachable_views [OF assms(1)]
  by (simp_all add: cell_def views_ok_def counter_get_def)

theorem capped_count_never_exceeds_witness:
  "counter_get (cell (exec [(0, 0), (1, 0), (0, 0), (1, 0), (1, 1), (0, 1)]
      [[Increment (Some 1)], [Increment (Some 1), Decrement]])) \<le> 1"
  by (rule capped_count_never_exceeds [OF exec_reachable, THEN conjunct2]) code_simp

text \<open>C15 No update is lost: at every moment of every interleaving the count is the number of
  increments that returned \<open>Ok\<close> minus the number of decrements that took one (which are never
  more), as long as fewer than \<open>2 ^ 64\<close> calls are made.\<close>

theorem count_is_successes_minus_takes:
  assumes "reachable progs w" "sum_list (map length progs) < 2 ^ 64"
  shows "unat (cell w) + takes w = successes w"
  using reachable_count [OF assms] reachable_successes [OF assms(1)] by simp

theorem count_is_successes_minus_takes_witness:
  "(let w = exec [(0, 0), (0, 0), (1, 0), (1, 0), (1, 0), (1, 2), (1, 3), (1, 3)]
        [[Increment None], [Increment None, Decrement]]
    in unat (cell w) + takes w = successes w \<and> takes w = 1 \<and> successes w = 2)"
  unfolding Let_def
  by (intro conjI, rule count_is_successes_minus_takes [OF exec_reachable]; simp add: run_defs)

text \<open>C9 When any number of threads race with increments capped by the same limit and all calls
  have returned, the number of winners is the limit or the number of calls, whichever is smaller,
  the count is that number, and all other calls got \<open>TooManyConnections\<close>: the compare-exchange
  loop neither overshoots nor refuses a call while there is room.\<close>

theorem race_has_exact_winners:
  assumes "reachable progs w" "all_done w" "sum_list (map length progs) < 2 ^ 64"
    and "list_all (list_all (\<lambda>k. k = Increment (Some limit))) progs"
  shows
    "(successes w = min (unat limit) (sum_list (map length progs))) \<and>
     (unat (cell w) = successes w)"
  using race_result [OF assms] reachable_successes [OF assms(1)] by simp_all

theorem race_has_exact_winners_witness:
  "successes (exec [(0, 0), (1, 0), (2, 0), (0, 0), (1, 0), (2, 0), (0, 9), (1, 0), (1, 1), (1, 0),
        (1, 1), (1, 9), (2, 1), (2, 2)]
      [[Increment (Some 2)], [Increment (Some 2)], [Increment (Some 2)]]) = 2"
proof -
  have "min (unat (2::usize)) (sum_list (map length [[Increment (Some (2::usize))],
      [Increment (Some 2)], [Increment (Some 2)]])) = 2"
    by code_simp
  then show ?thesis
    by (rule race_has_exact_winners [OF exec_reachable, where limit = 2, THEN conjunct1, THEN trans, rotated -1];
      simp add: run_defs)
qed

text \<open>C27 When every thread runs increment and decrement pairs, no decrement ever saturates, the count
  is the number of open increments at every moment of every interleaving, and it is back at zero
  when all calls have returned: a decrement always sees its own thread's increment.\<close>

theorem balanced_pairs_return_to_zero:
  assumes "reachable progs w" "list_all (balanced False) progs" "length progs < 2 ^ 64"
  shows
    "(cell w = of_nat (held (threads w))) \<and>
     (Saturated \<notin> set (log w)) \<and>
     (all_done w \<longrightarrow> cell w = 0)"
  using reachable_balanced [OF assms] all_done_held [of w] by (auto simp: balanced_ok_def)

theorem balanced_pairs_return_to_zero_witness:
  "(let w = exec [(0, 0), (1, 0), (1, 0), (1, 0), (0, 0), (1, 2), (1, 3), (1, 3), (0, 0), (0, 3), (0, 9), (0, 4)]
        [[Increment None, Decrement], [Increment None, Decrement]]
    in cell w = 0 \<and> all_done w)"
  unfolding Let_def
  by (intro conjI, rule balanced_pairs_return_to_zero [OF exec_reachable, THEN conjunct2, THEN conjunct2, rule_format];
      simp add: run_defs)

text \<open>C28 The loops can return, and the concurrent operations refine the sequential ones: from any
  reachable world, a call can make its accesses without interference so that it returns the result
  of the sequential operation on the current count and leaves the sequential operation's count.
  When its thread has seen the newest value of the counter, every undisturbed run that returns does
  so; a thread that has not may read an older count first.\<close>

theorem call_alone_refines_sequential:
  assumes "reachable progs w" "i < length (threads w)"
    and "pc (threads w ! i) = Idle" "todo (threads w ! i) = k # ks"
  shows "(\<exists>w' j. world_step\<^sup>*\<^sup>* w w' \<and> cell w' = fst (effect k (cell w)) \<and>
    threads w' = (threads w)[i :=
      finish j (snd (effect k (cell w))) ((threads w ! i)\<lparr>todo := ks, pc := entry k\<rparr>)]) \<and>
    (seen (threads w ! i) = length (hist w) - 1 \<longrightarrow>
      (\<forall>h' t'. thread_run\<^sup>*\<^sup>* (hist w, threads w ! i) (h', t') \<and> pc t' = Idle \<and> todo t' = ks \<longrightarrow>
         last h' = fst (effect k (cell w)) \<and> rets t' = rets (threads w ! i) @ [snd (effect k (cell w))]))"
proof
  show "\<exists>w' j. world_step\<^sup>*\<^sup>* w w' \<and> cell w' = fst (effect k (cell w)) \<and>
    threads w' = (threads w)[i :=
      finish j (snd (effect k (cell w))) ((threads w ! i)\<lparr>todo := ks, pc := entry k\<rparr>)]"
    using call_alone [OF assms(3,4) reachable_step_views(2) [OF assms(1,2)]]
      thread_run_world [OF _ assms(2)] unfolding cell_def by metis
  show "seen (threads w ! i) = length (hist w) - 1 \<longrightarrow>
      (\<forall>h' t'. thread_run\<^sup>*\<^sup>* (hist w, threads w ! i) (h', t') \<and> pc t' = Idle \<and> todo t' = ks \<longrightarrow>
         last h' = fst (effect k (cell w)) \<and> rets t' = rets (threads w ! i) @ [snd (effect k (cell w))])"
    using call_on_course [OF assms(3,4) reachable_step_views(1) [OF assms(1,2)]] unfolding cell_def by blast
qed

theorem call_alone_refines_sequential_witness:
  "\<exists>w' j. world_step\<^sup>*\<^sup>* (start [[Increment (Some 5)]]) w' \<and> cell w' = 1 \<and>
     threads w' = [\<lparr> todo = [], pc = Idle, seen = j, rets = [Incremented (Inr 1)] \<rparr>]"
  using call_alone_refines_sequential [OF reachable.start, of 0 "[[Increment (Some 5)]]" "Increment (Some 5)" "[]"]
  by (simp add: start_def cell_def counter_new_def increment_def finish_def)

end
