(* ===== verification/Counter_Progress.thy ===== *)
theory Counter_Progress
  imports Conn_Counter
begin

text \<open>
  \<open>src/counter.rs\<close>: the retry loops of \<open>increment\<close> and \<open>decrement\<close> end under every schedule, as far as
  it is not kept up by spurious failures. A
  compare-exchange that fails on another value has read a newer one, so a thread retries at most once
  per write of the run, and there are no more writes than calls. The measure adds, over the threads,
  the unseen part of the longest possible history, the calls to come and the distance to the end of
  the current call. The compare-exchange of \<open>fetch_update\<close> is the weak one and may also fail on the
  expected value; these spurious failures are counted apart and not bounded.
\<close>

text \<open>A thread that holds a loaded value holds the last one it has seen.\<close>

definition holds_seen :: "u64 list \<Rightarrow> thread \<Rightarrow> bool" where
  "holds_seen h t \<longleftrightarrow> (case pc t of IncCas limit v \<Rightarrow> h ! seen t = v | DecCas v \<Rightarrow> h ! seen t = v | _ \<Rightarrow> True)"

lemma holds_seen_grows: "holds_seen h t \<Longrightarrow> seen t < length h \<Longrightarrow> holds_seen (h @ ws) t"
  by (cases "pc t") (simp_all add: holds_seen_def nth_append)

lemma holds_seen_entry: "holds_seen h (t\<lparr>todo := ks, pc := entry k\<rparr>)"
  by (cases k) (auto simp: holds_seen_def split: option.split)

lemma thread_step_holds_seen: "thread_step h t evs ws t' \<Longrightarrow> holds_seen (h @ ws) t'"
  by (erule thread_stepE; (simp only: holds_seen_entry)?)
    (simp_all add: thread_defs holds_seen_def nth_append)

lemma reachable_holds_seen: "reachable progs w \<Longrightarrow> \<forall>t\<in>set (threads w). holds_seen (hist w) t"
proof (erule reachable_invariant)
  show "\<forall>t\<in>set (threads (start progs)). holds_seen (hist (start progs)) t"
    by (simp add: start_def holds_seen_def)
next
  fix w :: world and i evs ws t'
  assume w: "reachable progs w" "\<forall>t\<in>set (threads w). holds_seen (hist w) t"
    and step: "thread_step (hist w) (threads w ! i) evs ws t'"
  have "holds_seen (hist w @ ws) t" if "t \<in> set (threads w)" for t
    using that w(2) reachable_views [OF w(1)] by (simp add: views_ok_def holds_seen_grows)
  with thread_step_holds_seen [OF step]
  show "\<forall>t\<in>set (threads (w\<lparr>hist := hist w @ ws, threads := (threads w)[i := t'], log := log w @ evs\<rparr>)).
      holds_seen (hist (w\<lparr>hist := hist w @ ws, threads := (threads w)[i := t'], log := log w @ evs\<rparr>)) t"
    by (auto dest!: set_update_subset_insert [THEN subsetD])
qed

text \<open>The history is no longer than the calls allow.\<close>

lemma thread_step_write_events: "thread_step h t evs ws t' \<Longrightarrow> length ws \<le> length evs"
  by (erule thread_stepE) simp_all

lemma reachable_history:
  assumes "reachable progs w"
  shows "length (hist w) \<le> Suc (sum_list (map length progs))"
proof -
  have "length (hist w) \<le> Suc (length (log w))"
    using assms
  proof (rule reachable_invariant)
    show "length (hist (start progs)) \<le> Suc (length (log (start progs)))"
      by (simp add: start_def)
  qed (auto dest!: thread_step_write_events)
  with reachable_pending [OF assms] show ?thesis by simp
qed

primrec distance :: "pc \<Rightarrow> nat" where
  "distance Idle = 0"
| "distance IncAdd = 1"
| "distance (IncLoad _) = 2"
| "distance (IncCas _ _) = 1"
| "distance DecLoad = 3"
| "distance (DecCas _) = 2"
| "distance DecRead = 1"

definition work :: "nat \<Rightarrow> thread \<Rightarrow> nat" where
  "work n t = 2 * (n - seen t) + 4 * length (todo t) + distance (pc t)"

lemma distance_entry: "distance (entry k) < 4"
  by (cases k) (simp_all split: option.split)

definition spurious :: "thread \<Rightarrow> thread \<Rightarrow> bool" where
  "spurious t t' \<longleftrightarrow> (case (pc t, pc t') of (DecCas v, DecCas v') \<Rightarrow> v = v' | _ \<Rightarrow> False)"

lemma thread_step_work:
  assumes "thread_step h t evs ws t'" "holds_seen h t" "seen t < length h" "length (h @ ws) \<le> n"
  shows "work n t' + (if spurious t t' then 0 else 1) \<le> work n t"
proof -
  have newer: "readable h t j \<Longrightarrow> h ! j \<noteq> h ! seen t \<Longrightarrow> seen t < j \<and> j < n" for j
    using assms(4) by (auto simp: readable_def le_eq_less_or_eq)
  from assms(1) show ?thesis
  proof (cases rule: thread_step.cases)
    case (begin_call k ks)
    then show ?thesis using distance_entry [of k] by (simp add: work_def)
  next
    case (inc_cas_failed limit v j)
    then have "seen t < j" "j < n"
      using newer assms(2) by (simp_all add: holds_seen_def)
    then have "Suc (2 * (n - j)) < 2 * (n - seen t)" by linarith
    with inc_cas_failed show ?thesis by (simp add: work_def goto_def)
  next
    case (dec_cas_failed v j)
    show ?thesis
    proof (cases "h ! j = v")
      case True
      with dec_cas_failed show ?thesis by (auto simp: work_def goto_def spurious_def readable_def)
    next
      case False
      then have "seen t < j" "j < n"
        using newer dec_cas_failed assms(2) by (simp_all add: holds_seen_def)
      then have "Suc (2 * (n - j)) \<le> 2 * (n - seen t)" "n - j \<le> n - seen t" by linarith+
      with dec_cas_failed show ?thesis by (simp add: work_def goto_def)
    qed
  qed (use assms(3,4) in \<open>auto simp: work_def thread_defs\<close>)
qed

text \<open>A run with \<open>k\<close> accesses and, besides them, \<open>f\<close> spurious failures.\<close>

inductive counted :: "call list list \<Rightarrow> nat \<Rightarrow> nat \<Rightarrow> world \<Rightarrow> bool" for progs where
  none: "counted progs 0 0 (start progs)"
| access: "counted progs k f w \<Longrightarrow> i < length (threads w) \<Longrightarrow>
    thread_step (hist w) (threads w ! i) evs ws t' \<Longrightarrow> \<not> spurious (threads w ! i) t' \<Longrightarrow>
    counted progs (Suc k) f (w\<lparr>hist := hist w @ ws, threads := (threads w)[i := t'], log := log w @ evs\<rparr>)"
| failure: "counted progs k f w \<Longrightarrow> i < length (threads w) \<Longrightarrow>
    thread_step (hist w) (threads w ! i) evs ws t' \<Longrightarrow> spurious (threads w ! i) t' \<Longrightarrow>
    counted progs k (Suc f) (w\<lparr>hist := hist w @ ws, threads := (threads w)[i := t'], log := log w @ evs\<rparr>)"

lemma counted_reachable: "counted progs k f w \<Longrightarrow> reachable progs w"
  by (induction rule: counted.induct) (blast intro: reachable.intros world_step.thread)+

lemma reachable_counted: "reachable progs w \<Longrightarrow> \<exists>k f. counted progs k f w"
proof (induction rule: reachable.induct)
  case (step w w')
  from step.hyps(2) step.IH show ?case
    by (cases; metis counted.access counted.failure)
qed (blast intro: counted.none)

lemma reachable_step_work:
  assumes "reachable progs w" "i < length (threads w)" "thread_step (hist w) (threads w ! i) evs ws t'"
  defines "n \<equiv> Suc (sum_list (map length progs))"
  shows "sum_list (map (work n) ((threads w)[i := t'])) + (if spurious (threads w ! i) t' then 0 else 1) \<le>
    sum_list (map (work n) (threads w))"
proof -
  have "length (hist w @ ws) \<le> n"
    using reachable_history [OF reachable.step [OF assms(1) world_step.thread [OF assms(2,3)]]]
    by (simp add: n_def)
  then have "work n t' + (if spurious (threads w ! i) t' then 0 else 1) \<le> work n (threads w ! i)"
    using thread_step_work [OF assms(3)] reachable_holds_seen [OF assms(1)]
      reachable_step_views(2) [OF assms(1,2)] assms(2) by simp
  with sum_list_update_add [OF assms(2), of "work n" t'] show ?thesis by simp
qed

lemma counted_bounded:
  assumes "counted progs k f w"
  defines "n \<equiv> Suc (sum_list (map length progs))"
  shows "k + sum_list (map (work n) (threads w)) \<le> sum_list (map (work n) (threads (start progs)))"
  using assms(1)
proof (induction rule: counted.induct)
  case (access k f w i evs ws t')
  with reachable_step_work [OF counted_reachable [OF access.hyps(1)] access.hyps(2,3)] show ?case
    by (simp add: n_def)
next
  case (failure k f w i evs ws t')
  with reachable_step_work [OF counted_reachable [OF failure.hyps(1)] failure.hyps(2,3)] show ?case
    by (simp add: n_def)
qed simp

lemma start_work:
  "sum_list (map (work n) (threads (start progs))) = 2 * n * length progs + 4 * sum_list (map length progs)"
  by (induction progs) (simp_all add: start_def work_def)

text \<open>A thread that has not finished can always take a step.\<close>

lemma thread_can_step:
  assumes "h \<noteq> []" "seen t < length h" "pc t \<noteq> Idle \<or> todo t \<noteq> []"
  shows "\<exists>evs ws t'. thread_step h t evs ws t' \<and> \<not> spurious t t'"
proof -
  let ?j = "length h - 1"
  have j: "readable h t ?j" "h ! ?j = last h"
    using assms(1,2) by (auto simp: readable_def last_conv_nth)
  have step: "\<exists>evs ws t'. thread_step h t evs ws t'" if "\<And>v. pc t \<noteq> DecCas v"
  proof (cases "pc t")
    case Idle
    with assms(3) show ?thesis by (cases "todo t") (auto intro: thread_step.begin_call)
  next
    case IncAdd
    then show ?thesis by (blast intro: thread_step.fetch_add)
  next
    case (IncLoad limit)
    then show ?thesis
      using j(1) by (cases "limit \<le> h ! ?j") (metis not_le thread_step.inc_load thread_step.inc_load_refused)+
  next
    case (IncCas limit v)
    then show ?thesis using j by (cases "last h = v") (metis thread_step.inc_cas thread_step.inc_cas_failed)+
  next
    case DecLoad
    then show ?thesis
      using j(1) by (cases "h ! ?j = 0") (metis thread_step.dec_load thread_step.dec_load_zero)+
  next
    case DecRead
    then show ?thesis using j(1) by (blast intro: thread_step.dec_read)
  qed (use that in blast)
  show ?thesis
  proof (cases "\<exists>v. pc t = DecCas v")
    case False
    then have "\<not> spurious t t'" for t' by (simp add: spurious_def split: pc.split)
    with step False show ?thesis by blast
  next
    case True
    then obtain v where v: "pc t = DecCas v" ..
    consider "last h = v" | "last h \<noteq> v" "last h = 0" | "last h \<noteq> v" "last h \<noteq> 0" by blast
    then show ?thesis
    proof cases
      case 1
      from thread_step.dec_cas [OF v 1] show ?thesis
        by (intro exI conjI) (assumption | simp add: spurious_def goto_def split: pc.split)+
    next
      case 2
      with thread_step.dec_cas_failed_zero [OF v j(1)] j(2) show ?thesis
        by (intro exI conjI) (simp | simp add: spurious_def goto_def split: pc.split)+
    next
      case 3
      with thread_step.dec_cas_failed [OF v j(1)] j(2) v show ?thesis
        by (intro exI conjI) (simp | simp add: spurious_def goto_def split: pc.split)+
    qed
  qed
qed

lemma not_stuck:
  assumes "reachable progs w" "\<not> all_done w"
  shows "\<exists>i evs ws t'. i < length (threads w) \<and> thread_step (hist w) (threads w ! i) evs ws t' \<and>
    \<not> spurious (threads w ! i) t'"
proof -
  obtain i where i: "i < length (threads w)" "pc (threads w ! i) \<noteq> Idle \<or> todo (threads w ! i) \<noteq> []"
    using assms(2) by (auto simp: all_done_def list_all_length)
  from thread_can_step [OF reachable_step_views(1,2) [OF assms(1) i(1)] i(2)] i(1) show ?thesis
    by blast
qed

section \<open>Properties\<close>

text \<open>C16 Under every schedule, fair or not, only spurious failures of the weak compare-exchange in
  \<open>decrement\<close> can keep calls from returning: apart from these failures (which no program can
  bound, and which \<open>f\<close> counts), a run of \<open>n\<close> calls in \<open>T\<close> threads makes at most
  \<open>2 T (n + 1) + 4 n\<close> atomic accesses, and as long as a call has not returned, an access that is
  not such a failure is possible.\<close>

theorem calls_finish:
  assumes "counted progs k f w"
  shows "k \<le> 2 * length progs * (sum_list (map length progs) + 1) + 4 * sum_list (map length progs) \<and>
    (all_done w \<or> (\<exists>w'. world_step w w' \<and> counted progs (Suc k) f w'))"
proof -
  note reach = counted_reachable [OF assms]
  have "all_done w \<or> (\<exists>w'. world_step w w' \<and> counted progs (Suc k) f w')"
    using not_stuck [OF reach] by (metis assms counted.access world_step.thread)
  with counted_bounded [OF assms] show ?thesis
    by (simp add: start_work algebra_simps)
qed

theorem calls_finish_witness:
  "\<exists>w. world_step (start [[Decrement], [Increment (Some 1)]]) w \<and>
     counted [[Decrement], [Increment (Some 1)]] 1 0 w"
  using calls_finish [OF counted.none, of "[[Decrement], [Increment (Some 1)]]", THEN conjunct2]
  by (auto simp: all_done_def start_def)

end
