(* ===== verification/Loom_Models.thy ===== *)
theory Loom_Models
  imports Conn_Counter
begin

text \<open>
  \<open>src/loom_tests.rs\<close>: the four programs that the crate's loom tests explore, with what each test asserts
  after its threads have joined. Loom explores the interleavings up to a bound; here the assertions
  are theorems over all interleavings of the counter's accesses. A test is the list of the programs
  of its threads and the check the main thread makes on the final state.
\<close>

section \<open>Results of the calls\<close>

text \<open>\<open>Err(_) => panic!("unexpected error")\<close>: the only error is \<open>TooManyConnections\<close>.\<close>

definition no_other_error :: "world \<Rightarrow> bool" where
  "no_other_error w \<longleftrightarrow> list_all (\<lambda>t. list_all (\<lambda>r.
     case r of Incremented (Inl e) \<Rightarrow> e = TooManyConnections | _ \<Rightarrow> True) (rets t)) (threads w)"

text \<open>\<open>increment(..).unwrap()\<close> does not panic.\<close>

definition no_error :: "world \<Rightarrow> bool" where
  "no_error w \<longleftrightarrow> list_all (\<lambda>t. list_all (\<lambda>r.
     case r of Incremented (Inl e) \<Rightarrow> False | _ \<Rightarrow> True) (rets t)) (threads w)"

text \<open>The main thread's own calls, after the join.\<close>

definition teardown :: "nat \<Rightarrow> world \<Rightarrow> u64" where
  "teardown n w = ((\<lambda>c. fst (decrement c)) ^^ n) (cell w)"

lemma unat_teardown: "unat (teardown n w) = unat (cell w) - n"
  by (induction n) (simp_all add: teardown_def unat_decrement)

lemma reachable_no_other_error: "reachable progs w \<Longrightarrow> no_other_error w"
proof (erule reachable_invariant)
  show "no_other_error (start progs)"
    by (simp add: no_other_error_def start_def list_all_iff)
next
  fix w :: world and i evs ws t'
  assume w: "no_other_error w" "i < length (threads w)" "thread_step (hist w) (threads w ! i) evs ws t'"
  have "list_all (\<lambda>r. case r of Incremented (Inl e) \<Rightarrow> e = TooManyConnections | _ \<Rightarrow> True) (rets (threads w ! i))"
    using w(1,2) by (simp add: no_other_error_def list_all_length)
  with w(3) have "list_all (\<lambda>r. case r of Incremented (Inl e) \<Rightarrow> e = TooManyConnections | _ \<Rightarrow> True) (rets t')"
    by (auto elim!: thread_stepE simp: thread_defs)
  with w(1) show "no_other_error (w\<lparr>hist := hist w @ ws, threads := (threads w)[i := t'], log := log w @ evs\<rparr>)"
    by (auto simp: no_other_error_def list_all_iff dest!: set_update_subset_insert [THEN subsetD])
qed

definition uncapped :: "thread \<Rightarrow> bool" where
  "uncapped t \<longleftrightarrow> list_all (\<lambda>k. k = Increment None \<or> k = Decrement) (todo t) \<and>
     (case pc t of IncLoad _ \<Rightarrow> False | IncCas _ _ \<Rightarrow> False | _ \<Rightarrow> True) \<and>
     list_all (\<lambda>r. case r of Incremented (Inl e) \<Rightarrow> False | _ \<Rightarrow> True) (rets t)"

lemma reachable_no_error:
  assumes "reachable progs w" "list_all (list_all (\<lambda>k. k = Increment None \<or> k = Decrement)) progs"
  shows "no_error w"
proof -
  have "list_all uncapped (threads w)"
    using assms(1)
  proof (rule reachable_invariant)
    show "list_all uncapped (threads (start progs))"
      using assms(2) by (simp add: start_def list_all_iff uncapped_def)
  next
    fix w :: world and i evs ws t'
    assume w: "list_all uncapped (threads w)" "i < length (threads w)"
      "thread_step (hist w) (threads w ! i) evs ws t'"
    then have "uncapped (threads w ! i)" by (simp add: list_all_length)
    with w(3) have "uncapped t'"
      by (auto elim!: thread_stepE simp: thread_defs uncapped_def)
    with w(1) show "list_all uncapped (threads (w\<lparr>hist := hist w @ ws, threads := (threads w)[i := t'], log := log w @ evs\<rparr>))"
      by (auto simp: list_all_iff dest!: set_update_subset_insert [THEN subsetD])
  qed
  then show ?thesis
    by (auto simp: no_error_def list_all_iff uncapped_def)
qed

section \<open>The four tests\<close>

definition inc_dec_pairs_balance_to_zero :: "call list list" where
  "inc_dec_pairs_balance_to_zero = [[Increment None, Decrement], [Increment None, Decrement]]"

definition increment_respects_limit_under_race :: "call list list" where
  "increment_respects_limit_under_race = replicate 2 [Increment (Some 1)]"

definition decrement_races_capped_increment :: "call list list" where
  "decrement_races_capped_increment = [[Increment (Some 1)], [Decrement]]"

definition three_way_cas_race :: "call list list" where
  "three_way_cas_race = replicate 3 [Increment (Some 2)]"

definition check_pairs :: "world \<Rightarrow> bool" where
  "check_pairs w \<longleftrightarrow> no_error w \<and> counter_get (cell w) = 0"

definition check_limit :: "world \<Rightarrow> bool" where
  "check_limit w \<longleftrightarrow> no_other_error w \<and> successes w = 1 \<and> counter_get (cell w) = 1 \<and>
     counter_get (teardown 2 w) = 0"

definition check_decrement :: "world \<Rightarrow> bool" where
  "check_decrement w \<longleftrightarrow> no_other_error w \<and> counter_get (cell w) \<le> 1 \<and>
     (counter_get (cell w) = 0 \<or> counter_get (cell w) = 1)"

definition check_three :: "world \<Rightarrow> bool" where
  "check_three w \<longleftrightarrow> no_other_error w \<and> successes w = 2 \<and> counter_get (cell w) = 2 \<and>
     counter_get (teardown 3 w) = 0"

lemma pairs_hold:
  assumes "reachable inc_dec_pairs_balance_to_zero w" "all_done w"
  shows "check_pairs w"
proof -
  have "no_error w"
    by (rule reachable_no_error [OF assms(1)]) (simp add: inc_dec_pairs_balance_to_zero_def)
  moreover have "length (threads w) = length inc_dec_pairs_balance_to_zero \<and> balanced_ok w"
    by (rule reachable_balanced [OF assms(1)]) (simp_all add: inc_dec_pairs_balance_to_zero_def)
  then have "cell w = 0"
    using all_done_held [OF assms(2)] by (simp add: balanced_ok_def)
  ultimately show ?thesis by (simp add: check_pairs_def counter_get_def)
qed

text \<open>Races of equal increments: models 2 and 4.\<close>

lemma equal_race:
  assumes "reachable (replicate n [Increment (Some limit)]) w" "all_done w" "unat limit \<le> n" "n < 2 ^ 64"
  shows "no_other_error w \<and> successes w = unat limit \<and> cell w = limit \<and> (unat limit \<le> k \<longrightarrow> teardown k w = 0)"
proof -
  have "list_all (list_all (\<lambda>k. k = Increment (Some limit))) (replicate n [Increment (Some limit)])"
    by (simp add: list_all_iff)
  moreover have "sum_list (map length (replicate n [Increment (Some limit)])) = n"
    by (simp add: sum_list_replicate)
  ultimately have "unat (cell w) = unat limit" "successes w = unat (cell w)"
    using race_result [OF assms(1,2)] reachable_successes [OF assms(1)] assms(3,4) by simp_all
  moreover from this have "unat limit \<le> k \<longrightarrow> unat (teardown k w) = 0"
    by (simp add: unat_teardown)
  ultimately show ?thesis
    using reachable_no_other_error [OF assms(1)] by (simp add: unat_eq_0 word_unat_eq_iff [of "cell w"])
qed

lemma decrement_race_holds:
  assumes "reachable decrement_races_capped_increment w"
  shows "check_decrement w"
proof -
  have "list_all (list_all (capped_call 1)) decrement_races_capped_increment"
    by (simp add: decrement_races_capped_increment_def)
  with reachable_capped [OF assms] reachable_views [OF assms] have "cell w \<le> 1"
    by (simp add: cell_def views_ok_def)
  moreover from this have "cell w = 0 \<or> cell w = 1"
    by (metis le_less word_less_1)
  ultimately show ?thesis
    using reachable_no_other_error [OF assms] by (auto simp: check_decrement_def counter_get_def)
qed

section \<open>Properties\<close>

text \<open>C8 The assertions of the four loom tests hold in every interleaving, whatever relaxed loads return:
  paired calls end at zero without an error; of two racing increments with limit one exactly one
  succeeds; a decrement racing a capped increment leaves zero or one; of three racing increments with
  limit two exactly two succeed; and the teardown saturates at zero.\<close>

theorem loom_tests_hold:
  assumes "all_done w"
  shows "(reachable inc_dec_pairs_balance_to_zero w \<longrightarrow> check_pairs w) \<and>
    (reachable increment_respects_limit_under_race w \<longrightarrow> check_limit w) \<and>
    (reachable decrement_races_capped_increment w \<longrightarrow> check_decrement w) \<and>
    (reachable three_way_cas_race w \<longrightarrow> check_three w)"
proof -
  have "check_limit w" if "reachable increment_respects_limit_under_race w"
    using equal_race [of 2 1 w 2] that assms
    by (simp add: increment_respects_limit_under_race_def check_limit_def counter_get_def)
  moreover have "check_three w" if "reachable three_way_cas_race w"
    using equal_race [of 3 2 w 3] that assms
    by (simp add: three_way_cas_race_def check_three_def counter_get_def)
  ultimately show ?thesis
    using pairs_hold [OF _ assms] decrement_race_holds by blast
qed

theorem loom_tests_hold_witness:
  "check_limit (exec [(0, 0), (1, 0), (0, 0), (1, 0), (1, 1), (0, 1), (0, 1)]
      increment_respects_limit_under_race)" (is "check_limit ?w")
proof -
  have "all_done ?w"
    by (simp add: increment_respects_limit_under_race_def run_defs numeral_2_eq_2)
  from loom_tests_hold [OF this] show ?thesis
    using exec_reachable by blast
qed

end
