(* ===== verification/Bcast_Channel.thy ===== *)
theory Bcast_Channel
  imports Ws_Prelude
begin

text \<open>
  The interface to \<open>tokio::sync::broadcast\<close>, which is not part of the crate. The operations
  that \<open>hub.rs\<close> and \<open>room.rs\<close> call are the fields of a record that every definition using
  a channel takes as an argument; the locale states what the crate relies on from them, as the
  documentation of the channel promises it:

  \<^item> \<open>channel\<close> panics for capacity zero and for more than \<open>usize::MAX / 2\<close>, and the new
    channel has no receivers once the initial one is dropped;
  \<^item> \<open>subscribe\<close> adds one receiver, which sees the messages sent from then on;
  \<^item> \<open>send\<close> fails exactly when there is no receiver, and then delivers nothing; otherwise it
    appends the message for every receiver and returns how many there are;
  \<^item> receivers disappear only when their owner drops them.

  \<open>inbox tx r\<close> is the sequence of all messages sent to the receiver \<open>r\<close> since it subscribed. A
  receiver that is slower than the ring's capacity loses the oldest ones; that happens in the
  receiver, after the sequence described here.
\<close>

record ('tx, 'm) channel_ops =
  ch_new :: "usize \<Rightarrow> 'tx option"
  ch_subscribe :: "'tx \<Rightarrow> 'tx \<times> nat"
  ch_send :: "'tx \<Rightarrow> 'm \<Rightarrow> 'tx \<times> nat option"
  ch_receiver_count :: "'tx \<Rightarrow> nat"

definition max_capacity :: usize where
  "max_capacity = drop_bit 1 (- 1)"

lemma default_capacity_ok: "\<not> max_capacity < 1024"
  by code_simp

locale broadcast_channel =
  fixes ch :: "('tx, 'm) channel_ops"
    and live :: "'tx \<Rightarrow> nat set"
    and inbox :: "'tx \<Rightarrow> nat \<Rightarrow> 'm list"
    and drop_rx :: "nat \<Rightarrow> 'tx \<Rightarrow> 'tx"
  assumes new_panics: "ch_new ch cap = None \<longleftrightarrow> cap = 0 \<or> max_capacity < cap"
    and new_live: "ch_new ch cap = Some tx \<Longrightarrow> live tx = {}"
    and live_finite: "finite (live tx)"
    and subscribe_fresh: "snd (ch_subscribe ch tx) \<notin> live tx"
    and subscribe_live: "live (fst (ch_subscribe ch tx)) = insert (snd (ch_subscribe ch tx)) (live tx)"
    and subscribe_inbox:
      "inbox (fst (ch_subscribe ch tx)) r = (if r = snd (ch_subscribe ch tx) then [] else inbox tx r)"
    and send_result:
      "snd (ch_send ch tx m) = (if live tx = {} then None else Some (card (live tx)))"
    and send_live: "live (fst (ch_send ch tx m)) = live tx"
    and send_inbox:
      "inbox (fst (ch_send ch tx m)) r = (if r \<in> live tx then inbox tx r @ [m] else inbox tx r)"
    and count_live: "ch_receiver_count ch tx = card (live tx)"
    and drop_live: "live (drop_rx r tx) = live tx - {r}"
    and drop_inbox: "r' \<noteq> r \<Longrightarrow> inbox (drop_rx r tx) r' = inbox tx r'"
begin

lemmas channel_facts = subscribe_live subscribe_inbox send_result send_live send_inbox count_live
  drop_live

lemma count_zero: "ch_receiver_count ch tx = 0 \<longleftrightarrow> live tx = {}"
  by (simp add: count_live live_finite)

lemma send_fails_iff: "snd (ch_send ch tx m) = None \<longleftrightarrow> ch_receiver_count ch tx = 0"
  by (simp add: send_result count_zero)

lemma send_count: "snd (ch_send ch tx m) = Some n \<Longrightarrow> n = ch_receiver_count ch tx \<and> 0 < n"
  by (auto simp: send_result count_live live_finite card_gt_0_iff split: if_splits)

text \<open>A receiver that is not dropped sees exactly the messages sent after it subscribed, in order.\<close>

definition send_all :: "'m list \<Rightarrow> 'tx \<Rightarrow> 'tx" where
  "send_all ms tx = fold (\<lambda>m tx. fst (ch_send ch tx m)) ms tx"

lemma send_all_inbox:
  "live (send_all ms tx) = live tx \<and>
   (r \<in> live tx \<longrightarrow> inbox (send_all ms tx) r = inbox tx r @ ms)"
  unfolding send_all_def
  by (induction ms arbitrary: tx) (simp_all add: send_live send_inbox)

lemma subscribed_inbox:
  "ch_subscribe ch tx = (tx', r) \<Longrightarrow> inbox (send_all ms tx') r = ms"
  using send_all_inbox [of ms tx' r] subscribe_live [of tx] subscribe_inbox [of tx r] by auto

end

section \<open>A channel that obeys the laws\<close>

text \<open>
  An unbounded reference channel: a list of receivers with what was sent to them. It shows that
  the laws can hold, and the witnesses compute with it.
\<close>

record 'm ref_tx =
  next_rx :: nat
  rx_queues :: "(nat \<times> 'm list) list"

definition ref_new :: "usize \<Rightarrow> 'm ref_tx option" where
  "ref_new cap = (if cap = 0 \<or> max_capacity < cap then None
     else Some \<lparr> next_rx = 0, rx_queues = [] \<rparr>)"

definition ref_subscribe :: "'m ref_tx \<Rightarrow> 'm ref_tx \<times> nat" where
  "ref_subscribe tx =
     (let r = Max (insert (next_rx tx) ((Suc \<circ> fst) ` set (rx_queues tx)))
      in (tx\<lparr>next_rx := Suc r, rx_queues := (r, []) # rx_queues tx\<rparr>, r))"

definition ref_send :: "'m ref_tx \<Rightarrow> 'm \<Rightarrow> 'm ref_tx \<times> nat option" where
  "ref_send tx m =
     (tx\<lparr>rx_queues := map (\<lambda>(r, q). (r, q @ [m])) (rx_queues tx)\<rparr>,
      if rx_queues tx = [] then None else Some (card (fst ` set (rx_queues tx))))"

definition ref_live :: "'m ref_tx \<Rightarrow> nat set" where
  "ref_live tx = fst ` set (rx_queues tx)"

definition ref_inbox :: "'m ref_tx \<Rightarrow> nat \<Rightarrow> 'm list" where
  "ref_inbox tx r = (case map_of (rx_queues tx) r of Some q \<Rightarrow> q | None \<Rightarrow> [])"

definition ref_count :: "'m ref_tx \<Rightarrow> nat" where
  "ref_count tx = card (fst ` set (rx_queues tx))"

definition ref_drop :: "nat \<Rightarrow> 'm ref_tx \<Rightarrow> 'm ref_tx" where
  "ref_drop r tx = tx\<lparr>rx_queues := filter (\<lambda>(r', q). r' \<noteq> r) (rx_queues tx)\<rparr>"

definition ref_channel :: "('m ref_tx, 'm) channel_ops" where
  "ref_channel = \<lparr> ch_new = ref_new, ch_subscribe = ref_subscribe, ch_send = ref_send,
     ch_receiver_count = ref_count \<rparr>"

lemma map_of_map_snd: "map_of (map (\<lambda>(k, v). (k, f v)) xs) = map_option f \<circ> map_of xs"
  by (rule map_of_map)

lemma ref_fresh:
  assumes "r = Max (insert n ((Suc \<circ> fst) ` set qs))"
  shows "r \<notin> fst ` set qs"
proof
  assume "r \<in> fst ` set qs"
  then have "Suc r \<in> insert n ((Suc \<circ> fst) ` set qs)" by auto
  then have "Suc r \<le> r" unfolding assms by (intro Max_ge) simp_all
  then show False by simp
qed

lemma ref_live_map: "r \<in> ref_live tx \<longleftrightarrow> map_of (rx_queues tx) r \<noteq> None"
  by (auto simp: ref_live_def map_of_eq_None_iff)

lemma ref_live_send: "ref_live (fst (ref_send tx m)) = ref_live tx"
  by (auto simp: ref_live_map ref_send_def map_of_map_snd)

lemma ref_inbox_send:
  "ref_inbox (fst (ref_send tx m)) r = (if r \<in> ref_live tx then ref_inbox tx r @ [m] else ref_inbox tx r)"
  by (cases "map_of (rx_queues tx) r") (simp_all add: ref_live_map ref_inbox_def ref_send_def map_of_map_snd)

lemma map_of_drop:
  "map_of (filter (\<lambda>(k, q). k \<noteq> r) qs) r' = (if r' = r then None else map_of qs r')"
  by (induction qs) auto

lemma ref_inbox_drop: "r' \<noteq> r \<Longrightarrow> ref_inbox (ref_drop r tx) r' = ref_inbox tx r'"
  by (simp add: ref_inbox_def ref_drop_def map_of_drop)

lemma ref_live_drop: "ref_live (ref_drop r tx) = ref_live tx - {r}"
  by (auto simp: ref_live_map ref_drop_def map_of_drop split: if_splits)

lemma ref_subscribe_facts:
  "snd (ref_subscribe tx) \<notin> ref_live tx"
  "ref_live (fst (ref_subscribe tx)) = insert (snd (ref_subscribe tx)) (ref_live tx)"
  "ref_inbox (fst (ref_subscribe tx)) r = (if r = snd (ref_subscribe tx) then [] else ref_inbox tx r)"
  using ref_fresh [OF refl, of "next_rx tx" "rx_queues tx"]
  by (simp_all add: ref_subscribe_def ref_live_def ref_inbox_def Let_def comp_def)

interpretation ref: broadcast_channel ref_channel ref_live ref_inbox ref_drop
  by unfold_locales
    (simp_all add: ref_channel_def ref_subscribe_facts ref_live_send ref_inbox_send ref_live_drop
      ref_inbox_drop ref_new_def ref_count_def, auto simp: ref_live_def ref_send_def split: if_splits)

end
