(* ===== verification/Ws_Hub.thy ===== *)
theory Ws_Hub
  imports Bcast_Channel Conn_Counter Ws_Config
begin

text \<open>
  \<open>src/hub.rs\<close>: the broadcast hub, a channel sender and a connection counter. All clones of a
  hub share both, so the hub's state is one record and a clone is the same state. The channel's
  operations are the argument \<open>ch\<close> (see \<open>Bcast_Channel\<close>).
\<close>

record 'tx hub =
  hub_tx :: 'tx
  hub_count :: u64

definition hub_new :: "('tx, 'm) channel_ops \<Rightarrow> usize \<Rightarrow> 'tx hub run" where
  "hub_new ch capacity =
     (case ch_new ch capacity of
        None \<Rightarrow> None
      | Some tx \<Rightarrow> Some \<lparr> hub_tx = tx, hub_count = counter_new \<rparr>)"

definition hub_from_config :: "('tx, 'm) channel_ops \<Rightarrow> ws_config \<Rightarrow> 'tx hub run" where
  "hub_from_config ch config = hub_new ch (broadcast_capacity config)"

definition hub_with_capacity :: "('tx, 'm) channel_ops \<Rightarrow> usize \<Rightarrow> 'tx hub run" where
  "hub_with_capacity ch capacity = hub_new ch capacity"

definition hub_clone :: "'tx hub \<Rightarrow> 'tx hub" where
  "hub_clone h = \<lparr> hub_tx = hub_tx h, hub_count = hub_count h \<rparr>"

definition hub_subscribe :: "('tx, 'm) channel_ops \<Rightarrow> 'tx hub \<Rightarrow> 'tx hub \<times> nat" where
  "hub_subscribe ch h = (case ch_subscribe ch (hub_tx h) of (tx, r) \<Rightarrow> (h\<lparr>hub_tx := tx\<rparr>, r))"

definition hub_broadcast :: "('tx, 'm) channel_ops \<Rightarrow> 'm \<Rightarrow> 'tx hub \<Rightarrow> 'tx hub \<times> nat res" where
  "hub_broadcast ch m h =
     (case ch_send ch (hub_tx h) m of
        (tx, r) \<Rightarrow> (h\<lparr>hub_tx := tx\<rparr>, case r of Some n \<Rightarrow> Inr n | None \<Rightarrow> Inl BroadcastFull))"

definition hub_try_broadcast :: "('tx, 'm) channel_ops \<Rightarrow> 'm \<Rightarrow> 'tx hub \<Rightarrow> 'tx hub \<times> nat" where
  "hub_try_broadcast ch m h =
     (case ch_send ch (hub_tx h) m of
        (tx, r) \<Rightarrow> (h\<lparr>hub_tx := tx\<rparr>, case r of Some n \<Rightarrow> n | None \<Rightarrow> 0))"

definition hub_connection_count :: "'tx hub \<Rightarrow> u64" where
  "hub_connection_count h = counter_get (hub_count h)"

definition increment_connections :: "usize option \<Rightarrow> 'tx hub \<Rightarrow> 'tx hub \<times> u64 res" where
  "increment_connections mx h =
     (case increment mx (hub_count h) of (c, r) \<Rightarrow> (h\<lparr>hub_count := c\<rparr>, r))"

definition decrement_connections :: "'tx hub \<Rightarrow> 'tx hub \<times> u64" where
  "decrement_connections h =
     (case decrement (hub_count h) of (c, r) \<Rightarrow> (h\<lparr>hub_count := c\<rparr>, r))"

definition hub_receiver_count :: "('tx, 'm) channel_ops \<Rightarrow> 'tx hub \<Rightarrow> nat" where
  "hub_receiver_count ch h = ch_receiver_count ch (hub_tx h)"

definition hub_capacity :: "'tx hub \<Rightarrow> nat" where
  "hub_capacity h = 0"

definition hub_sender :: "'tx hub \<Rightarrow> 'tx" where
  "hub_sender h = hub_tx h"

section \<open>Sequences of operations\<close>

datatype 'm hub_op =
    Subscribe
  | Broadcast 'm
  | TryBroadcast 'm
  | IncrementConnections "usize option"
  | DecrementConnections

primrec hub_step :: "('tx, 'm) channel_ops \<Rightarrow> 'm hub_op \<Rightarrow> 'tx hub \<Rightarrow> 'tx hub" where
  "hub_step ch Subscribe h = fst (hub_subscribe ch h)"
| "hub_step ch (Broadcast m) h = fst (hub_broadcast ch m h)"
| "hub_step ch (TryBroadcast m) h = fst (hub_try_broadcast ch m h)"
| "hub_step ch (IncrementConnections mx) h = fst (increment_connections mx h)"
| "hub_step ch DecrementConnections h = fst (decrement_connections h)"

text \<open>The two halves of a hub: what a sequence of operations sends, and its counter calls.\<close>

fun sent :: "'m hub_op list \<Rightarrow> 'm list" where
  "sent [] = []"
| "sent (Broadcast m # ops) = m # sent ops"
| "sent (TryBroadcast m # ops) = m # sent ops"
| "sent (_ # ops) = sent ops"

fun counted :: "'m hub_op list \<Rightarrow> u64 \<Rightarrow> u64" where
  "counted [] c = c"
| "counted (IncrementConnections mx # ops) c = counted ops (fst (increment mx c))"
| "counted (DecrementConnections # ops) c = counted ops (fst (decrement c))"
| "counted (_ # ops) c = counted ops c"

text \<open>Every increment carries the limit.\<close>

primrec capped_op :: "usize \<Rightarrow> 'm hub_op \<Rightarrow> bool" where
  "capped_op limit Subscribe = True"
| "capped_op limit (Broadcast m) = True"
| "capped_op limit (TryBroadcast m) = True"
| "capped_op limit (IncrementConnections mx) = (mx = Some limit)"
| "capped_op limit DecrementConnections = True"

lemmas hub_defs = hub_subscribe_def hub_broadcast_def hub_try_broadcast_def
  increment_connections_def decrement_connections_def

lemma hub_count_steps: "hub_count (fold (hub_step ch) ops h) = counted ops (hub_count h)"
proof (induction ops arbitrary: h)
  case (Cons op ops)
  then show ?case by (cases op) (simp_all add: hub_defs split: prod.split)
qed simp

lemma counted_capped:
  "list_all (capped_op limit) ops \<Longrightarrow> c \<le> limit \<Longrightarrow>
   counted ops c \<le> limit"
proof (induction ops arbitrary: c)
  case (Cons op ops)
  have "fst (decrement c) \<le> c"
    by (simp add: word_le_nat_alt unat_decrement)
  with Cons show ?case
    by (cases op) (auto simp: increment_capped)
qed simp

context broadcast_channel
begin

lemma hub_live_step: "live (hub_tx h) \<subseteq> live (hub_tx (hub_step ch op h))"
  by (cases op)
    (auto simp: hub_defs split_def subscribe_live send_live)

lemma hub_inbox_steps:
  assumes "r \<in> live (hub_tx h)"
  shows "inbox (hub_tx (fold (hub_step ch) ops h)) r = inbox (hub_tx h) r @ sent ops"
  using assms
proof (induction ops arbitrary: h)
  case (Cons op ops)
  have "r \<in> live (hub_tx (hub_step ch op h))"
    using Cons.prems hub_live_step by blast
  moreover have "inbox (hub_tx (hub_step ch op h)) r = inbox (hub_tx h) r @ sent [op]"
    using Cons.prems subscribe_fresh [of "hub_tx h"]
    by (cases op) (auto simp: hub_defs split_def subscribe_inbox send_inbox)
  moreover have "sent (op # ops) = sent [op] @ sent ops"
    by (cases op) simp_all
  ultimately show ?case
    using Cons.IH by simp
qed simp

lemma hub_subscriber_inbox:
  assumes "hub_subscribe ch h = (h', r)"
  shows "inbox (hub_tx (fold (hub_step ch) ops h')) r = sent ops"
proof -
  have "r \<in> live (hub_tx h')" "inbox (hub_tx h') r = []"
    using assms subscribe_live [of "hub_tx h"] subscribe_inbox [of "hub_tx h" r]
    by (auto simp: hub_subscribe_def split: prod.splits)
  then show ?thesis
    using hub_inbox_steps [of r h' ops] by simp
qed

lemma hub_broadcast_result:
  "snd (hub_broadcast ch m h) =
     (if hub_receiver_count ch h = 0 then Inl BroadcastFull else Inr (hub_receiver_count ch h))"
  "snd (hub_try_broadcast ch m h) = hub_receiver_count ch h"
  by (simp_all add: hub_broadcast_def hub_try_broadcast_def hub_receiver_count_def split_def
      send_result count_zero count_live card_gt_0_iff live_finite)

lemma hub_broadcast_inbox:
  "inbox (hub_tx (fst (hub_broadcast ch m h))) r =
     (if r \<in> live (hub_tx h) then inbox (hub_tx h) r @ [m] else inbox (hub_tx h) r)"
  by (simp add: hub_broadcast_def split_def send_inbox)

end

section \<open>Properties\<close>

text \<open>\<open>broadcast\<close> reports the number of receivers and fails with \<open>BroadcastFull\<close> exactly when
  there are none; \<open>try_broadcast\<close> reports the same number, zero included; the message goes to
  every receiver once and to nothing else.\<close>

lemma hub_broadcast_delivers:
  assumes "broadcast_channel ch live inbox drop_rx"
  shows
    "(snd (hub_broadcast ch m h) =
      (if hub_receiver_count ch h = 0 then Inl BroadcastFull else Inr (hub_receiver_count ch h))) \<and>
     (snd (hub_try_broadcast ch m h) = hub_receiver_count ch h) \<and>
     (inbox (hub_tx (fst (hub_broadcast ch m h))) r =
      (if r \<in> live (hub_tx h) then inbox (hub_tx h) r @ [m] else inbox (hub_tx h) r))"
  by (intro conjI; rule broadcast_channel.hub_broadcast_result [OF assms]
      broadcast_channel.hub_broadcast_inbox [OF assms])

lemma hub_broadcast_delivers_witness:
  "(let h = \<lparr> hub_tx = \<lparr> next_rx = 2, rx_queues = [(1, [7]), (0, [])] \<rparr>, hub_count = 0 \<rparr>
    in snd (hub_broadcast ref_channel (8::nat) h) = Inr 2)"
  unfolding Let_def
  by (rule hub_broadcast_delivers [OF ref.broadcast_channel_axioms, THEN conjunct1, THEN trans])
    (simp add: hub_receiver_count_def ref_channel_def ref_count_def)

text \<open>A subscriber that stays connected sees, in order, exactly the messages broadcast after it
  subscribed, whatever other subscriptions, broadcasts and connection counting happen on the hub.\<close>

lemma hub_subscriber_sees_broadcasts:
  assumes "broadcast_channel ch live inbox drop_rx" "hub_subscribe ch h = (h', r)"
  shows "inbox (hub_tx (fold (hub_step ch) ops h')) r = sent ops"
  by (rule broadcast_channel.hub_subscriber_inbox [OF assms])

lemma hub_subscriber_sees_broadcasts_witness:
  "ref_inbox (hub_tx (fold (hub_step ref_channel)
      [Broadcast (1::nat), Subscribe, IncrementConnections None, TryBroadcast 2, Broadcast 3]
      \<lparr> hub_tx = \<lparr> next_rx = 1, rx_queues = [(0, [])] \<rparr>, hub_count = 0 \<rparr>)) 0 = [1, 2, 3]"
  by (rule hub_subscriber_sees_broadcasts [where h = "\<lparr> hub_tx = \<lparr> next_rx = 0, rx_queues = [] \<rparr>,
        hub_count = 0 \<rparr>", OF ref.broadcast_channel_axioms, THEN trans])
    (simp_all add: hub_subscribe_def ref_channel_def ref_subscribe_def)

text \<open>A hub built from a configuration panics exactly when the configured capacity is zero or above
  \<open>usize::MAX / 2\<close>: the builder accepts any capacity, and the last one given decides.\<close>

lemma hub_from_built_config_panics:
  assumes "broadcast_channel ch live inbox drop_rx"
  shows "hub_from_config ch (build_chain calls) = None \<longleftrightarrow>
    last_capacity 1024 calls = 0 \<or> max_capacity < last_capacity 1024 calls"
  using broadcast_channel.new_panics [OF assms, of "last_capacity 1024 calls"]
  by (cases "ch_new ch (last_capacity 1024 calls)")
    (simp_all add: hub_from_config_def hub_new_def build_chain_fields)

lemma hub_from_built_config_panics_witness:
  "hub_from_config (ref_channel :: (nat ref_tx, nat) channel_ops) (build_chain [BroadcastCapacity 16, BroadcastCapacity 0]) = None"
  by (rule hub_from_built_config_panics [OF ref.broadcast_channel_axioms, THEN iffD2]) simp

text \<open>Counting and messaging are independent: the connection count after any sequence of hub
  operations is that of its counter calls alone, and when all increments carry the limit of the
  configuration it never exceeds it.\<close>

lemma hub_count_independent:
  assumes "hub_count h \<le> limit"
    and "list_all (capped_op limit) ops"
  shows
    "(hub_connection_count (fold (hub_step ch) ops h) = counted ops (hub_count h)) \<and>
     (hub_connection_count (fold (hub_step ch) ops h) \<le> limit)"
  using counted_capped [OF assms(2,1)] by (simp_all add: hub_connection_count_def hub_count_steps counter_get_def)

lemma hub_count_independent_witness:
  "hub_connection_count (fold (hub_step ref_channel)
      [IncrementConnections (Some 1), Broadcast (5::nat), IncrementConnections (Some 1), DecrementConnections]
      \<lparr> hub_tx = \<lparr> next_rx = 0, rx_queues = [] \<rparr>, hub_count = 0 \<rparr>) \<le> 1"
  by (rule hub_count_independent [THEN conjunct2]) simp_all

end
