(* ===== verification/Ws_Stats.thy ===== *)
theory Ws_Stats
  imports Rust_Str
begin

text \<open>
  \<open>src/stats.rs\<close>: the traffic counters. The recorder's shared state is the record
  \<open>stats_inner\<close> (\<open>Inner\<close> in the code) and every method is a function on it. Each method
  is also written as the list of atomic accesses it makes (\<open>atoms\<close>), so that the order in which
  threads interleave them can be quantified over.

  Counters are words: \<open>fetch_add\<close> wraps, and so does the \<open>+ 1\<close> of a returned gauge in a release
  build. The emission through the \<open>metrics\<close> facade (an optional feature) is not modelled.
\<close>

record room_stats =
  rs_messages_in :: u64
  rs_messages_out :: u64
  rs_bytes_in :: u64
  rs_bytes_out :: u64
  rs_drops :: u64

text \<open>The snapshot; \<open>per_room\<close> is a \<open>BTreeMap\<close>: a list sorted by key.\<close>

record stats =
  st_connections :: u64
  st_rooms :: u64
  st_messages_in :: u64
  st_messages_out :: u64
  st_bytes_in :: u64
  st_bytes_out :: u64
  st_drops :: u64
  per_room :: "(rstr \<times> room_stats) list"

record globals =
  g_connections :: u64
  g_rooms :: u64
  g_messages_in :: u64
  g_messages_out :: u64
  g_bytes_in :: u64
  g_bytes_out :: u64
  g_drops :: u64

record room_counters =
  c_messages_in :: u64
  c_messages_out :: u64
  c_bytes_in :: u64
  c_bytes_out :: u64
  c_drops :: u64

record stats_inner =
  globals :: globals
  counters :: "(rstr, room_counters) dict"

definition globals_default :: globals where
  "globals_default = \<lparr> g_connections = 0, g_rooms = 0, g_messages_in = 0, g_messages_out = 0,
     g_bytes_in = 0, g_bytes_out = 0, g_drops = 0 \<rparr>"

definition room_counters_default :: room_counters where
  "room_counters_default = \<lparr> c_messages_in = 0, c_messages_out = 0, c_bytes_in = 0,
     c_bytes_out = 0, c_drops = 0 \<rparr>"

definition stats_new :: stats_inner where
  "stats_new = \<lparr> globals = globals_default, counters = DAList.empty \<rparr>"

section \<open>The recorder's methods\<close>

definition on_globals :: "(globals \<Rightarrow> globals) \<Rightarrow> stats_inner \<Rightarrow> stats_inner" where
  "on_globals f s = s\<lparr>globals := f (globals s)\<rparr>"

definition on_room :: "rstr \<Rightarrow> (room_counters \<Rightarrow> room_counters) \<Rightarrow> stats_inner \<Rightarrow> stats_inner" where
  "on_room room f s = s\<lparr>counters := DAList.map_entry room f (counters s)\<rparr>"

text \<open>\<open>entry(room).or_default()\<close>.\<close>

definition room_counters_entry :: "rstr \<Rightarrow> stats_inner \<Rightarrow> stats_inner" where
  "room_counters_entry room s =
     (if DAList.lookup (counters s) room = None
      then s\<lparr>counters := DAList.update room room_counters_default (counters s)\<rparr> else s)"

text \<open>The counter's value after the decrement.\<close>

definition saturating_dec :: "u64 \<Rightarrow> u64" where
  "saturating_dec v = (if v = 0 then 0 else v - 1)"

definition inc_connections :: "stats_inner \<Rightarrow> stats_inner \<times> u64" where
  "inc_connections s =
     (on_globals (\<lambda>g. g\<lparr>g_connections := g_connections g + 1\<rparr>) s, g_connections (globals s) + 1)"

definition dec_connections :: "stats_inner \<Rightarrow> stats_inner \<times> u64" where
  "dec_connections s =
     (let v = saturating_dec (g_connections (globals s))
      in (on_globals (\<lambda>g. g\<lparr>g_connections := v\<rparr>) s, v))"

definition room_opened :: "stats_inner \<Rightarrow> stats_inner" where
  "room_opened = on_globals (\<lambda>g. g\<lparr>g_rooms := g_rooms g + 1\<rparr>)"

definition room_closed :: "stats_inner \<Rightarrow> stats_inner" where
  "room_closed = on_globals (\<lambda>g. g\<lparr>g_rooms := saturating_dec (g_rooms g)\<rparr>)"

definition record_message_in :: "u64 \<Rightarrow> stats_inner \<Rightarrow> stats_inner" where
  "record_message_in n s =
     (let s = on_globals (\<lambda>g. g\<lparr>g_messages_in := g_messages_in g + 1\<rparr>) s
      in on_globals (\<lambda>g. g\<lparr>g_bytes_in := g_bytes_in g + n\<rparr>) s)"

definition record_message_out :: "u64 \<Rightarrow> u64 \<Rightarrow> stats_inner \<Rightarrow> stats_inner" where
  "record_message_out k n s =
     (let s = on_globals (\<lambda>g. g\<lparr>g_messages_out := g_messages_out g + k\<rparr>) s
      in on_globals (\<lambda>g. g\<lparr>g_bytes_out := g_bytes_out g + n\<rparr>) s)"

definition record_drop :: "stats_inner \<Rightarrow> stats_inner" where
  "record_drop = on_globals (\<lambda>g. g\<lparr>g_drops := g_drops g + 1\<rparr>)"

definition record_room_message_in :: "rstr \<Rightarrow> u64 \<Rightarrow> stats_inner \<Rightarrow> stats_inner" where
  "record_room_message_in room n s =
     (let s = room_counters_entry room s;
          s = on_room room (\<lambda>c. c\<lparr>c_messages_in := c_messages_in c + 1\<rparr>) s;
          s = on_room room (\<lambda>c. c\<lparr>c_bytes_in := c_bytes_in c + n\<rparr>) s
      in record_message_in n s)"

definition record_room_message_out :: "rstr \<Rightarrow> u64 \<Rightarrow> u64 \<Rightarrow> stats_inner \<Rightarrow> stats_inner" where
  "record_room_message_out room k n s =
     (let s = room_counters_entry room s;
          s = on_room room (\<lambda>c. c\<lparr>c_messages_out := c_messages_out c + k\<rparr>) s;
          s = on_room room (\<lambda>c. c\<lparr>c_bytes_out := c_bytes_out c + n\<rparr>) s
      in record_message_out k n s)"

definition record_room_drop :: "rstr \<Rightarrow> stats_inner \<Rightarrow> stats_inner" where
  "record_room_drop room s =
     (let s = room_counters_entry room s;
          s = on_room room (\<lambda>c. c\<lparr>c_drops := c_drops c + 1\<rparr>) s
      in record_drop s)"

definition room_stats_of :: "room_counters \<Rightarrow> room_stats" where
  "room_stats_of c = \<lparr> rs_messages_in = c_messages_in c, rs_messages_out = c_messages_out c,
     rs_bytes_in = c_bytes_in c, rs_bytes_out = c_bytes_out c, rs_drops = c_drops c \<rparr>"

definition snapshot :: "stats_inner \<Rightarrow> stats" where
  "snapshot s =
     (let g = globals s;
          rooms = sort_key fst (map (\<lambda>(k, c). (k, room_stats_of c)) (entries (counters s)))
      in \<lparr> st_connections = g_connections g, st_rooms = g_rooms g,
           st_messages_in = g_messages_in g, st_messages_out = g_messages_out g,
           st_bytes_in = g_bytes_in g, st_bytes_out = g_bytes_out g, st_drops = g_drops g,
           per_room = rooms \<rparr>)"

section \<open>Operations and their atomic accesses\<close>

datatype stats_op =
    IncConnections
  | DecConnections
  | RoomOpened
  | RoomClosed
  | MessageIn u64
  | MessageOut u64 u64
  | Dropped
  | RoomMessageIn rstr u64
  | RoomMessageOut rstr u64 u64
  | RoomDrop rstr

primrec apply_op :: "stats_op \<Rightarrow> stats_inner \<Rightarrow> stats_inner" where
  "apply_op IncConnections s = fst (inc_connections s)"
| "apply_op DecConnections s = fst (dec_connections s)"
| "apply_op RoomOpened s = room_opened s"
| "apply_op RoomClosed s = room_closed s"
| "apply_op (MessageIn n) s = record_message_in n s"
| "apply_op (MessageOut k n) s = record_message_out k n s"
| "apply_op Dropped s = record_drop s"
| "apply_op (RoomMessageIn r n) s = record_room_message_in r n s"
| "apply_op (RoomMessageOut r k n) s = record_room_message_out r k n s"
| "apply_op (RoomDrop r) s = record_room_drop r s"

text \<open>
  The counters by name: which cell a \<open>fetch_add\<close> addresses. A room's cells are addressed through
  the room's entry, which the first access of the room creates.
\<close>

datatype room_cell = CMessagesIn | CMessagesOut | CBytesIn | CBytesOut | CDrops

datatype global_cell =
  GConnections | GRooms | GMessagesIn | GMessagesOut | GBytesIn | GBytesOut | GDrops

primrec get_room_cell :: "room_cell \<Rightarrow> room_counters \<Rightarrow> u64" where
  "get_room_cell CMessagesIn c = c_messages_in c"
| "get_room_cell CMessagesOut c = c_messages_out c"
| "get_room_cell CBytesIn c = c_bytes_in c"
| "get_room_cell CBytesOut c = c_bytes_out c"
| "get_room_cell CDrops c = c_drops c"

primrec add_room_cell :: "room_cell \<Rightarrow> u64 \<Rightarrow> room_counters \<Rightarrow> room_counters" where
  "add_room_cell CMessagesIn n c = c\<lparr>c_messages_in := c_messages_in c + n\<rparr>"
| "add_room_cell CMessagesOut n c = c\<lparr>c_messages_out := c_messages_out c + n\<rparr>"
| "add_room_cell CBytesIn n c = c\<lparr>c_bytes_in := c_bytes_in c + n\<rparr>"
| "add_room_cell CBytesOut n c = c\<lparr>c_bytes_out := c_bytes_out c + n\<rparr>"
| "add_room_cell CDrops n c = c\<lparr>c_drops := c_drops c + n\<rparr>"

primrec get_global :: "global_cell \<Rightarrow> globals \<Rightarrow> u64" where
  "get_global GConnections g = g_connections g"
| "get_global GRooms g = g_rooms g"
| "get_global GMessagesIn g = g_messages_in g"
| "get_global GMessagesOut g = g_messages_out g"
| "get_global GBytesIn g = g_bytes_in g"
| "get_global GBytesOut g = g_bytes_out g"
| "get_global GDrops g = g_drops g"

primrec add_global :: "global_cell \<Rightarrow> u64 \<Rightarrow> globals \<Rightarrow> globals" where
  "add_global GConnections n g = g\<lparr>g_connections := g_connections g + n\<rparr>"
| "add_global GRooms n g = g\<lparr>g_rooms := g_rooms g + n\<rparr>"
| "add_global GMessagesIn n g = g\<lparr>g_messages_in := g_messages_in g + n\<rparr>"
| "add_global GMessagesOut n g = g\<lparr>g_messages_out := g_messages_out g + n\<rparr>"
| "add_global GBytesIn n g = g\<lparr>g_bytes_in := g_bytes_in g + n\<rparr>"
| "add_global GBytesOut n g = g\<lparr>g_bytes_out := g_bytes_out g + n\<rparr>"
| "add_global GDrops n g = g\<lparr>g_drops := g_drops g + n\<rparr>"

datatype atom =
    AddGlobal global_cell u64
  | AddRoom rstr room_cell u64   \<comment> \<open>on the room's entry, created if it is missing\<close>
  | DecGlobal global_cell        \<comment> \<open>the successful step of a saturating decrement\<close>

primrec atom_step :: "atom \<Rightarrow> stats_inner \<Rightarrow> stats_inner" where
  "atom_step (AddGlobal x n) s = on_globals (add_global x n) s"
| "atom_step (AddRoom r x n) s = on_room r (add_room_cell x n) (room_counters_entry r s)"
| "atom_step (DecGlobal x) s =
     on_globals (\<lambda>g. add_global x (saturating_dec (get_global x g) - get_global x g) g) s"

primrec atoms :: "stats_op \<Rightarrow> atom list" where
  "atoms IncConnections = [AddGlobal GConnections 1]"
| "atoms DecConnections = [DecGlobal GConnections]"
| "atoms RoomOpened = [AddGlobal GRooms 1]"
| "atoms RoomClosed = [DecGlobal GRooms]"
| "atoms (MessageIn n) = [AddGlobal GMessagesIn 1, AddGlobal GBytesIn n]"
| "atoms (MessageOut k n) = [AddGlobal GMessagesOut k, AddGlobal GBytesOut n]"
| "atoms Dropped = [AddGlobal GDrops 1]"
| "atoms (RoomMessageIn r n) =
     [AddRoom r CMessagesIn 1, AddRoom r CBytesIn n, AddGlobal GMessagesIn 1, AddGlobal GBytesIn n]"
| "atoms (RoomMessageOut r k n) =
     [AddRoom r CMessagesOut k, AddRoom r CBytesOut n, AddGlobal GMessagesOut k, AddGlobal GBytesOut n]"
| "atoms (RoomDrop r) = [AddRoom r CDrops 1, AddGlobal GDrops 1]"

lemmas record_defs = inc_connections_def dec_connections_def room_opened_def room_closed_def
  record_message_in_def record_message_out_def record_drop_def record_room_message_in_def
  record_room_message_out_def record_room_drop_def

lemma entry_present:
  "DAList.lookup (counters s) r \<noteq> None \<Longrightarrow> room_counters_entry r s = s"
  by (auto simp: room_counters_entry_def)

lemma lookup_entry:
  "DAList.lookup (counters (room_counters_entry r s)) =
     (DAList.lookup (counters s))(r \<mapsto> (case DAList.lookup (counters s) r of
        Some c \<Rightarrow> c | None \<Rightarrow> room_counters_default))"
  by (auto simp: room_counters_entry_def lookup_update split: option.split)

lemma lookup_on_room:
  "DAList.lookup (counters (on_room r f s)) =
     (\<lambda>k. if k = r then map_option f (DAList.lookup (counters s) r) else DAList.lookup (counters s) k)"
  by (auto simp: on_room_def dict_simps fun_eq_iff)

lemma entry_on_room:
  "room_counters_entry r (on_room r f (room_counters_entry r s)) = on_room r f (room_counters_entry r s)"
  by (rule entry_present) (simp add: lookup_on_room lookup_entry)

lemma globals_on_room [simp]:
  "globals (on_room r f s) = globals s" "globals (room_counters_entry r s) = globals s"
  by (simp_all add: on_room_def room_counters_entry_def)

lemma add_cell_fun:
  "add_room_cell CMessagesIn n = (\<lambda>c. c\<lparr>c_messages_in := c_messages_in c + n\<rparr>)"
  "add_room_cell CMessagesOut n = (\<lambda>c. c\<lparr>c_messages_out := c_messages_out c + n\<rparr>)"
  "add_room_cell CBytesIn n = (\<lambda>c. c\<lparr>c_bytes_in := c_bytes_in c + n\<rparr>)"
  "add_room_cell CBytesOut n = (\<lambda>c. c\<lparr>c_bytes_out := c_bytes_out c + n\<rparr>)"
  "add_room_cell CDrops n = (\<lambda>c. c\<lparr>c_drops := c_drops c + n\<rparr>)"
  by (simp_all add: fun_eq_iff)

lemma apply_op_atoms: "apply_op op s = fold atom_step (atoms op) s"
  by (cases op)
    (simp_all add: record_defs Let_def entry_on_room add_cell_fun on_globals_def saturating_dec_def)


subsection \<open>The global counters are the sum of the rooms' and the direct traffic\<close>

primrec global_of :: "room_cell \<Rightarrow> global_cell" where
  "global_of CMessagesIn = GMessagesIn"
| "global_of CMessagesOut = GMessagesOut"
| "global_of CBytesIn = GBytesIn"
| "global_of CBytesOut = GBytesOut"
| "global_of CDrops = GDrops"

text \<open>What an operation that names no room adds.\<close>

fun direct :: "room_cell \<Rightarrow> stats_op \<Rightarrow> u64" where
  "direct CMessagesIn (MessageIn n) = 1"
| "direct CBytesIn (MessageIn n) = n"
| "direct CMessagesOut (MessageOut k n) = k"
| "direct CBytesOut (MessageOut k n) = n"
| "direct CDrops Dropped = 1"
| "direct _ _ = 0"

definition room_total :: "room_cell \<Rightarrow> stats_inner \<Rightarrow> u64" where
  "room_total x s = dict_sum (get_room_cell x) (counters s)"

definition excess :: "room_cell \<Rightarrow> stats_inner \<Rightarrow> u64" where
  "excess x s = get_global (global_of x) (globals s) - room_total x s"

lemma get_add_global [simp]: "get_global x (add_global y n g) = get_global x g + (if x = y then n else 0)"
  by (cases x; cases y; simp)

lemma get_add_room_cell [simp]:
  "get_room_cell x (add_room_cell y n c) = get_room_cell x c + (if x = y then n else 0)"
  by (cases x; cases y; simp)

lemma get_room_default [simp]: "get_room_cell x room_counters_default = 0"
  by (cases x; simp add: room_counters_default_def)

lemma room_total_entry [simp]: "room_total x (room_counters_entry r s) = room_total x s"
  by (simp add: room_total_def room_counters_entry_def dict_sum_insert)

lemma room_total_add:
  "room_total x (on_room r (add_room_cell y n) (room_counters_entry r s)) =
     room_total x s + (if x = y then n else 0)"
proof -
  let ?s = "room_counters_entry r s"
  obtain c where "DAList.lookup (counters ?s) r = Some c"
    by (simp add: lookup_entry)
  then have "room_total x (on_room r (add_room_cell y n) ?s) = room_total x ?s + (if x = y then n else 0)"
    by (simp add: room_total_def on_room_def dict_sum_map_entry)
  then show ?thesis by simp
qed

lemma on_globals_simps [simp]:
  "room_total x (on_globals f s) = room_total x s" "globals (on_globals f s) = f (globals s)"
  "counters (on_globals f s) = counters s"
  by (simp_all add: on_globals_def room_total_def)

lemma excess_atom:
  "excess x (atom_step a s) = excess x s +
     (case a of AddGlobal y n \<Rightarrow> if y = global_of x then n else 0
      | AddRoom r y n \<Rightarrow> if x = y then - n else 0
      | DecGlobal y \<Rightarrow> if y = global_of x
          then saturating_dec (get_global y (globals s)) - get_global y (globals s) else 0)"
  by (cases a) (auto simp: excess_def room_total_add)

lemma excess_op: "excess x (apply_op op s) = excess x s + direct x op"
  unfolding apply_op_atoms by (cases op; cases x) (simp_all add: excess_atom del: atom_step.simps)

lemma excess_ops: "excess x (fold apply_op ops s) = excess x s + sum_list (map (direct x) ops)"
  by (induction ops arbitrary: s) (simp_all add: excess_op add.assoc)

lemma excess_new [simp]: "excess x stats_new = 0"
  by (cases x; simp add: excess_def room_total_def stats_new_def globals_default_def)

subsection \<open>Interleavings\<close>

text \<open>What a snapshot can tell: the global cells and the lookup function of the rooms.\<close>

type_synonym stats_view = "globals \<times> (rstr \<rightharpoonup> room_counters)"

definition view :: "stats_inner \<Rightarrow> stats_view" where
  "view s = (globals s, DAList.lookup (counters s))"

primrec adding :: "atom \<Rightarrow> bool" where
  "adding (AddGlobal _ _) = True"
| "adding (AddRoom _ _ _) = True"
| "adding (DecGlobal _) = False"

fun view_step :: "atom \<Rightarrow> stats_view \<Rightarrow> stats_view" where
  "view_step (AddGlobal x n) (g, m) = (add_global x n g, m)"
| "view_step (AddRoom r x n) (g, m) = (g, m(r \<mapsto> add_room_cell x n
     (case m r of Some c \<Rightarrow> c | None \<Rightarrow> room_counters_default)))"
| "view_step (DecGlobal x) (g, m) =
     (add_global x (saturating_dec (get_global x g) - get_global x g) g, m)"

lemma view_atom_step: "view (atom_step a s) = view_step a (view s)"
  by (cases a) (auto simp: view_def lookup_on_room lookup_entry fun_eq_iff)

lemma view_fold: "view (fold atom_step as s) = fold view_step as (view s)"
  by (induction as arbitrary: s) (simp_all add: view_atom_step)

lemma add_global_commute: "add_global x m (add_global y n g) = add_global y n (add_global x m g)"
  by (cases x; cases y; simp add: add.commute add.left_commute)

lemma add_room_cell_commute:
  "add_room_cell x m (add_room_cell y n c) = add_room_cell y n (add_room_cell x m c)"
  by (cases x; cases y; simp add: add.commute add.left_commute)

lemma view_step_commute: "adding a \<Longrightarrow> adding b \<Longrightarrow> view_step a \<circ> view_step b = view_step b \<circ> view_step a"
  by (cases a; cases b)
    (auto simp: fun_eq_iff add_global_commute add_room_cell_commute fun_upd_twist)

lemma snapshot_view:
  assumes "view s = view t"
  shows "snapshot s = snapshot t"
proof -
  have "globals s = globals t" "DAList.lookup (counters s) = DAList.lookup (counters t)"
    using assms by (simp_all add: view_def)
  then show ?thesis
    by (simp add: snapshot_def sorted_entries Let_def)
qed

lemma snapshot_permuted:
  assumes "mset as = mset bs" "list_all adding as"
  shows "snapshot (fold atom_step as s) = snapshot (fold atom_step bs s)"
proof (rule snapshot_view)
  have "\<forall>a\<in>set as. adding a"
    using assms(2) by (simp add: list_all_iff)
  then have "fold view_step as = fold view_step bs"
    using assms(1) by (intro fold_multiset_equiv) (auto simp: view_step_commute)
  then show "view (fold atom_step as s) = view (fold atom_step bs s)"
    by (simp add: view_fold)
qed

lemma fold_apply_op: "fold apply_op ops s = fold atom_step (concat (map atoms ops)) s"
  by (induction ops arbitrary: s) (simp_all add: apply_op_atoms)

section \<open>Properties\<close>

text \<open>C23 For every sequence of recorder calls, each global traffic counter (messages and bytes in and
  out, drops) is the sum of that counter over all rooms plus the traffic recorded without a room,
  modulo \<open>2 ^ 64\<close>.\<close>

theorem globals_roll_up:
  "get_global (global_of x) (globals (fold apply_op ops stats_new)) =
     room_total x (fold apply_op ops stats_new) + sum_list (map (direct x) ops)"
proof -
  have "excess x (fold apply_op ops stats_new) = sum_list (map (direct x) ops)"
    by (simp add: excess_ops)
  then show ?thesis
    unfolding excess_def by (simp only: diff_eq_eq add.commute)
qed

text \<open>C35 Concurrent recording loses nothing: whatever the order in which the atomic additions of a
  set of recording calls are interleaved, the snapshot afterwards is the one of making the calls
  one after the other.\<close>

theorem interleaved_recording:
  assumes "mset as = mset (concat (map atoms ops))" "list_all adding as"
  shows "snapshot (fold atom_step as s) = snapshot (fold apply_op ops s)"
  unfolding fold_apply_op using assms by (rule snapshot_permuted)

theorem interleaved_recording_witness:
  "snapshot (fold atom_step
      [AddRoom (lit ''b'') CMessagesOut 2, AddRoom (lit ''a'') CDrops 1,
       AddGlobal GDrops 1, AddRoom (lit ''b'') CBytesOut 10, AddGlobal GBytesOut 10,
       AddGlobal GMessagesOut 2] stats_new)
   = snapshot (fold apply_op [RoomDrop (lit ''a''), RoomMessageOut (lit ''b'') 2 10] stats_new)"
  by (rule interleaved_recording) simp_all

text \<open>A snapshot reports the counters as they are: the global cells, and for every room that has
  recorded traffic, and no other, one entry with that room's cells, in increasing order of the
  room ids.\<close>

lemma snapshot_reports:
    "(map_of (per_room (snapshot s)) r = map_option room_stats_of (DAList.lookup (counters s) r)) \<and>
     (sorted (map fst (per_room (snapshot s)))) \<and>
     (distinct (map fst (per_room (snapshot s)))) \<and>
     (st_drops (snapshot s) = g_drops (globals s)) \<and>
     (st_rooms (snapshot s) = g_rooms (globals s)) \<and>
     (st_connections (snapshot s) = g_connections (globals s)) \<and>
     (st_messages_in (snapshot s) = g_messages_in (globals s)) \<and>
     (st_messages_out (snapshot s) = g_messages_out (globals s)) \<and>
     (st_bytes_in (snapshot s) = g_bytes_in (globals s)) \<and>
     (st_bytes_out (snapshot s) = g_bytes_out (globals s))"
proof -
  have rooms: "per_room (snapshot s) = map (\<lambda>k. (k, room_stats_of (the (DAList.lookup (counters s) k))))
      (sorted_list_of_set (dom (DAList.lookup (counters s))))"
    by (simp add: snapshot_def sorted_entries Let_def)
  have "map_of (per_room (snapshot s)) r = map_option room_stats_of (DAList.lookup (counters s) r)"
    unfolding rooms map_of_map_restrict set_sorted_list_of_set [OF finite_dom_lookup]
    by (cases "DAList.lookup (counters s) r") (auto simp: restrict_map_def)
  moreover have "sorted (map fst (per_room (snapshot s)))" "distinct (map fst (per_room (snapshot s)))"
    unfolding rooms by (simp_all add: comp_def)
  ultimately show ?thesis
    by (simp add: snapshot_def Let_def)
qed

end
