(* ===== verification/Stats_Races.thy ===== *)
theory Stats_Races
  imports Ws_Stats
begin

text \<open>
  \<open>src/stats.rs\<close>: recording and snapshots as single accesses of any number of threads. \<open>snapshot\<close> is
  not atomic: it walks over the rooms, loads their counters one by one and then loads the global
  ones, while other threads record. \<open>recorder_step\<close> is one access of a thread: one atomic operation
  on a counter, one operation on the dictionary of rooms, or one step of its iteration.

  The accesses are \<open>Ordering::Relaxed\<close>. As for the connection counter, every cell has its
  modification order (oldest value first), a thread knows the last index it has seen of each cell,
  and a load may return any value from that index on; a read-modify-write acts on the newest value.
  The shard locks of the dictionary are left out: they only rule interleavings out.
\<close>

section \<open>Cells, calls and threads\<close>

datatype stat_cell = Global global_cell | Room rstr room_cell

record stats_mem =
  cell_hist :: "stat_cell \<Rightarrow> u64 list"
  listed :: "rstr list"                  \<comment> \<open>the rooms that have an entry\<close>

datatype request = Record stats_op | Snapshot

text \<open>
  What a recording call does: the entry of the room (created if it is missing), then its additions.
  A saturating decrement is followed by the load that computes its result.
\<close>

datatype micro = Enter rstr | Access atom | Reload global_cell

primrec micros :: "stats_op \<Rightarrow> micro list" where
  "micros IncConnections = map Access (atoms IncConnections)"
| "micros DecConnections = map Access (atoms DecConnections) @ [Reload GConnections]"
| "micros RoomOpened = map Access (atoms RoomOpened)"
| "micros RoomClosed = map Access (atoms RoomClosed) @ [Reload GRooms]"
| "micros (MessageIn n) = map Access (atoms (MessageIn n))"
| "micros (MessageOut k n) = map Access (atoms (MessageOut k n))"
| "micros Dropped = map Access (atoms Dropped)"
| "micros (RoomMessageIn r n) = Enter r # map Access (atoms (RoomMessageIn r n))"
| "micros (RoomMessageOut r k n) = Enter r # map Access (atoms (RoomMessageOut r k n))"
| "micros (RoomDrop r) = Enter r # map Access (atoms (RoomDrop r))"

text \<open>
  Where a thread is. A snapshot carries the rooms that were listed when its iteration began, which
  it must visit (others it may), the rooms it has read, and the values it has loaded of the one it
  is reading.
\<close>

datatype phase =
    Resting
  | Recording "micro list"
  | Listing "rstr list" "(rstr \<times> room_stats) list"
  | ReadingRoom "rstr list" "(rstr \<times> room_stats) list" rstr "u64 list"
  | ReadingGlobals "(rstr \<times> room_stats) list" "u64 list"

record stats_thread =
  calls_left :: "request list"
  begun :: "request list"                \<comment> \<open>the calls made so far, the current one included\<close>
  phase :: phase
  last_seen :: "stat_cell \<Rightarrow> nat"
  snaps :: "stats list"                  \<comment> \<open>the snapshots taken, in order\<close>

text \<open>The order in which the fields are loaded.\<close>

definition room_cells :: "room_cell list" where
  "room_cells = [CMessagesIn, CMessagesOut, CBytesIn, CBytesOut, CDrops]"

definition global_cells :: "global_cell list" where
  "global_cells = [GConnections, GRooms, GMessagesIn, GMessagesOut, GBytesIn, GBytesOut, GDrops]"

definition loaded_room :: "u64 list \<Rightarrow> room_stats" where
  "loaded_room vs = \<lparr> rs_messages_in = vs ! 0, rs_messages_out = vs ! 1, rs_bytes_in = vs ! 2,
     rs_bytes_out = vs ! 3, rs_drops = vs ! 4 \<rparr>"

definition loaded_stats :: "(rstr \<times> room_stats) list \<Rightarrow> u64 list \<Rightarrow> stats" where
  "loaded_stats per vs = \<lparr> st_connections = vs ! 0, st_rooms = vs ! 1, st_messages_in = vs ! 2,
     st_messages_out = vs ! 3, st_bytes_in = vs ! 4, st_bytes_out = vs ! 5, st_drops = vs ! 6,
     per_room = sort_key fst per \<rparr>"

section \<open>One access\<close>

text \<open>A successful read-modify-write of cell \<open>c\<close>.\<close>

definition modified :: "stat_cell \<Rightarrow> (u64 \<Rightarrow> u64) \<Rightarrow> stats_mem \<Rightarrow> stats_mem" where
  "modified c f m = m\<lparr>cell_hist := (cell_hist m)(c := cell_hist m c @ [f (last (cell_hist m c))])\<rparr>"

definition saw :: "stat_cell \<Rightarrow> nat \<Rightarrow> phase \<Rightarrow> stats_thread \<Rightarrow> stats_thread" where
  "saw c j p t = t\<lparr>phase := p, last_seen := (last_seen t)(c := j)\<rparr>"

definition may_read :: "stat_cell \<Rightarrow> nat \<Rightarrow> stats_mem \<Rightarrow> stats_thread \<Rightarrow> bool" where
  "may_read c j m t \<longleftrightarrow> last_seen t c \<le> j \<and> j < length (cell_hist m c)"

definition enter_room :: "rstr \<Rightarrow> stats_mem \<Rightarrow> stats_mem" where
  "enter_room r m = m\<lparr>listed := (if r \<in> set (listed m) then listed m else listed m @ [r])\<rparr>"

text \<open>
  The load and the compare-exchange of a saturating decrement are taken together: it acts on the
  loaded value when that is still the newest one, and retries otherwise.
\<close>

fun access_step :: "nat \<Rightarrow> atom \<Rightarrow> micro list \<Rightarrow> stats_mem \<Rightarrow> stats_thread \<Rightarrow> (stats_mem \<times> stats_thread) option" where
  "access_step j (AddGlobal x n) us m t =
     Some (modified (Global x) (\<lambda>v. v + n) m, saw (Global x) (length (cell_hist m (Global x))) (Recording us) t)"
| "access_step j (AddRoom r x n) us m t =
     Some (modified (Room r x) (\<lambda>v. v + n) m, saw (Room r x) (length (cell_hist m (Room r x))) (Recording us) t)"
| "access_step j (DecGlobal x) us m t =
     (let c = Global x; v = cell_hist m c ! j in
      if \<not> may_read c j m t then None
      else if v = 0 then Some (m, saw c j (Recording us) t)
      else if v = last (cell_hist m c) then
        Some (modified c (\<lambda>v. v - 1) m, saw c (length (cell_hist m c)) (Recording us) t)
      else Some (m, saw c j (Recording (Access (DecGlobal x) # us)) t))"

text \<open>One access of a thread: \<open>j\<close> chooses the value a load returns, \<open>q\<close> the room the iteration visits next
  (a room that it cannot visit ends the iteration, if that is allowed).\<close>

definition recorder_step :: "nat \<Rightarrow> rstr \<Rightarrow> stats_mem \<Rightarrow> stats_thread \<Rightarrow> (stats_mem \<times> stats_thread) option" where
  "recorder_step j q m t =
     (case phase t of
        Resting \<Rightarrow>
          (case calls_left t of
             [] \<Rightarrow> None
           | k # ks \<Rightarrow>
               Some (m, t\<lparr>calls_left := ks, begun := begun t @ [k],
                 phase := (case k of Record op \<Rightarrow> Recording (micros op) | Snapshot \<Rightarrow> Listing (listed m) [])\<rparr>))
      | Recording us \<Rightarrow>
          (case us of
             [] \<Rightarrow> Some (m, t\<lparr>phase := Resting\<rparr>)
           | Enter r # us \<Rightarrow> Some (enter_room r m, t\<lparr>phase := Recording us\<rparr>)
           | Access a # us \<Rightarrow> access_step j a us m t
           | Reload x # us \<Rightarrow> if may_read (Global x) j m t then Some (m, saw (Global x) j (Recording us) t) else None)
      | Listing must per \<Rightarrow>
          if q \<in> set (listed m) - fst ` set per then Some (m, t\<lparr>phase := ReadingRoom must per q []\<rparr>)
          else if set must \<subseteq> fst ` set per then Some (m, t\<lparr>phase := ReadingGlobals per []\<rparr>)
          else None
      | ReadingRoom must per r vs \<Rightarrow>
          if length vs < length room_cells then
            (let c = Room r (room_cells ! length vs) in
             if may_read c j m t then Some (m, saw c j (ReadingRoom must per r (vs @ [cell_hist m c ! j])) t) else None)
          else Some (m, t\<lparr>phase := Listing must (per @ [(r, loaded_room vs)])\<rparr>)
      | ReadingGlobals per vs \<Rightarrow>
          if length vs < length global_cells then
            (let c = Global (global_cells ! length vs) in
             if may_read c j m t then Some (m, saw c j (ReadingGlobals per (vs @ [cell_hist m c ! j])) t) else None)
          else Some (m, t\<lparr>phase := Resting, snaps := snaps t @ [loaded_stats per vs]\<rparr>))"

record stats_world =
  smem :: stats_mem
  sthreads :: "stats_thread list"

text \<open>A schedule names the thread of each access and the choices it makes.\<close>

definition stats_step :: "nat \<times> nat \<times> rstr \<Rightarrow> stats_world \<Rightarrow> stats_world" where
  "stats_step e w =
     (case e of (i, j, q) \<Rightarrow>
        if i < length (sthreads w) then
          case recorder_step j q (smem w) (sthreads w ! i) of
            None \<Rightarrow> w
          | Some (m, t) \<Rightarrow> \<lparr> smem = m, sthreads = (sthreads w)[i := t] \<rparr>
        else w)"

definition stats_start :: "request list list \<Rightarrow> stats_world" where
  "stats_start progs =
     \<lparr> smem = \<lparr> cell_hist = (\<lambda>_. [0]), listed = [] \<rparr>,
       sthreads = map (\<lambda>p. \<lparr> calls_left = p, begun = [], phase = Resting, last_seen = (\<lambda>_. 0), snaps = [] \<rparr>) progs \<rparr>"

definition stats_run :: "(nat \<times> nat \<times> rstr) list \<Rightarrow> request list list \<Rightarrow> stats_world" where
  "stats_run es progs = fold stats_step es (stats_start progs)"

text \<open>The kinds of access.\<close>

lemma recorder_step_cases:
  assumes "recorder_step j q m t = Some (m', t')"
  obtains
    (begin_record) op ks where "phase t = Resting" "calls_left t = Record op # ks" "m' = m"
      "t' = t\<lparr>calls_left := ks, begun := begun t @ [Record op], phase := Recording (micros op)\<rparr>"
  | (begin_snapshot) ks where "phase t = Resting" "calls_left t = Snapshot # ks" "m' = m"
      "t' = t\<lparr>calls_left := ks, begun := begun t @ [Snapshot], phase := Listing (listed m) []\<rparr>"
  | (recorded) "phase t = Recording []" "m' = m" "t' = t\<lparr>phase := Resting\<rparr>"
  | (entered) r us where "phase t = Recording (Enter r # us)" "m' = enter_room r m" "t' = t\<lparr>phase := Recording us\<rparr>"
  | (added_global) x n us where "phase t = Recording (Access (AddGlobal x n) # us)"
      "m' = modified (Global x) (\<lambda>v. v + n) m" "t' = saw (Global x) (length (cell_hist m (Global x))) (Recording us) t"
  | (added_room) r x n us where "phase t = Recording (Access (AddRoom r x n) # us)"
      "m' = modified (Room r x) (\<lambda>v. v + n) m" "t' = saw (Room r x) (length (cell_hist m (Room r x))) (Recording us) t"
  | (looked) x u us us' where "phase t = Recording (u # us)" "u = Access (DecGlobal x) \<or> u = Reload x"
      "may_read (Global x) j m t" "m' = m" "us' = us \<or> us' = u # us" "t' = saw (Global x) j (Recording us') t"
  | (took) x us where "phase t = Recording (Access (DecGlobal x) # us)" "last (cell_hist m (Global x)) \<noteq> 0"
      "m' = modified (Global x) (\<lambda>v. v - 1) m" "t' = saw (Global x) (length (cell_hist m (Global x))) (Recording us) t"
  | (visited) must per where "phase t = Listing must per" "q \<in> set (listed m)" "q \<notin> fst ` set per" "m' = m"
      "t' = t\<lparr>phase := ReadingRoom must per q []\<rparr>"
  | (all_visited) must per where "phase t = Listing must per" "set must \<subseteq> fst ` set per" "m' = m"
      "t' = t\<lparr>phase := ReadingGlobals per []\<rparr>"
  | (read_room) must per r vs c where "phase t = ReadingRoom must per r vs" "length vs < length room_cells"
      "c = Room r (room_cells ! length vs)" "may_read c j m t" "m' = m"
      "t' = saw c j (ReadingRoom must per r (vs @ [cell_hist m c ! j])) t"
  | (room_read) must per r vs where "phase t = ReadingRoom must per r vs" "length room_cells \<le> length vs" "m' = m"
      "t' = t\<lparr>phase := Listing must (per @ [(r, loaded_room vs)])\<rparr>"
  | (read_global) per vs c where "phase t = ReadingGlobals per vs" "length vs < length global_cells"
      "c = Global (global_cells ! length vs)" "may_read c j m t" "m' = m"
      "t' = saw c j (ReadingGlobals per (vs @ [cell_hist m c ! j])) t"
  | (taken) per vs where "phase t = ReadingGlobals per vs" "length global_cells \<le> length vs" "m' = m"
      "t' = t\<lparr>phase := Resting, snaps := snaps t @ [loaded_stats per vs]\<rparr>"
proof (cases "phase t")
  case Resting
  then show ?thesis
    using assms that(1,2) by (auto simp: recorder_step_def split: list.splits request.splits)
next
  case (Recording us)
  show ?thesis
  proof (cases us)
    case Nil
    then show ?thesis using assms that(3) Recording by (auto simp: recorder_step_def)
  next
    case (Cons u us')
    show ?thesis
    proof (cases u)
      case (Enter r)
      then show ?thesis using assms that(4) Recording Cons by (auto simp: recorder_step_def)
    next
      case (Reload x)
      then show ?thesis
        using assms that(7) [OF Recording [unfolded Cons], of x us'] Recording Cons
        by (auto simp: recorder_step_def split: if_splits)
    next
      case (Access a)
      note ph = Recording [unfolded Cons Access]
      have step: "access_step j a us' m t = Some (m', t')"
        using assms ph by (simp add: recorder_step_def)
      show ?thesis
      proof (cases a)
        case (AddGlobal x n)
        with step show ?thesis by (intro that(5) [OF ph [unfolded AddGlobal]]) simp_all
      next
        case (AddRoom r x n)
        with step show ?thesis by (intro that(6) [OF ph [unfolded AddRoom]]) simp_all
      next
        case (DecGlobal x)
        note ph = ph [unfolded DecGlobal]
        let ?v = "cell_hist m (Global x) ! j"
        have may: "may_read (Global x) j m t"
          using step unfolding DecGlobal access_step.simps Let_def by (simp split: if_splits)
        show ?thesis
        proof (cases "?v \<noteq> 0 \<and> ?v = last (cell_hist m (Global x))")
          case True
          then have "last (cell_hist m (Global x)) \<noteq> 0" by metis
          moreover from this True step may have "m' = modified (Global x) (\<lambda>v. v - 1) m"
            "t' = saw (Global x) (length (cell_hist m (Global x))) (Recording us') t"
            unfolding DecGlobal access_step.simps Let_def by simp_all
          ultimately show ?thesis by (rule that(8) [OF ph])
        next
          case False
          with step may have "m' = m" "\<exists>us''. (us'' = us' \<or> us'' = Access (DecGlobal x) # us') \<and>
              t' = saw (Global x) j (Recording us'') t"
            unfolding DecGlobal access_step.simps Let_def by (auto split: if_splits)
          then show ?thesis using that(7) [OF ph _ may] by blast
        qed
      qed
    qed
  qed
next
  case (Listing must per)
  then show ?thesis
    using assms that(9,10) by (auto simp: recorder_step_def split: if_splits)
next
  case (ReadingRoom must per r vs)
  then show ?thesis
    using assms that(11,12) by (auto simp: recorder_step_def Let_def split: if_splits)
next
  case (ReadingGlobals per vs)
  then show ?thesis
    using assms that(13,14) by (auto simp: recorder_step_def Let_def split: if_splits)
qed

section \<open>What was recorded\<close>

text \<open>Counters that only grow; the two gauges also go down.\<close>

definition traffic :: "stat_cell \<Rightarrow> bool" where
  "traffic c \<longleftrightarrow> c \<noteq> Global GConnections \<and> c \<noteq> Global GRooms"

primrec atom_amount :: "stat_cell \<Rightarrow> atom \<Rightarrow> nat" where
  "atom_amount c (AddGlobal x n) = (if c = Global x then unat n else 0)"
| "atom_amount c (AddRoom r x n) = (if c = Room r x then unat n else 0)"
| "atom_amount c (DecGlobal x) = 0"

primrec micro_amount :: "stat_cell \<Rightarrow> micro \<Rightarrow> nat" where
  "micro_amount c (Enter r) = 0"
| "micro_amount c (Access a) = atom_amount c a"
| "micro_amount c (Reload x) = 0"

primrec request_amount :: "stat_cell \<Rightarrow> request \<Rightarrow> nat" where
  "request_amount c (Record op) = sum_list (map (atom_amount c) (atoms op))"
| "request_amount c Snapshot = 0"

definition requested :: "stat_cell \<Rightarrow> request list \<Rightarrow> nat" where
  "requested c ks = sum_list (map (request_amount c) ks)"

primrec unfinished :: "stat_cell \<Rightarrow> phase \<Rightarrow> nat" where
  "unfinished c Resting = 0"
| "unfinished c (Recording us) = sum_list (map (micro_amount c) us)"
| "unfinished c (Listing must per) = 0"
| "unfinished c (ReadingRoom must per r vs) = 0"
| "unfinished c (ReadingGlobals per vs) = 0"

text \<open>What a thread has recorded in a cell so far.\<close>

definition recorded :: "stat_cell \<Rightarrow> stats_thread \<Rightarrow> nat" where
  "recorded c t = requested c (begun t) - unfinished c (phase t)"

text \<open>The calls before the snapshot number \<open>k\<close> of a program.\<close>

fun upto_snapshot :: "nat \<Rightarrow> request list \<Rightarrow> request list" where
  "upto_snapshot k [] = []"
| "upto_snapshot k (Record op # ks) = Record op # upto_snapshot k ks"
| "upto_snapshot 0 (Snapshot # ks) = []"
| "upto_snapshot (Suc k) (Snapshot # ks) = Snapshot # upto_snapshot k ks"

primrec room_field :: "room_cell \<Rightarrow> room_stats \<Rightarrow> u64" where
  "room_field CMessagesIn s = rs_messages_in s"
| "room_field CMessagesOut s = rs_messages_out s"
| "room_field CBytesIn s = rs_bytes_in s"
| "room_field CBytesOut s = rs_bytes_out s"
| "room_field CDrops s = rs_drops s"

primrec global_field :: "global_cell \<Rightarrow> stats \<Rightarrow> u64" where
  "global_field GConnections s = st_connections s"
| "global_field GRooms s = st_rooms s"
| "global_field GMessagesIn s = st_messages_in s"
| "global_field GMessagesOut s = st_messages_out s"
| "global_field GBytesIn s = st_bytes_in s"
| "global_field GBytesOut s = st_bytes_out s"
| "global_field GDrops s = st_drops s"

text \<open>What a snapshot says of a cell; a room it does not list has recorded nothing.\<close>

primrec stat_value :: "stat_cell \<Rightarrow> stats \<Rightarrow> u64" where
  "stat_value (Global x) s = global_field x s"
| "stat_value (Room r x) s = (case map_of (per_room s) r of None \<Rightarrow> 0 | Some rs \<Rightarrow> room_field x rs)"

lemma requested_simps [simp]:
  "requested c [] = 0" "requested c (k # ks) = request_amount c k + requested c ks"
  "requested c (ks @ ls) = requested c ks + requested c ls"
  by (simp_all add: requested_def)

lemma micros_amount: "sum_list (map (micro_amount c) (micros op)) = request_amount c (Record op)"
  by (cases op) simp_all

lemma micros_no_traffic_dec: "Access (DecGlobal x) \<in> set (micros op) \<Longrightarrow> \<not> traffic (Global x)"
  by (cases op) (auto simp: traffic_def)

lemma micros_enter: "Access (AddRoom r x n) \<in> set (micros op) \<Longrightarrow> \<exists>us. micros op = Enter r # us"
  by (cases op) auto

lemma upto_snapshot_eq:
  "length (filter (\<lambda>k. k = Snapshot) ks) = n \<Longrightarrow> upto_snapshot n (ks @ Snapshot # ls) = ks"
proof (induction ks arbitrary: n)
  case (Cons k ks)
  then show ?case by (cases k) auto
qed simp

lemma room_field_loaded: "k < length room_cells \<Longrightarrow> room_field (room_cells ! k) (loaded_room vs) = vs ! k"
  by (auto simp: room_cells_def loaded_room_def less_Suc_eq numeral_eq_Suc)

lemma global_field_loaded: "k < length global_cells \<Longrightarrow> global_field (global_cells ! k) (loaded_stats per vs) = vs ! k"
  by (auto simp: global_cells_def loaded_stats_def less_Suc_eq numeral_eq_Suc)

lemma room_cells_all: "\<exists>k. k < length room_cells \<and> room_cells ! k = x"
  using in_set_conv_nth [of x room_cells] by (cases x) (simp_all add: room_cells_def)

lemma global_cells_all: "\<exists>k. k < length global_cells \<and> global_cells ! k = x"
  using in_set_conv_nth [of x global_cells] by (cases x) (simp_all add: global_cells_def)

lemma map_of_sort_key:
  "distinct (map fst xs) \<Longrightarrow> map_of (sort_key fst xs) = map_of xs"
  by (rule map_of_inject_set [THEN iffD2]) (simp_all add: distinct_map)

section \<open>Invariants\<close>

subsection \<open>The cells\<close>

definition cells_ok :: "stats_mem \<Rightarrow> stats_thread \<Rightarrow> bool" where
  "cells_ok m t \<longleftrightarrow> (\<forall>c. last_seen t c < length (cell_hist m c)) \<and>
     (\<forall>c. traffic c \<longrightarrow> sorted (map unat (cell_hist m c)))"

text \<open>A thread's calls: its place in its program and the well-formedness of the call under way.\<close>

definition calls_ok :: "request list \<Rightarrow> stats_thread \<Rightarrow> bool" where
  "calls_ok p t \<longleftrightarrow> begun t @ calls_left t = p \<and> (\<forall>c. unfinished c (phase t) \<le> requested c (begun t)) \<and>
     (case phase t of Recording us \<Rightarrow> \<forall>x. Access (DecGlobal x) \<in> set us \<longrightarrow> \<not> traffic (Global x) | _ \<Rightarrow> True)"

lemma calls_ok_step:
  assumes "calls_ok p t" "recorder_step j q m t = Some (m', t')"
  shows "calls_ok p t'"
  using assms(2)
proof (cases rule: recorder_step_cases)
  case (begin_record op ks)
  with assms(1) show ?thesis
    by (auto simp: calls_ok_def micros_amount dest: micros_no_traffic_dec)
next
  case (looked x u us us')
  then show ?thesis
    using assms(1) by (auto simp: calls_ok_def saw_def)
qed (use assms(1) in \<open>auto simp: calls_ok_def saw_def intro: le_trans [OF le_add2]\<close>)

text \<open>The effect of a step on a traffic counter.\<close>

lemma step_amount:
  assumes "calls_ok p t" "recorder_step j q m t = Some (m', t')" "traffic c"
  obtains (same) "cell_hist m' c = cell_hist m c" "recorded c t' = recorded c t"
  | (added) n where "cell_hist m' c = cell_hist m c @ [last (cell_hist m c) + n]" "last_seen t' c = length (cell_hist m c)"
      "recorded c t' = recorded c t + unat n" "unat n \<le> unfinished c (phase t)"
      "\<And>r x. c = Room r x \<Longrightarrow> \<exists>n us. phase t = Recording (Access (AddRoom r x n) # us)"
proof -
  have le: "unfinished c (phase t) \<le> requested c (begun t)"
    using assms(1) by (simp add: calls_ok_def)
  from assms(2) show ?thesis
  proof (cases rule: recorder_step_cases)
    case (begin_record op ks)
    then show ?thesis by (intro same) (simp_all add: recorded_def micros_amount)
  next
    case (added_global x n us)
    show ?thesis
    proof (cases "c = Global x")
      case True
      with added_global le show ?thesis
        by (intro added [of n]) (simp_all add: modified_def saw_def recorded_def)
    qed (use added_global in \<open>intro same; simp add: modified_def saw_def recorded_def\<close>)
  next
    case (added_room r x n us)
    show ?thesis
    proof (cases "c = Room r x")
      case True
      with added_room le show ?thesis
        by (intro added [of n]) (simp_all add: modified_def saw_def recorded_def)
    qed (use added_room in \<open>intro same; simp add: modified_def saw_def recorded_def\<close>)
  next
    case (looked x u us us')
    then show ?thesis by (intro same) (auto simp: saw_def recorded_def)
  next
    case (took x us)
    with assms(1,3) have "c \<noteq> Global x" by (auto simp: calls_ok_def)
    with took show ?thesis by (intro same) (simp_all add: modified_def saw_def recorded_def)
  qed (intro same; simp add: saw_def recorded_def enter_room_def)+
qed

text \<open>Cells grow at the end, rooms stay listed, and what a thread has seen of a cell does not change.\<close>

definition mem_le :: "stats_mem \<Rightarrow> stats_mem \<Rightarrow> bool" where
  "mem_le m m' \<longleftrightarrow> (\<forall>c. prefix (cell_hist m c) (cell_hist m' c)) \<and> set (listed m) \<subseteq> set (listed m')"

lemma step_mem_le: "recorder_step j q m t = Some (m', t') \<Longrightarrow> mem_le m m'"
  by (cases rule: recorder_step_cases) (auto simp: mem_le_def modified_def enter_room_def)

lemma step_seen:
  assumes "recorder_step j q m t = Some (m', t')" "last_seen t c < length (cell_hist m c)"
  shows "last_seen t c \<le> last_seen t' c \<and> last_seen t' c < length (cell_hist m' c)"
  using assms(1) by (cases rule: recorder_step_cases)
    (use assms(2) in \<open>auto simp: saw_def may_read_def modified_def enter_room_def\<close>)

lemma mem_le_nth: "mem_le m m' \<Longrightarrow> k < length (cell_hist m c) \<Longrightarrow> cell_hist m' c ! k = cell_hist m c ! k"
  by (auto simp: mem_le_def prefix_def nth_append dest!: spec [of _ c])

subsection \<open>What a thread knows, has recorded and has reported\<close>

definition known :: "stats_mem \<Rightarrow> stats_thread \<Rightarrow> stat_cell \<Rightarrow> u64" where
  "known m t c = cell_hist m c ! last_seen t c"

text \<open>A value that may stand in the thread's next snapshot: not less than what it has recorded or
  reported before, and not more than it knows.\<close>

definition fresh :: "stats_mem \<Rightarrow> stats_thread \<Rightarrow> stat_cell \<Rightarrow> u64 \<Rightarrow> bool" where
  "fresh m t c v \<longleftrightarrow> recorded c t \<le> unat v \<and> (\<forall>s\<in>set (snaps t). unat (stat_value c s) \<le> unat v) \<and>
     unat v \<le> unat (known m t c)"

definition untouched :: "stats_thread \<Rightarrow> rstr \<Rightarrow> bool" where
  "untouched t r \<longleftrightarrow> (\<forall>x. recorded (Room r x) t = 0) \<and> (\<forall>s\<in>set (snaps t). r \<notin> fst ` set (per_room s))"

definition rooms_ok :: "stats_mem \<Rightarrow> stats_thread \<Rightarrow> (rstr \<times> room_stats) list \<Rightarrow> bool" where
  "rooms_ok m t per \<longleftrightarrow> distinct (map fst per) \<and>
     (\<forall>(r, rs)\<in>set per. r \<in> set (listed m) \<and> (\<forall>x. fresh m t (Room r x) (room_field x rs)))"

primrec reads_ok :: "stats_mem \<Rightarrow> stats_thread \<Rightarrow> phase \<Rightarrow> bool" where
  "reads_ok m t Resting = True"
| "reads_ok m t (Recording us) = (\<forall>r x n. Access (AddRoom r x n) \<in> set us \<longrightarrow>
     r \<in> set (listed m) \<or> (\<exists>us'. us = Enter r # us'))"
| "reads_ok m t (Listing must per) = ((\<forall>r. r \<notin> set must \<longrightarrow> untouched t r) \<and> rooms_ok m t per)"
| "reads_ok m t (ReadingRoom must per r vs) = ((\<forall>r. r \<notin> set must \<longrightarrow> untouched t r) \<and> rooms_ok m t per \<and>
     r \<in> set (listed m) \<and> r \<notin> fst ` set per \<and>
     (\<forall>k < length vs. k < length room_cells \<longrightarrow> fresh m t (Room r (room_cells ! k)) (vs ! k)))"
| "reads_ok m t (ReadingGlobals per vs) = ((\<forall>r. r \<notin> fst ` set per \<longrightarrow> untouched t r) \<and> rooms_ok m t per \<and>
     (\<forall>k < length vs. k < length global_cells \<longrightarrow> traffic (Global (global_cells ! k)) \<longrightarrow>
        fresh m t (Global (global_cells ! k)) (vs ! k)))"

definition own_ok :: "stats_mem \<Rightarrow> stats_thread \<Rightarrow> bool" where
  "own_ok m t \<longleftrightarrow> (\<forall>c. traffic c \<longrightarrow> recorded c t \<le> unat (known m t c)) \<and>
     (\<forall>r x. r \<notin> set (listed m) \<longrightarrow> recorded (Room r x) t = 0)"

definition snaps_ok :: "request list \<Rightarrow> stats_mem \<Rightarrow> stats_thread \<Rightarrow> bool" where
  "snaps_ok p m t \<longleftrightarrow>
     (\<forall>k < length (snaps t). fst ` set (per_room (snaps t ! k)) \<subseteq> set (listed m) \<and>
        (\<forall>c. traffic c \<longrightarrow> requested c (upto_snapshot k p) \<le> unat (stat_value c (snaps t ! k)) \<and>
           unat (stat_value c (snaps t ! k)) \<le> unat (known m t c))) \<and>
     (\<forall>k l c. k < l \<longrightarrow> l < length (snaps t) \<longrightarrow> traffic c \<longrightarrow>
        unat (stat_value c (snaps t ! k)) \<le> unat (stat_value c (snaps t ! l)))"

primrec snapping :: "phase \<Rightarrow> bool" where
  "snapping Resting = False"
| "snapping (Recording us) = False"
| "snapping (Listing must per) = True"
| "snapping (ReadingRoom must per r vs) = True"
| "snapping (ReadingGlobals per vs) = True"

definition count_ok :: "stats_thread \<Rightarrow> bool" where
  "count_ok t \<longleftrightarrow> length (filter (\<lambda>k. k = Snapshot) (begun t)) = length (snaps t) + (if snapping (phase t) then 1 else 0) \<and>
     (snapping (phase t) \<longrightarrow> (\<exists>ks. begun t = ks @ [Snapshot]))"

definition thread_ok :: "request list \<Rightarrow> stats_mem \<Rightarrow> stats_thread \<Rightarrow> bool" where
  "thread_ok p m t \<longleftrightarrow> calls_ok p t \<and> cells_ok m t \<and> count_ok t \<and> own_ok m t \<and> snaps_ok p m t \<and>
     reads_ok m t (phase t)"

text \<open>What a thread knows only grows, by its own steps and by those of others.\<close>

definition learns :: "stats_mem \<Rightarrow> stats_thread \<Rightarrow> stats_mem \<Rightarrow> stats_thread \<Rightarrow> bool" where
  "learns m t m' t' \<longleftrightarrow> set (listed m) \<subseteq> set (listed m') \<and>
     (\<forall>c. traffic c \<longrightarrow> unat (known m t c) \<le> unat (known m' t' c))"

lemma traffic_Room [simp]: "traffic (Room r x)"
  by (simp add: traffic_def)

lemma fresh_mono:
  "fresh m t c v \<Longrightarrow> learns m t m' t' \<Longrightarrow> traffic c \<Longrightarrow> recorded c t' = recorded c t \<Longrightarrow> snaps t' = snaps t \<Longrightarrow>
   fresh m' t' c v"
  by (auto simp: fresh_def learns_def intro: le_trans)

lemma untouched_cong:
  "(\<And>c. recorded c t' = recorded c t) \<Longrightarrow> snaps t' = snaps t \<Longrightarrow> untouched t' r = untouched t r"
  by (simp add: untouched_def)

lemma rooms_ok_mono:
  assumes "rooms_ok m t per" "learns m t m' t'" "\<And>c. recorded c t' = recorded c t" "snaps t' = snaps t"
  shows "rooms_ok m' t' per"
  using assms(1) fresh_mono [OF _ assms(2) _ assms(3,4)] assms(2)
  unfolding rooms_ok_def learns_def by fastforce

lemma reads_ok_mono:
  assumes "reads_ok m t p" "learns m t m' t'" "\<And>c. recorded c t' = recorded c t" "snaps t' = snaps t"
  shows "reads_ok m' t' p"
proof -
  note mono = fresh_mono [OF _ assms(2) _ assms(3,4)] rooms_ok_mono [OF _ assms(2-4)]
  have sub: "r \<in> set (listed m) \<Longrightarrow> r \<in> set (listed m')" for r
    using assms(2) by (auto simp: learns_def)
  show ?thesis
  proof (cases p)
    case (Recording us)
    with assms(1) sub show ?thesis by (simp only: reads_ok.simps) blast
  qed (use assms(1) sub mono untouched_cong [OF assms(3,4)] in simp_all)
qed

lemma snaps_ok_mono:
  assumes "snaps_ok p m t" "learns m t m' t'" "snaps t' = snaps t"
  shows "snaps_ok p m' t'"
proof -
  have "traffic c \<Longrightarrow> unat v \<le> unat (known m t c) \<Longrightarrow> unat v \<le> unat (known m' t' c)" for c v
    using assms(2) by (meson learns_def le_trans)
  moreover have "set (listed m) \<subseteq> set (listed m')"
    using assms(2) by (simp add: learns_def)
  ultimately show ?thesis
    using assms(1) unfolding snaps_ok_def assms(3) by (meson subset_trans)
qed

text \<open>Steps of other threads.\<close>

lemma thread_ok_other:
  assumes "thread_ok p m t" "mem_le m m'" "\<And>c. traffic c \<Longrightarrow> sorted (map unat (cell_hist m' c))"
  shows "thread_ok p m' t"
proof -
  have seen: "last_seen t c < length (cell_hist m c)" for c
    using assms(1) by (simp add: thread_ok_def cells_ok_def)
  then have known: "known m' t c = known m t c" for c
    using mem_le_nth [OF assms(2)] by (simp add: known_def)
  then have learns: "learns m t m' t"
    using assms(2) by (simp add: learns_def mem_le_def)
  have "last_seen t c < length (cell_hist m' c)" for c
    using seen [of c] assms(2) by (meson mem_le_def order_less_le_trans prefix_length_le)
  with assms(3) have "cells_ok m' t" by (simp add: cells_ok_def)
  moreover have "own_ok m' t"
    using assms(1,2) known by (auto simp: thread_ok_def own_ok_def mem_le_def)
  ultimately show ?thesis
    using assms(1) reads_ok_mono [OF _ learns] snaps_ok_mono [OF _ learns] by (simp add: thread_ok_def)
qed

subsection \<open>Own steps\<close>

text \<open>The counters do not wrap: what they hold and what the thread has still to add fits.\<close>

definition roomy :: "stats_mem \<Rightarrow> stats_thread \<Rightarrow> bool" where
  "roomy m t \<longleftrightarrow> (\<forall>c. traffic c \<longrightarrow> unat (last (cell_hist m c)) + unfinished c (phase t) < 2 ^ 64)"

lemma unat_add_roomy:
  "roomy m t \<Longrightarrow> traffic c \<Longrightarrow> unat n \<le> unfinished c (phase t) \<Longrightarrow>
   unat (last (cell_hist m c) + n) = unat (last (cell_hist m c)) + unat n"
  unfolding roomy_def unat_word_ariths by (drule spec [of _ c]) simp

lemma cells_nonempty: "cells_ok m t \<Longrightarrow> cell_hist m c \<noteq> []"
  unfolding cells_ok_def by (metis list.size(3) not_less_zero)

lemma cells_ok_step:
  assumes "calls_ok p t" "cells_ok m t" "roomy m t" "recorder_step j q m t = Some (m', t')"
  shows "cells_ok m' t'"
  unfolding cells_ok_def
proof (intro conjI allI impI)
  fix c
  have "last_seen t c < length (cell_hist m c)"
    using assms(2) by (simp add: cells_ok_def)
  with step_seen [OF assms(4)] show "last_seen t' c < length (cell_hist m' c)" by blast
next
  fix c
  assume c: "traffic c"
  have sorted: "sorted (map unat (cell_hist m c))" and "cell_hist m c \<noteq> []"
    using assms(2) c cells_nonempty by (simp_all add: cells_ok_def)
  then have le: "x \<in> set (cell_hist m c) \<Longrightarrow> unat x \<le> unat (last (cell_hist m c))" for x
    using sorted_le_last [OF sorted, of "unat x"] by (simp add: last_map)
  from assms(1,4) c show "sorted (map unat (cell_hist m' c))"
  proof (cases rule: step_amount)
    case (added n)
    with sorted le show ?thesis
      by (auto simp: sorted_append unat_add_roomy [OF assms(3) c] intro: le_trans [OF _ le_add1])
  qed (use sorted in simp)
qed

lemma known_le_last:
  assumes "cells_ok m t" "traffic c"
  shows "unat (known m t c) \<le> unat (last (cell_hist m c))"
proof -
  have "cell_hist m c \<noteq> []" "known m t c \<in> set (cell_hist m c)"
    using assms(1) cells_nonempty by (simp_all add: cells_ok_def known_def)
  with sorted_le_last [of "map unat (cell_hist m c)" "unat (known m t c)"] assms show ?thesis
    by (simp add: cells_ok_def last_map)
qed

lemma learns_step:
  assumes "calls_ok p t" "cells_ok m t" "roomy m t" "recorder_step j q m t = Some (m', t')"
  shows "learns m t m' t'"
  unfolding learns_def
proof (intro conjI allI impI)
  show "set (listed m) \<subseteq> set (listed m')"
    using step_mem_le [OF assms(4)] by (simp add: mem_le_def)
next
  fix c
  assume c: "traffic c"
  have seen: "last_seen t c < length (cell_hist m c)"
    using assms(2) by (simp add: cells_ok_def)
  have "sorted (map unat (cell_hist m' c))"
    using cells_ok_step [OF assms] c by (simp add: cells_ok_def)
  then have "unat (cell_hist m' c ! last_seen t c) \<le> unat (cell_hist m' c ! last_seen t' c)"
    using sorted_nth_mono [of "map unat (cell_hist m' c)" "last_seen t c" "last_seen t' c"]
      step_seen [OF assms(4) seen] by simp
  then show "unat (known m t c) \<le> unat (known m' t' c)"
    using mem_le_nth [OF step_mem_le [OF assms(4)] seen] by (simp add: known_def)
qed

lemma own_ok_step:
  assumes "calls_ok p t" "cells_ok m t" "roomy m t" "recorder_step j q m t = Some (m', t')"
    and "own_ok m t" "reads_ok m t (phase t)"
  shows "own_ok m' t'"
  unfolding own_ok_def
proof (intro conjI allI impI)
  fix c
  assume c: "traffic c"
  have own: "recorded c t \<le> unat (known m t c)"
    using assms(5) c by (simp add: own_ok_def)
  from assms(1,4) c show "recorded c t' \<le> unat (known m' t' c)"
  proof (cases rule: step_amount)
    case same
    with own learns_step [OF assms(1-4)] c show ?thesis by (auto simp: learns_def intro: le_trans)
  next
    case (added n)
    then have "known m' t' c = last (cell_hist m c) + n" by (simp add: known_def)
    with added own known_le_last [OF assms(2) c] show ?thesis
      by (simp add: unat_add_roomy [OF assms(3) c])
  qed
next
  fix r x
  assume "r \<notin> set (listed m')"
  then have r: "r \<notin> set (listed m)"
    using step_mem_le [OF assms(4)] by (auto simp: mem_le_def)
  from assms(1,4) traffic_Room show "recorded (Room r x) t' = 0"
  proof (cases rule: step_amount [where c = "Room r x"])
    case same
    with r assms(5) show ?thesis by (simp add: own_ok_def)
  next
    case (added n)
    from added(5) [OF refl] obtain k us where "phase t = Recording (Access (AddRoom r x k) # us)" by blast
    with assms(6) have "r \<in> set (listed m)" by fastforce
    with r show ?thesis by blast
  qed
qed

lemma count_ok_step:
  assumes "count_ok t" "recorder_step j q m t = Some (m', t')"
  shows "count_ok t'"
  using assms(2) by (cases rule: recorder_step_cases) (use assms(1) in \<open>auto simp: count_ok_def saw_def\<close>)

text \<open>A load gives a fresh value.\<close>

lemma fresh_load:
  assumes "cells_ok m t" "own_ok m t" "snaps_ok p m t" "traffic c" "may_read c j m t"
    and "recorded c t' = recorded c t" "snaps t' = snaps t" "last_seen t' c = j"
  shows "fresh m t' c (cell_hist m c ! j)"
proof -
  have le: "unat (known m t c) \<le> unat (cell_hist m c ! j)"
    using assms(1,4,5) sorted_nth_mono [of "map unat (cell_hist m c)" "last_seen t c" j]
    by (simp add: cells_ok_def may_read_def known_def)
  moreover have "unat (stat_value c s) \<le> unat (known m t c)" if "s \<in> set (snaps t)" for s
    using assms(3,4) that by (auto simp: snaps_ok_def in_set_conv_nth)
  ultimately show ?thesis
    using assms(2,4,6-8) by (auto simp: fresh_def known_def own_ok_def intro: le_trans)
qed

lemma recorded_snapping:
  "begun t' = begun t \<Longrightarrow> snapping (phase t) \<Longrightarrow> unfinished c (phase t') = 0 \<Longrightarrow> recorded c t' = recorded c t"
  by (cases "phase t") (simp_all add: recorded_def)

lemma all_room_fields:
  "(\<forall>k < length vs. k < length room_cells \<longrightarrow> fresh m t (Room r (room_cells ! k)) (vs ! k)) \<Longrightarrow>
   length room_cells \<le> length vs \<Longrightarrow> fresh m t (Room r x) (room_field x (loaded_room vs))"
  using room_cells_all [of x] room_field_loaded by fastforce

lemma all_global_fields:
  "(\<forall>k < length vs. k < length global_cells \<longrightarrow> traffic (Global (global_cells ! k)) \<longrightarrow>
      fresh m t (Global (global_cells ! k)) (vs ! k)) \<Longrightarrow>
   length global_cells \<le> length vs \<Longrightarrow> traffic (Global x) \<Longrightarrow> fresh m t (Global x) (global_field x (loaded_stats per vs))"
  using global_cells_all [of x] global_field_loaded by fastforce

lemma per_room_loaded:
  "distinct (map fst per) \<Longrightarrow> map_of (per_room (loaded_stats per vs)) = map_of per"
  "set (per_room (loaded_stats per vs)) = set per"
  by (simp_all add: loaded_stats_def map_of_sort_key)

lemma snaps_listed:
  assumes "snaps_ok p m t" "s \<in> set (snaps t)"
  shows "fst ` set (per_room s) \<subseteq> set (listed m)"
proof -
  obtain k where "k < length (snaps t)" "snaps t ! k = s"
    using assms(2) by (auto simp: in_set_conv_nth)
  with assms(1) show ?thesis unfolding snaps_ok_def by blast
qed

lemma reads_ok_step:
  assumes "calls_ok p t" "cells_ok m t" "roomy m t" "own_ok m t" "snaps_ok p m t" "reads_ok m t (phase t)"
    and step: "recorder_step j q m t = Some (m', t')"
  shows "reads_ok m' t' (phase t')"
proof -
  note learns = learns_step [OF assms(1-3) step]
  note load = fresh_load [OF assms(2,4,5)]
  from step show ?thesis
  proof (cases rule: recorder_step_cases)
    case (begin_record op ks)
    then show ?thesis by (auto dest: micros_enter)
  next
    case (begin_snapshot ks)
    then have "recorded c t' = recorded c t" for c by (simp add: recorded_def)
    moreover have "r \<notin> set (listed m) \<Longrightarrow> \<forall>s\<in>set (snaps t). r \<notin> fst ` set (per_room s)" for r
      using snaps_listed [OF assms(5)] by blast
    ultimately show ?thesis
      using begin_snapshot assms(4) by (simp add: untouched_def own_ok_def rooms_ok_def)
  next
    case (entered r us)
    with assms(6) show ?thesis by (auto simp: enter_room_def)
  next
    case (added_global x n us)
    with assms(6) show ?thesis by (fastforce simp: saw_def modified_def)
  next
    case (added_room r x n us)
    with assms(6) show ?thesis by (fastforce simp: saw_def modified_def)
  next
    case (looked x u us us')
    with assms(6) show ?thesis by (fastforce simp: saw_def)
  next
    case (took x us)
    with assms(6) show ?thesis by (fastforce simp: saw_def modified_def)
  next
    case (visited must per)
    then have same: "\<And>c. recorded c t' = recorded c t" "snaps t' = snaps t" by (simp_all add: recorded_def)
    with visited assms(6) rooms_ok_mono [OF _ learns same] untouched_cong [OF same] show ?thesis by simp
  next
    case (all_visited must per)
    then have same: "\<And>c. recorded c t' = recorded c t" "snaps t' = snaps t" by (simp_all add: recorded_def)
    with all_visited assms(6) rooms_ok_mono [OF _ learns same] untouched_cong [OF same] show ?thesis by auto
  next
    case (read_room must per r vs c)
    then have same: "\<And>c. recorded c t' = recorded c t" "snaps t' = snaps t" by (simp_all add: recorded_def saw_def)
    have "fresh m' t' c (cell_hist m c ! j)"
      unfolding read_room(5) by (rule load) (use read_room same in \<open>simp_all add: saw_def\<close>)
    moreover have "reads_ok m' t' (ReadingRoom must per r vs)"
      by (rule reads_ok_mono [OF assms(6) [unfolded read_room(1)] learns same])
    ultimately show ?thesis
      using read_room by (auto simp: saw_def nth_append less_Suc_eq)
  next
    case (room_read must per r vs)
    then have same: "\<And>c. recorded c t' = recorded c t" "snaps t' = snaps t" by (simp_all add: recorded_def)
    have "reads_ok m' t' (ReadingRoom must per r vs)"
      by (rule reads_ok_mono [OF assms(6) [unfolded room_read(1)] learns same])
    with all_room_fields [OF _ room_read(2)] show ?thesis
      using room_read by (simp add: rooms_ok_def)
  next
    case (read_global per vs c)
    then have same: "\<And>c. recorded c t' = recorded c t" "snaps t' = snaps t" by (simp_all add: recorded_def saw_def)
    have "fresh m' t' c (cell_hist m c ! j)" if "traffic c"
      unfolding read_global(5) by (rule load) (use that read_global same in \<open>simp_all add: saw_def\<close>)
    moreover have "reads_ok m' t' (ReadingGlobals per vs)"
      by (rule reads_ok_mono [OF assms(6) [unfolded read_global(1)] learns same])
    ultimately show ?thesis
      using read_global by (auto simp: saw_def nth_append less_Suc_eq)
  qed simp_all
qed

text \<open>The values of a finished snapshot are fresh.\<close>

lemma finished_fresh:
  assumes "reads_ok m t (ReadingGlobals per vs)" "length global_cells \<le> length vs" "traffic c"
  shows "fresh m t c (stat_value c (loaded_stats per vs))"
proof (cases c)
  case (Global x)
  with assms all_global_fields [of vs m t x per] show ?thesis by simp
next
  case (Room r x)
  have per: "rooms_ok m t per" and untouched: "r \<notin> fst ` set per \<Longrightarrow> untouched t r"
    using assms(1) by simp_all
  then have map: "map_of (per_room (loaded_stats per vs)) = map_of per"
    by (simp add: per_room_loaded rooms_ok_def)
  show ?thesis
  proof (cases "map_of per r")
    case None
    then have "untouched t r" using untouched by (simp add: map_of_eq_None_iff)
    moreover from this have "map_of (per_room s) r = None" if "s \<in> set (snaps t)" for s
      using that by (simp add: untouched_def map_of_eq_None_iff)
    ultimately show ?thesis
      using Room None map by (simp add: fresh_def untouched_def)
  next
    case (Some rs)
    with per show ?thesis
      using Room map by (fastforce simp: rooms_ok_def dest: map_of_SomeD)
  qed
qed

lemma snaps_ok_step:
  assumes "calls_ok p t" "cells_ok m t" "roomy m t" "count_ok t" "snaps_ok p m t" "reads_ok m t (phase t)"
    and step: "recorder_step j q m t = Some (m', t')"
  shows "snaps_ok p m' t'"
proof (cases "snaps t' = snaps t")
  case True
  show ?thesis
    by (rule snaps_ok_mono [OF assms(5) learns_step [OF assms(1-3) step] True])
next
  case False
  from step False obtain per vs where ph: "phase t = ReadingGlobals per vs" "length global_cells \<le> length vs"
    and t': "m' = m" "t' = t\<lparr>phase := Resting, snaps := snaps t @ [loaded_stats per vs]\<rparr>"
    by (cases rule: recorder_step_cases) (auto simp: saw_def)
  let ?s = "loaded_stats per vs"
  obtain ks where ks: "begun t = ks @ [Snapshot]" "length (filter (\<lambda>k. k = Snapshot) ks) = length (snaps t)"
    using assms(4) ph(1) by (auto simp: count_ok_def)
  have "p = ks @ Snapshot # calls_left t"
    using assms(1) ks(1) by (simp add: calls_ok_def)
  with ks have "requested c (upto_snapshot (length (snaps t)) p) = recorded c t" for c
    by (simp add: upto_snapshot_eq recorded_def ph(1))
  moreover have "fst ` set (per_room ?s) \<subseteq> set (listed m)"
    using assms(6) ph(1) by (auto simp: per_room_loaded rooms_ok_def)
  moreover have "fresh m t c (stat_value c ?s)" if "traffic c" for c
    using finished_fresh [OF _ ph(2) that] assms(6) ph(1) by simp
  ultimately show ?thesis
    using assms(5) unfolding snaps_ok_def t'
    by (auto simp: nth_append less_Suc_eq fresh_def known_def)
qed

lemma thread_ok_step:
  assumes "thread_ok p m t" "roomy m t" "recorder_step j q m t = Some (m', t')"
  shows "thread_ok p m' t'"
  using assms calls_ok_step cells_ok_step count_ok_step own_ok_step snaps_ok_step reads_ok_step
  unfolding thread_ok_def by metis

subsection \<open>All threads\<close>

definition stats_ok :: "request list list \<Rightarrow> stats_world \<Rightarrow> bool" where
  "stats_ok progs w \<longleftrightarrow> list_all2 (\<lambda>p t. thread_ok p (smem w) t) progs (sthreads w) \<and>
     (\<forall>c. traffic c \<longrightarrow> unat (last (cell_hist (smem w) c)) = sum_list (map (recorded c) (sthreads w)))"

definition all_requested :: "stat_cell \<Rightarrow> request list list \<Rightarrow> nat" where
  "all_requested c progs = sum_list (map (requested c) progs)"

lemma stats_ok_roomy:
  assumes "stats_ok progs w" "\<And>c. all_requested c progs < 2 ^ 64" "i < length (sthreads w)"
  shows "roomy (smem w) (sthreads w ! i)"
  unfolding roomy_def
proof (intro allI impI)
  fix c
  assume c: "traffic c"
  have "recorded c t + unfinished c (phase t) \<le> requested c p" if "thread_ok p (smem w) t" for p t
    using that by (auto simp: thread_ok_def calls_ok_def recorded_def)
  then have "list_all2 (\<lambda>p t. recorded c t + unfinished c (phase t) \<le> requested c p) progs (sthreads w)"
    using assms(1) by (auto simp: stats_ok_def elim: list_all2_mono)
  then have "sum_list (map (\<lambda>t. recorded c t + unfinished c (phase t)) (sthreads w)) \<le> all_requested c progs"
    by (induction rule: list_all2_induct) (simp_all add: all_requested_def)
  moreover have "unfinished c (phase (sthreads w ! i)) \<le> sum_list (map (\<lambda>t. unfinished c (phase t)) (sthreads w))"
    using assms(3) by (intro member_le_sum_list) simp_all
  ultimately show "unat (last (cell_hist (smem w) c)) + unfinished c (phase (sthreads w ! i)) < 2 ^ 64"
    using assms(1) assms(2) [of c] c by (simp add: stats_ok_def sum_list_addf)
qed

lemma stats_ok_bound:
  assumes "stats_ok progs w" "traffic c"
  shows "unat (last (cell_hist (smem w) c)) \<le> all_requested c progs"
proof -
  have "recorded c t \<le> requested c p" if "thread_ok p (smem w) t" for p t
    using that by (auto simp: thread_ok_def calls_ok_def recorded_def)
  then have "list_all2 (\<lambda>p t. recorded c t \<le> requested c p) progs (sthreads w)"
    using assms(1) by (auto simp: stats_ok_def elim: list_all2_mono)
  then have "sum_list (map (recorded c) (sthreads w)) \<le> all_requested c progs"
    by (induction rule: list_all2_induct) (simp_all add: all_requested_def)
  with assms show ?thesis by (simp add: stats_ok_def)
qed

lemma stats_ok_step:
  assumes "stats_ok progs w" "\<And>c. all_requested c progs < 2 ^ 64"
  shows "stats_ok progs (stats_step e w)"
proof (cases "stats_step e w = w")
  case False
  then obtain i j q m' t' where e: "e = (i, j, q)" "i < length (sthreads w)"
    and step: "recorder_step j q (smem w) (sthreads w ! i) = Some (m', t')"
    and w': "stats_step e w = \<lparr> smem = m', sthreads = (sthreads w)[i := t'] \<rparr>"
    by (auto simp: stats_step_def split: prod.splits option.splits if_splits)
  let ?t = "sthreads w ! i"
  have ok: "thread_ok (progs ! k) (smem w) (sthreads w ! k)" if "k < length (sthreads w)" for k
    using assms(1) that by (simp add: stats_ok_def list_all2_conv_all_nth)
  note i = ok [OF e(2)]
  note t' = thread_ok_step [OF i stats_ok_roomy [OF assms e(2)] step]
  have "traffic c \<Longrightarrow> sorted (map unat (cell_hist m' c))" for c
    using t' by (simp add: thread_ok_def cells_ok_def)
  with thread_ok_other [OF ok step_mem_le [OF step]] t' have
    "list_all2 (\<lambda>p t. thread_ok p m' t) progs ((sthreads w)[i := t'])"
    using assms(1) e(2) by (auto simp: stats_ok_def list_all2_conv_all_nth nth_list_update)
  moreover have "unat (last (cell_hist m' c)) = sum_list (map (recorded c) ((sthreads w)[i := t']))"
    if c: "traffic c" for c
  proof -
    have sum: "unat (last (cell_hist (smem w) c)) = sum_list (map (recorded c) (sthreads w))"
      using assms(1) c by (simp add: stats_ok_def)
    have "calls_ok (progs ! i) ?t" using i by (simp add: thread_ok_def)
    from this step c show ?thesis
    proof (cases rule: step_amount)
      case same
      with sum sum_list_update_add [OF e(2), of "recorded c" t'] show ?thesis by simp
    next
      case (added n)
      with sum sum_list_update_add [OF e(2), of "recorded c" t'] show ?thesis
        by (simp add: unat_add_roomy [OF stats_ok_roomy [OF assms e(2)] c])
    qed
  qed
  ultimately show ?thesis by (simp add: stats_ok_def w')
qed (use assms(1) in simp)

lemma stats_ok_start: "stats_ok progs (stats_start progs)"
proof -
  have "thread_ok p (smem (stats_start progs))
      \<lparr> calls_left = p, begun = [], phase = Resting, last_seen = (\<lambda>_. 0), snaps = [] \<rparr>" for p
    by (simp add: thread_ok_def calls_ok_def cells_ok_def count_ok_def own_ok_def snaps_ok_def
        recorded_def stats_start_def)
  then show ?thesis
    by (simp add: stats_ok_def stats_start_def list_all2_conv_all_nth recorded_def comp_def)
qed

lemma stats_run_ok:
  assumes "\<And>c. all_requested c progs < 2 ^ 64"
  shows "stats_ok progs (stats_run es progs)"
proof -
  have "stats_ok progs w \<Longrightarrow> stats_ok progs (fold stats_step es w)" for w
    by (induction es arbitrary: w) (simp_all add: stats_ok_step [OF _ assms])
  then show ?thesis by (simp add: stats_run_def stats_ok_start)
qed

subsection \<open>Rooms are counted before the globals\<close>

text \<open>Every recording call adds to its room first, so at every moment of a call the room is ahead.\<close>

primrec room_ahead :: "rstr \<Rightarrow> room_cell \<Rightarrow> micro list \<Rightarrow> bool" where
  "room_ahead r x [] = True"
| "room_ahead r x (u # us) = (room_ahead r x us \<and>
     sum_list (map (micro_amount (Room r x)) (u # us)) \<le> sum_list (map (micro_amount (Global (global_of x))) (u # us)))"

text \<open>The recording calls about room \<open>r\<close>, and the gauges.\<close>

primrec only_room :: "rstr \<Rightarrow> stats_op \<Rightarrow> bool" where
  "only_room r IncConnections = True"
| "only_room r DecConnections = True"
| "only_room r RoomOpened = True"
| "only_room r RoomClosed = True"
| "only_room r (MessageIn n) = False"
| "only_room r (MessageOut k n) = False"
| "only_room r Dropped = False"
| "only_room r (RoomMessageIn q n) = (q = r)"
| "only_room r (RoomMessageOut q k n) = (q = r)"
| "only_room r (RoomDrop q) = (q = r)"

primrec about_room :: "rstr \<Rightarrow> request \<Rightarrow> bool" where
  "about_room r (Record op) = only_room r op"
| "about_room r Snapshot = True"

lemma room_ahead_micros: "only_room r op \<Longrightarrow> room_ahead r x (micros op)"
  by (cases op; cases x) simp_all

lemma about_room_amount: "about_room r k \<Longrightarrow> request_amount (Global (global_of x)) k = request_amount (Room r x) k"
proof (cases k)
  case (Record op)
  assume "about_room r k"
  with Record show ?thesis by (cases op; cases x) simp_all
qed simp

lemma about_room_requested:
  "list_all (about_room r) ks \<Longrightarrow> requested (Global (global_of x)) ks = requested (Room r x) ks"
  by (induction ks) (simp_all add: about_room_amount)

definition ahead :: "rstr \<Rightarrow> room_cell \<Rightarrow> stats_thread \<Rightarrow> bool" where
  "ahead r x t \<longleftrightarrow> list_all (about_room r) (begun t @ calls_left t) \<and>
     (case phase t of Recording us \<Rightarrow> room_ahead r x us | _ \<Rightarrow> True)"

lemma ahead_step:
  assumes "ahead r x t" "recorder_step j q m t = Some (m', t')"
  shows "ahead r x t'"
  using assms(2)
  by (cases rule: recorder_step_cases) (use assms(1) in \<open>auto simp: ahead_def saw_def room_ahead_micros\<close>)

lemma ahead_recorded:
  assumes "ahead r x t"
  shows "recorded (Global (global_of x)) t \<le> recorded (Room r x) t"
proof -
  have "list_all (about_room r) (begun t)"
    using assms by (simp add: ahead_def)
  then have "requested (Global (global_of x)) (begun t) = requested (Room r x) (begun t)"
    by (rule about_room_requested)
  moreover have "unfinished (Room r x) (phase t) \<le> unfinished (Global (global_of x)) (phase t)"
  proof (cases "phase t")
    case (Recording us)
    with assms show ?thesis by (cases us) (simp_all add: ahead_def)
  qed simp_all
  ultimately show ?thesis by (simp add: recorded_def)
qed

lemma ahead_run:
  assumes "list_all (list_all (about_room r)) progs" "t \<in> set (sthreads (stats_run es progs))"
  shows "ahead r x t"
proof -
  have step: "\<forall>t\<in>set (sthreads (stats_step e w)). ahead r x t" if "\<forall>t\<in>set (sthreads w). ahead r x t" for e w
  proof -
    obtain i j q where e: "e = (i, j, q)" by (cases e) auto
    show ?thesis
    proof (cases "i < length (sthreads w)")
      case True
      with that have "ahead r x (sthreads w ! i)" by simp
      with that show ?thesis
        by (auto simp: stats_step_def e split: option.split prod.split
            dest!: set_update_subset_insert [THEN subsetD] dest: ahead_step)
    qed (use that in \<open>simp add: stats_step_def e\<close>)
  qed
  have "\<forall>t\<in>set (sthreads w). ahead r x t \<Longrightarrow> \<forall>t\<in>set (sthreads (fold stats_step es w)). ahead r x t" for w
  proof (induction es arbitrary: w)
    case (Cons e es)
    from Cons.IH [OF step [OF Cons.prems]] show ?case by simp
  qed simp
  moreover have "\<forall>t\<in>set (sthreads (stats_start progs)). ahead r x t"
    using assms(1) by (auto simp: stats_start_def ahead_def list_all_iff)
  ultimately show ?thesis using assms(2) by (simp add: stats_run_def)
qed

lemma global_of_traffic [simp]: "traffic (Global (global_of x))"
  by (cases x) (simp_all add: traffic_def)

text \<open>So at every instant a room's counter is at least the global one.\<close>

lemma instant_room_ahead:
  assumes "list_all (list_all (about_room r)) progs" "\<And>c. all_requested c progs < 2 ^ 64"
  shows "last (cell_hist (smem (stats_run es progs)) (Global (global_of x))) \<le>
    last (cell_hist (smem (stats_run es progs)) (Room r x))"
proof -
  have "sum_list (map (recorded (Global (global_of x))) (sthreads (stats_run es progs))) \<le>
      sum_list (map (recorded (Room r x)) (sthreads (stats_run es progs)))"
    by (rule sum_list_mono) (rule ahead_recorded [OF ahead_run [OF assms(1)]])
  then show ?thesis
    using stats_run_ok [OF assms(2), of es] by (simp add: stats_ok_def word_le_nat_alt)
qed

text \<open>Two threads for the witness: the first records, and takes its snapshot after the second has added
  to the room but not yet to the globals.\<close>

definition two_recorders :: "request list list" where
  "two_recorders = [[Record (RoomMessageIn (lit ''a'') 5), Snapshot], [Record (RoomMessageIn (lit ''a'') 7)]]"

definition two_recorders_schedule :: "(nat \<times> nat \<times> rstr) list" where
  "two_recorders_schedule = map (\<lambda>i. (i, 0, lit ''a'')) (replicate 7 0 @ replicate 4 1) @
     map (\<lambda>j. (0, j, lit ''a'')) [0, 0, 2, 0, 1, 0, 0, 0, 0, 0, 0, 1, 0, 1, 0, 0, 0]"

section \<open>Properties\<close>

text \<open>C10 Snapshots taken while other threads record: each counter of a thread's snapshot counts at least
  all that the thread itself recorded before it, at most what has been recorded by then, and never
  less than in the thread's earlier snapshots, so that differences of snapshots are rates.\<close>

theorem concurrent_snapshots:
  assumes "\<forall>c. all_requested c progs < 2 ^ 64" "traffic c" "i < length progs"
    and "ss = snaps (sthreads (stats_run es progs) ! i)" "k < length ss"
  shows "requested c (upto_snapshot k (progs ! i)) \<le> unat (stat_value c (ss ! k)) \<and>
    unat (stat_value c (ss ! k)) \<le> unat (last (cell_hist (smem (stats_run es progs)) c)) \<and>
    unat (last (cell_hist (smem (stats_run es progs)) c)) \<le> all_requested c progs \<and>
    (\<forall>l<k. unat (stat_value c (ss ! l)) \<le> unat (stat_value c (ss ! k)))"
proof -
  let ?w = "stats_run es progs"
  have ok: "stats_ok progs ?w" using stats_run_ok assms(1) by blast
  then have t: "thread_ok (progs ! i) (smem ?w) (sthreads ?w ! i)"
    using assms(3) by (simp add: stats_ok_def list_all2_conv_all_nth)
  then have cells: "cells_ok (smem ?w) (sthreads ?w ! i)" and snaps: "snaps_ok (progs ! i) (smem ?w) (sthreads ?w ! i)"
    by (simp_all add: thread_ok_def)
  show ?thesis
    using snaps assms(2,4,5) known_le_last [OF cells assms(2)] stats_ok_bound [OF ok assms(2)]
    unfolding snaps_ok_def by (meson le_trans)
qed

theorem concurrent_snapshots_witness:
  "\<exists>s. snaps (sthreads (stats_run two_recorders_schedule two_recorders) ! 0) = [s] \<and>
     5 \<le> unat (stat_value (Room (lit ''a'') CBytesIn) s)"
proof -
  let ?ss = "snaps (sthreads (stats_run two_recorders_schedule two_recorders) ! 0)"
  have len: "length ?ss = 1" by code_simp
  have fits: "\<forall>c. all_requested c two_recorders < 2 ^ 64"
    by (auto simp: all_requested_def two_recorders_def)
  have idx: "0 < length two_recorders" "0 < length ?ss"
    using len by (simp_all add: two_recorders_def)
  have "requested (Room (lit ''a'') CBytesIn) (upto_snapshot 0 (two_recorders ! 0)) = 5"
    by (simp add: two_recorders_def)
  with concurrent_snapshots [OF fits traffic_Room idx(1) refl idx(2), THEN conjunct1, of "lit ''a''" CBytesIn]
  have "5 \<le> unat (stat_value (Room (lit ''a'') CBytesIn) (?ss ! 0))"
    by (simp only:)
  moreover have "?ss = [?ss ! 0]"
    using len by (cases ?ss) auto
  ultimately show ?thesis by blast
qed

text \<open>C11 A snapshot need not be the state of the counters at any moment. One thread records one message
  broadcast to a room, another takes a snapshot, and nothing else is recorded: then the global
  counter is never ahead of the room's, but there is an interleaving whose snapshot has the message
  in the global counter and does not list the room.\<close>

theorem snapshot_is_no_instant:
  fixes k n :: u64 and r :: rstr
  defines "progs \<equiv> [[Record (RoomMessageOut r k n)], [Snapshot]]"
  shows "(\<forall>es. last (cell_hist (smem (stats_run es progs)) (Global GMessagesOut)) \<le>
      last (cell_hist (smem (stats_run es progs)) (Room r CMessagesOut))) \<and>
    (\<exists>es s. s \<in> set (snaps (sthreads (stats_run es progs) ! 1)) \<and> st_messages_out s = k \<and> per_room s = [])"
proof
  have "all_requested c progs < 2 ^ 64" for c
    using unsigned_less [of k] unsigned_less [of n] by (auto simp: all_requested_def progs_def)
  moreover have "list_all (list_all (about_room r)) progs"
    by (simp add: progs_def)
  ultimately show "\<forall>es. last (cell_hist (smem (stats_run es progs)) (Global GMessagesOut)) \<le>
      last (cell_hist (smem (stats_run es progs)) (Room r CMessagesOut))"
    using instant_room_ahead [of r progs _ CMessagesOut] by simp
next
  let ?es = "replicate 2 (1, 0, r) @ replicate 6 (0, 0, r) @ map (\<lambda>j. (1, j, r)) [0, 0, 0, 1, 0, 1, 0, 0]"
  have "snaps (sthreads (stats_run ?es progs) ! 1) = [loaded_stats [] [0, 0, 0, k, 0, n, 0]]"
    by (simp add: progs_def stats_run_def stats_start_def stats_step_def recorder_step_def modified_def saw_def
        may_read_def enter_room_def global_cells_def numeral_eq_Suc Let_def)
  then have "loaded_stats [] [0, 0, 0, k, 0, n, 0] \<in> set (snaps (sthreads (stats_run ?es progs) ! 1))"
    by simp
  moreover have "st_messages_out (loaded_stats [] [0, 0, 0, k, 0, n, 0]) = k"
    "per_room (loaded_stats [] [0, 0, 0, k, 0, n, 0]) = []"
    by (simp_all add: loaded_stats_def numeral_eq_Suc)
  ultimately show "\<exists>es s. s \<in> set (snaps (sthreads (stats_run es progs) ! 1)) \<and> st_messages_out s = k \<and> per_room s = []"
    by blast
qed

end
