(* ===== verification/Stats_Alone.thy ===== *)
theory Stats_Alone
  imports Stats_Races
begin

text \<open>
  The single accesses of \<open>Stats_Races\<close> against the recorder's methods of \<open>Ws_Stats\<close>: a call that no
  other thread disturbs, of a thread that has seen the newest values, has the effect of the method,
  and its snapshot is \<open>snapshot\<close>. This ties the concurrent model to the sequential one.
\<close>

section \<open>A thread on its own\<close>

fun alone :: "(nat \<times> rstr) list \<Rightarrow> stats_mem \<Rightarrow> stats_thread \<Rightarrow> (stats_mem \<times> stats_thread) option" where
  "alone [] m t = Some (m, t)"
| "alone ((j, q) # es) m t = (case recorder_step j q m t of None \<Rightarrow> None | Some (m', t') \<Rightarrow> alone es m' t')"

lemma alone_append:
  "alone (es @ fs) m t = (case alone es m t of None \<Rightarrow> None | Some (m', t') \<Rightarrow> alone fs m' t')"
  by (induction es m t rule: alone.induct) (simp_all split: option.split)

lemma alone_trans:
  "alone es m t = Some (m', t') \<Longrightarrow> alone fs m' t' = Some x \<Longrightarrow> alone (es @ fs) m t = Some x"
  by (simp add: alone_append)

text \<open>The cells hold the recorder's state \<open>s\<close>, and the thread has seen the newest value of each.\<close>

definition represents :: "stats_mem \<Rightarrow> stats_inner \<Rightarrow> bool" where
  "represents m s \<longleftrightarrow> (\<forall>c. cell_hist m c \<noteq> []) \<and> distinct (listed m) \<and>
     (\<forall>x. last (cell_hist m (Global x)) = get_global x (globals s)) \<and>
     set (listed m) = dom (DAList.lookup (counters s)) \<and>
     (\<forall>r x. last (cell_hist m (Room r x)) =
        (case DAList.lookup (counters s) r of None \<Rightarrow> 0 | Some c \<Rightarrow> get_room_cell x c))"

definition newest :: "stats_mem \<Rightarrow> stats_thread \<Rightarrow> bool" where
  "newest m t \<longleftrightarrow> (\<forall>c. last_seen t c = length (cell_hist m c) - 1)"

lemma newest_phase [simp]:
  "newest m (t\<lparr>phase := p\<rparr>) = newest m t" "newest m (t\<lparr>phase := p, snaps := ss\<rparr>) = newest m t"
  by (simp_all add: newest_def)

lemma newest_modified:
  "newest m t \<Longrightarrow> newest (modified c f m) (saw c (length (cell_hist m c)) p t)"
  by (simp add: newest_def modified_def saw_def)

lemma saw_newest: "newest m t \<Longrightarrow> saw c (length (cell_hist m c) - 1) p t = t\<lparr>phase := p\<rparr>"
  by (cases t) (auto simp: saw_def newest_def fun_eq_iff)

section \<open>Recording\<close>

text \<open>The effect of an access on the recorder's state.\<close>

primrec micro_step :: "micro \<Rightarrow> stats_inner \<Rightarrow> stats_inner" where
  "micro_step (Enter r) s = room_counters_entry r s"
| "micro_step (Access a) s = atom_step a s"
| "micro_step (Reload x) s = s"

lemma atom_step_entered: "atom_step (AddRoom r x n) (room_counters_entry r s) = atom_step (AddRoom r x n) s"
proof -
  have "room_counters_entry r (room_counters_entry r s) = room_counters_entry r s"
    by (rule entry_present) (simp add: lookup_entry)
  then show ?thesis by simp
qed

lemma fold_micros: "fold micro_step (micros op) s = apply_op op s"
  by (cases op) (simp_all only: micros.simps list.map append.simps fold.simps comp_apply id_apply micro_step.simps
      atoms.simps atom_step_entered apply_op_atoms)

lemma represents_entry: "represents m s \<Longrightarrow> represents (enter_room r m) (room_counters_entry r s)"
  by (auto simp: represents_def enter_room_def lookup_entry split: option.split)

lemma represents_room:
  assumes "represents m s" "r \<in> set (listed m)"
  shows "represents (modified (Room r x) (\<lambda>v. v + n) m) (atom_step (AddRoom r x n) s)"
proof -
  from assms obtain c where c: "DAList.lookup (counters s) r = Some c"
    by (auto simp: represents_def)
  then have [simp]: "room_counters_entry r s = s" by (simp add: entry_present)
  from assms c show ?thesis
    by (auto simp: represents_def modified_def lookup_on_room split: if_splits)
qed

lemma represents_global:
  "represents m s \<Longrightarrow> represents (modified (Global x) (\<lambda>v. v + n) m) (atom_step (AddGlobal x n) s)"
  by (auto simp: represents_def modified_def)

lemma represents_dec:
  assumes "represents m s" "last (cell_hist m (Global x)) \<noteq> 0"
  shows "represents (modified (Global x) (\<lambda>v. v - 1) m) (atom_step (DecGlobal x) s)"
proof -
  have "last (cell_hist m (Global x)) = get_global x (globals s)"
    using assms(1) by (simp add: represents_def)
  with assms show ?thesis
    by (auto simp: represents_def modified_def saturating_dec_def)
qed

lemma represents_dec_zero:
  assumes "represents m s" "last (cell_hist m (Global x)) = 0"
  shows "represents m (atom_step (DecGlobal x) s)"
proof -
  have "last (cell_hist m (Global x)) = get_global x (globals s)"
    using assms(1) by (simp add: represents_def)
  with assms show ?thesis
    by (auto simp: represents_def saturating_dec_def)
qed

lemma newest_may_read:
  assumes "represents m s" "newest m t"
  shows "may_read c (length (cell_hist m c) - 1) m t"
    "cell_hist m c ! (length (cell_hist m c) - 1) = last (cell_hist m c)"
  using assms by (simp_all add: represents_def newest_def may_read_def last_conv_nth)

lemma may_read_newest:
  "newest m t \<Longrightarrow> may_read c j m t \<Longrightarrow> j = length (cell_hist m c) - 1"
  by (auto simp: newest_def may_read_def)

text \<open>An access of the thread has the effect of the atomic step, whatever it chooses, and it can be made.\<close>

lemma access_effect:
  assumes "represents m s" "newest m t" "phase t = Recording (Access a # us)" "recorder_step j q m t = Some (m', t')"
    and "\<And>r x n. a = AddRoom r x n \<Longrightarrow> r \<in> set (listed m)"
  shows "represents m' (atom_step a s) \<and> newest m' t' \<and>
    t' = t\<lparr>phase := Recording us, last_seen := last_seen t'\<rparr> \<and> set (listed m) = set (listed m')"
proof (cases a)
  case (AddGlobal x n)
  with assms(4) [unfolded recorder_step_def] assms(3)
  have "m' = modified (Global x) (\<lambda>v. v + n) m" "t' = saw (Global x) (length (cell_hist m (Global x))) (Recording us) t"
    by simp_all
  with AddGlobal represents_global [OF assms(1)] newest_modified [OF assms(2)] show ?thesis
    by (simp only:) (simp add: saw_def modified_def)
next
  case (AddRoom r x n)
  with assms(4) [unfolded recorder_step_def] assms(3)
  have "m' = modified (Room r x) (\<lambda>v. v + n) m" "t' = saw (Room r x) (length (cell_hist m (Room r x))) (Recording us) t"
    by simp_all
  with AddRoom represents_room [OF assms(1) assms(5)] newest_modified [OF assms(2)] show ?thesis
    by (simp only:) (simp add: saw_def modified_def)
next
  case (DecGlobal x)
  let ?c = "Global x"
  let ?v = "cell_hist m ?c ! j"
  have step: "access_step j (DecGlobal x) us m t = Some (m', t')"
    using assms(3,4) DecGlobal by (simp add: recorder_step_def)
  then have "may_read ?c j m t" by (auto simp: Let_def split: if_splits)
  moreover from may_read_newest [OF assms(2) this] have j: "j = length (cell_hist m ?c) - 1" .
  ultimately have new: "may_read ?c j m t" "?v = last (cell_hist m ?c)"
    using newest_may_read(2) [OF assms(1,2)] by simp_all
  show ?thesis
  proof (cases "?v = 0")
    case True
    with step new have "m' = m" "t' = saw ?c j (Recording us) t"
      by (simp_all add: Let_def)
    moreover have "newest m (saw ?c j (Recording us) t)"
      using assms(2) j by (simp add: newest_def saw_def)
    ultimately show ?thesis
      using represents_dec_zero [OF assms(1)] True new DecGlobal
      by (simp add: saw_def del: atom_step.simps)
  next
    case False
    with step new have "m' = modified ?c (\<lambda>v. v - 1) m" "t' = saw ?c (length (cell_hist m ?c)) (Recording us) t"
      by (simp_all add: Let_def)
    then show ?thesis
      using represents_dec [OF assms(1)] False new DecGlobal newest_modified [OF assms(2)]
      by (simp del: atom_step.simps) (simp add: saw_def modified_def)
  qed
qed

lemma access_enabled:
  assumes "represents m s" "newest m t" "phase t = Recording (Access a # us)"
  shows "\<exists>j m' t'. recorder_step j q m t = Some (m', t')"
proof (cases a)
  case (DecGlobal x)
  let ?j = "length (cell_hist m (Global x)) - 1"
  have "\<exists>m' t'. recorder_step ?j q m t = Some (m', t')"
    using newest_may_read [OF assms(1,2), of "Global x"] assms(3) DecGlobal by (simp add: recorder_step_def Let_def)
  then show ?thesis by blast
qed (use assms in \<open>simp_all add: recorder_step_def\<close>)

text \<open>Every room that is still to be counted in has its entry, or is about to get it.\<close>

definition entered :: "stats_mem \<Rightarrow> micro list \<Rightarrow> bool" where
  "entered m us \<longleftrightarrow>
     (\<forall>r x n. Access (AddRoom r x n) \<in> set us \<longrightarrow> r \<in> set (listed m) \<or> (\<exists>vs. us = Enter r # vs))"

lemma entered_micros: "entered m (micros op)"
  by (auto simp: entered_def dest: micros_enter)

lemma recording_alone:
  assumes "represents m s" "newest m t" "phase t = Recording us" "entered m us"
  shows "\<exists>es m' t'. alone es m t = Some (m', t') \<and> represents m' (fold micro_step us s) \<and> newest m' t' \<and>
    t' = t\<lparr>phase := Resting, last_seen := last_seen t'\<rparr>"
  using assms
proof (induction us arbitrary: m s t)
  case Nil
  then have "alone [(0, [])] m t = Some (m, t\<lparr>phase := Resting\<rparr>)"
    by (simp add: recorder_step_def)
  with Nil.prems(1,2) show ?case
    by (intro exI conjI) (assumption | simp)+
next
  case (Cons u us)
  show ?case
  proof (cases u)
    case (Enter r)
    let ?m = "enter_room r m" and ?t = "t\<lparr>phase := Recording us\<rparr>"
    have "newest ?m ?t" "represents ?m (micro_step u s)" "entered ?m us"
      using Cons.prems represents_entry [OF Cons.prems(1)] Enter
      by (auto simp: newest_def enter_room_def entered_def)
    then obtain es m' t' where run: "alone es ?m ?t = Some (m', t')"
      and end': "represents m' (fold micro_step us (micro_step u s))" "newest m' t'"
        "t' = ?t\<lparr>phase := Resting, last_seen := last_seen t'\<rparr>"
      using Cons.IH [of ?m "micro_step u s" ?t] by auto
    have "alone ((0, []) # es) m t = Some (m', t')"
      using run Cons.prems(3) Enter by (simp add: recorder_step_def)
    with end' show ?thesis by (intro exI conjI) (assumption | simp)+
  next
    case (Reload x)
    let ?j = "length (cell_hist m (Global x)) - 1" and ?t = "t\<lparr>phase := Recording us\<rparr>"
    have "entered m us" using Cons.prems(4) Reload by (auto simp: entered_def)
    then obtain es m' t' where run: "alone es m ?t = Some (m', t')"
      and end': "represents m' (fold micro_step us s)" "newest m' t'" "t' = ?t\<lparr>phase := Resting, last_seen := last_seen t'\<rparr>"
      using Cons.IH [of m s ?t] Cons.prems(1,2) by auto
    have "alone ((?j, []) # es) m t = Some (m', t')"
      using run Cons.prems(3) Reload newest_may_read(1) [OF Cons.prems(1,2), of "Global x"] saw_newest [OF Cons.prems(2), of "Global x"]
      by (simp add: recorder_step_def)
    with end' Reload show ?thesis by (intro exI conjI) (assumption | simp)+
  next
    case (Access a)
    have "r \<in> set (listed m)" if "a = AddRoom r x n" for r x n
      using Cons.prems(4) that Access by (auto simp: entered_def)
    note effect = access_effect [OF Cons.prems(1,2) Cons.prems(3) [unfolded Access] _ this]
    obtain j m1 t1 where step: "recorder_step j [] m t = Some (m1, t1)"
      using access_enabled [OF Cons.prems(1,2) Cons.prems(3) [unfolded Access]] by blast
    then have mid: "represents m1 (micro_step u s)" "newest m1 t1"
        "t1 = t\<lparr>phase := Recording us, last_seen := last_seen t1\<rparr>" "set (listed m) = set (listed m1)"
      using effect [of j] Access by simp_all
    moreover have "phase t1 = Recording us" by (subst mid(3)) simp
    moreover have "entered m1 us"
      using Cons.prems(4) mid(4) Access by (auto simp: entered_def)
    ultimately obtain es m' t' where run: "alone es m1 t1 = Some (m', t')"
      and end': "represents m' (fold micro_step us (micro_step u s))" "newest m' t'"
        "t' = t1\<lparr>phase := Resting, last_seen := last_seen t'\<rparr>"
      using Cons.IH [of m1 "micro_step u s" t1] by auto
    have "t1\<lparr>phase := Resting, last_seen := last_seen t'\<rparr> = t\<lparr>phase := Resting, last_seen := last_seen t'\<rparr>"
      by (subst mid(3)) simp
    with end'(3) have "t' = t\<lparr>phase := Resting, last_seen := last_seen t'\<rparr>" by simp
    moreover have "alone ((j, []) # es) m t = Some (m', t')"
      using run step by simp
    ultimately show ?thesis using end'(1,2) by (intro exI conjI) (assumption | simp)+
  qed
qed

section \<open>Taking a snapshot\<close>

definition newest_room :: "stats_mem \<Rightarrow> rstr \<Rightarrow> u64 list" where
  "newest_room m r = map (\<lambda>x. last (cell_hist m (Room r x))) room_cells"

definition newest_globals :: "stats_mem \<Rightarrow> u64 list" where
  "newest_globals m = map (\<lambda>x. last (cell_hist m (Global x))) global_cells"

lemma length_newest [simp]:
  "length (newest_room m r) = length room_cells" "length (newest_globals m) = length global_cells"
  by (simp_all add: newest_room_def newest_globals_def)

lemma read_room_alone:
  assumes "represents m s" "newest m t" "phase t = ReadingRoom must per r (take i (newest_room m r))"
    "i \<le> length room_cells"
  shows "\<exists>es. alone es m t = Some (m, t\<lparr>phase := Listing must (per @ [(r, loaded_room (newest_room m r))])\<rparr>)"
  using assms(4,2,3)
proof (induction i arbitrary: t rule: inc_induct)
  case base
  then have "alone [(0, [])] m t = Some (m, t\<lparr>phase := Listing must (per @ [(r, loaded_room (newest_room m r))])\<rparr>)"
    by (simp add: recorder_step_def newest_room_def)
  then show ?case by blast
next
  case (step i)
  let ?c = "Room r (room_cells ! i)"
  let ?j = "length (cell_hist m ?c) - 1"
  let ?t = "t\<lparr>phase := ReadingRoom must per r (take (Suc i) (newest_room m r))\<rparr>"
  note read = newest_may_read [OF assms(1) step.prems(1), of ?c]
  have "take (Suc i) (newest_room m r) = take i (newest_room m r) @ [last (cell_hist m ?c)]"
    using step.hyps by (simp add: newest_room_def take_Suc_conv_app_nth)
  then have one: "recorder_step ?j [] m t = Some (m, ?t)"
    using read step.prems step.hyps saw_newest [OF step.prems(1), of ?c]
    by (simp add: recorder_step_def Let_def newest_room_def)
  obtain es where "alone es m ?t = Some (m, ?t\<lparr>phase := Listing must (per @ [(r, loaded_room (newest_room m r))])\<rparr>)"
    using step.IH [of ?t] step.prems(1) by auto
  then have "alone ((?j, []) # es) m t = Some (m, t\<lparr>phase := Listing must (per @ [(r, loaded_room (newest_room m r))])\<rparr>)"
    using one by simp
  then show ?case by blast
qed

lemma read_globals_alone:
  assumes "represents m s" "newest m t" "phase t = ReadingGlobals per (take i (newest_globals m))"
    "i \<le> length global_cells"
  shows "\<exists>es. alone es m t = Some (m, t\<lparr>phase := Resting, snaps := snaps t @ [loaded_stats per (newest_globals m)]\<rparr>)"
  using assms(4,2,3)
proof (induction i arbitrary: t rule: inc_induct)
  case base
  then have "alone [(0, [])] m t = Some (m, t\<lparr>phase := Resting, snaps := snaps t @ [loaded_stats per (newest_globals m)]\<rparr>)"
    by (simp add: recorder_step_def newest_globals_def)
  then show ?case by blast
next
  case (step i)
  let ?c = "Global (global_cells ! i)"
  let ?j = "length (cell_hist m ?c) - 1"
  let ?t = "t\<lparr>phase := ReadingGlobals per (take (Suc i) (newest_globals m))\<rparr>"
  note read = newest_may_read [OF assms(1) step.prems(1), of ?c]
  have "take (Suc i) (newest_globals m) = take i (newest_globals m) @ [last (cell_hist m ?c)]"
    using step.hyps by (simp add: newest_globals_def take_Suc_conv_app_nth)
  then have one: "recorder_step ?j [] m t = Some (m, ?t)"
    using read step.prems step.hyps saw_newest [OF step.prems(1), of ?c]
    by (simp add: recorder_step_def Let_def newest_globals_def)
  obtain es where "alone es m ?t = Some (m, ?t\<lparr>phase := Resting, snaps := snaps ?t @ [loaded_stats per (newest_globals m)]\<rparr>)"
    using step.IH [of ?t] step.prems(1) by auto
  then have "alone ((?j, []) # es) m t = Some (m, t\<lparr>phase := Resting, snaps := snaps t @ [loaded_stats per (newest_globals m)]\<rparr>)"
    using one by simp
  then show ?case by blast
qed

text \<open>The iteration; \<open>rs\<close> are the rooms in the order of their visits.\<close>

definition rooms_read :: "stats_mem \<Rightarrow> rstr list \<Rightarrow> (rstr \<times> room_stats) list" where
  "rooms_read m rs = map (\<lambda>r. (r, loaded_room (newest_room m r))) rs"

lemma fst_rooms_read [simp]: "fst ` set (rooms_read m rs) = set rs"
  by (force simp: rooms_read_def)

lemma visit_alone:
  assumes "represents m s" "newest m t" "i \<le> length (listed m)"
    "phase t = Listing (listed m) (rooms_read m (take i (listed m)))"
  shows "\<exists>es. alone es m t = Some (m, t\<lparr>phase := ReadingGlobals (rooms_read m (listed m)) []\<rparr>)"
  using assms(3,2,4)
proof (induction i arbitrary: t rule: inc_induct)
  case base
  then have "alone [(0, [])] m t = Some (m, t\<lparr>phase := ReadingGlobals (rooms_read m (listed m)) []\<rparr>)"
    by (simp add: recorder_step_def)
  then show ?case by blast
next
  case (step i)
  let ?r = "listed m ! i" and ?rs = "take i (listed m)"
  let ?u = "t\<lparr>phase := ReadingRoom (listed m) (rooms_read m ?rs) ?r (take 0 (newest_room m ?r))\<rparr>"
  let ?t = "t\<lparr>phase := Listing (listed m) (rooms_read m (take (Suc i) (listed m)))\<rparr>"
  have "distinct (listed m)" using assms(1) by (simp add: represents_def)
  then have "?r \<notin> set ?rs"
    using step.hyps by (auto simp: in_set_conv_nth nth_eq_iff_index_eq)
  then have go: "recorder_step 0 ?r m t = Some (m, ?u)"
    using step.prems step.hyps by (simp add: recorder_step_def)
  have "rooms_read m (take (Suc i) (listed m)) = rooms_read m ?rs @ [(?r, loaded_room (newest_room m ?r))]"
    using step.hyps by (simp add: rooms_read_def take_Suc_conv_app_nth)
  then obtain es where es: "alone es m ?u = Some (m, ?t)"
    using read_room_alone [OF assms(1), of ?u "listed m" "rooms_read m ?rs" ?r 0] step.prems(1) by auto
  obtain fs where fs: "alone fs m ?t = Some (m, ?t\<lparr>phase := ReadingGlobals (rooms_read m (listed m)) []\<rparr>)"
    using step.IH [of ?t] step.prems(1) by auto
  have "alone ((0, ?r) # es @ fs) m t = Some (m, t\<lparr>phase := ReadingGlobals (rooms_read m (listed m)) []\<rparr>)"
    using go alone_trans [OF es fs] by simp
  then show ?case by blast
qed

text \<open>What it reads is the snapshot.\<close>

lemma newest_room_stats:
  assumes "represents m s" "DAList.lookup (counters s) r = Some c"
  shows "loaded_room (newest_room m r) = room_stats_of c"
  using assms by (simp add: represents_def loaded_room_def newest_room_def room_cells_def room_stats_of_def numeral_eq_Suc)

lemma sort_key_by_set:
  assumes "distinct ks"
  shows "sort_key fst (map (\<lambda>k. (k, f k)) ks) = map (\<lambda>k. (k, f k)) (sorted_list_of_set (set ks))"
proof -
  have "sort_key fst (map (\<lambda>k. (k, f k)) ks) = map (\<lambda>k. (k, f k)) (sort ks)"
  proof (rule sort_key_inj_key_eq)
    show "mset (map (\<lambda>k. (k, f k)) ks) = mset (map (\<lambda>k. (k, f k)) (sort ks))" by simp
    show "inj_on fst (set (map (\<lambda>k. (k, f k)) ks))" by (auto simp: inj_on_def)
    show "sorted (map fst (map (\<lambda>k. (k, f k)) (sort ks)))" by (simp add: comp_def)
  qed
  with assms show ?thesis
    by (simp only: sorted_list_of_set_sort_remdups distinct_remdups_id)
qed

lemma rooms_read_snapshot:
  assumes "represents m s" "distinct rs" "set rs = set (listed m)"
  shows "loaded_stats (rooms_read m rs) (newest_globals m) = snapshot s"
proof -
  have m: "set rs = dom (DAList.lookup (counters s))"
    using assms by (simp add: represents_def)
  have "sort_key fst (rooms_read m rs) = map (\<lambda>k. (k, loaded_room (newest_room m k))) (sorted_list_of_set (set rs))"
    unfolding rooms_read_def by (rule sort_key_by_set [OF assms(2)])
  also have "\<dots> = map (\<lambda>k. (k, room_stats_of (the (DAList.lookup (counters s) k)))) (sorted_list_of_set (set rs))"
    by (rule map_cong [OF refl]) (use m in \<open>auto simp: newest_room_stats [OF assms(1)]\<close>)
  also have "\<dots> = sort_key fst (map (\<lambda>(k, c). (k, room_stats_of c)) (entries (counters s)))"
    by (simp only: sorted_entries m)
  finally show ?thesis
    using assms(1)
    by (simp add: loaded_stats_def snapshot_def newest_globals_def global_cells_def represents_def Let_def numeral_eq_Suc)
qed

lemma snapshot_alone:
  assumes "represents m s" "newest m t" "phase t = Listing (listed m) []"
  shows "\<exists>es. alone es m t = Some (m, t\<lparr>phase := Resting, snaps := snaps t @ [snapshot s]\<rparr>)"
proof -
  let ?t = "t\<lparr>phase := ReadingGlobals (rooms_read m (listed m)) []\<rparr>"
  have "distinct (listed m)" using assms(1) by (simp add: represents_def)
  note snap = rooms_read_snapshot [OF assms(1) this refl]
  obtain es where es: "alone es m t = Some (m, ?t)"
    using visit_alone [OF assms(1,2), of 0] assms(3) by (auto simp: rooms_read_def)
  obtain fs where "alone fs m ?t = Some (m, ?t\<lparr>phase := Resting, snaps := snaps ?t @ [snapshot s]\<rparr>)"
    using read_globals_alone [OF assms(1), of ?t "rooms_read m (listed m)" 0] assms(2) snap by auto
  with es have "alone (es @ fs) m t = Some (m, t\<lparr>phase := Resting, snaps := snaps t @ [snapshot s]\<rparr>)"
    by (simp add: alone_append)
  then show ?thesis by blast
qed

section \<open>Every way to finish a call\<close>

text \<open>
  On its own the thread has little choice: it can only read the newest values, and visits the rooms
  in any order. \<open>under_way\<close> describes a call begun in state \<open>s\<close>, with the calls \<open>ks\<close> and the
  snapshots \<open>old\<close> behind it.
\<close>

definition under_way :: "request \<Rightarrow> request list \<Rightarrow> stats list \<Rightarrow> stats_inner \<Rightarrow> stats_mem \<Rightarrow> stats_thread \<Rightarrow> bool" where
  "under_way k ks old s m t \<longleftrightarrow> newest m t \<and> calls_left t = ks \<and>
     (case phase t of
        Resting \<Rightarrow> represents m (case k of Record op \<Rightarrow> apply_op op s | Snapshot \<Rightarrow> s) \<and>
          snaps t = old @ (case k of Record op \<Rightarrow> [] | Snapshot \<Rightarrow> [snapshot s])
      | Recording us \<Rightarrow> snaps t = old \<and> entered m us \<and>
          (\<exists>op s'. k = Record op \<and> represents m s' \<and> fold micro_step us s' = apply_op op s)
      | Listing must per \<Rightarrow> snaps t = old \<and> k = Snapshot \<and> represents m s \<and> must = listed m \<and>
          (\<exists>rs. per = rooms_read m rs \<and> distinct rs \<and> set rs \<subseteq> set (listed m))
      | ReadingRoom must per r vs \<Rightarrow> snaps t = old \<and> k = Snapshot \<and> represents m s \<and> must = listed m \<and>
          vs = take (length vs) (newest_room m r) \<and> r \<in> set (listed m) \<and>
          (\<exists>rs. per = rooms_read m rs \<and> distinct (r # rs) \<and> set rs \<subseteq> set (listed m))
      | ReadingGlobals per vs \<Rightarrow> snaps t = old \<and> k = Snapshot \<and> represents m s \<and>
          vs = take (length vs) (newest_globals m) \<and>
          (\<exists>rs. per = rooms_read m rs \<and> distinct rs \<and> set rs = set (listed m)))"

lemma saw_simps [simp]:
  "phase (saw c j p t) = p" "calls_left (saw c j p t) = calls_left t" "snaps (saw c j p t) = snaps t"
  by (simp_all add: saw_def)

lemma recorded_on:
  assumes "under_way k ks old s m t" "phase t = Recording (u # us)" "newest m' t'" "entered m' us"
    and "\<And>s'. represents m s' \<Longrightarrow> represents m' (micro_step u s')"
    and "phase t' = Recording us" "calls_left t' = ks" "snaps t' = old"
  shows "under_way k ks old s m' t'"
  using assms unfolding under_way_def by fastforce

lemma take_newest:
  assumes "vs = take (length vs) xs" "length vs < length xs" "v = xs ! length vs"
  shows "vs @ [v] = take (length (vs @ [v])) xs"
  using assms by (simp add: take_Suc_conv_app_nth)

lemma under_way_step:
  assumes "under_way k ks old s m t" "recorder_step j q m t = Some (m', t')"
  shows "length (calls_left t') < length ks \<or> under_way k ks old s m' t'"
proof -
  from assms(1) have new: "newest m t" and left: "calls_left t = ks"
    by (simp_all add: under_way_def)
  have saw: "saw c j p t = t\<lparr>phase := p\<rparr>" if "may_read c j m t" for c p
    using saw_newest [OF new] may_read_newest [OF new that] by simp
  have access: ?thesis if ph: "phase t = Recording (Access a # us)" for a us
  proof -
    from assms(1) ph have "entered m (Access a # us)" "snaps t = old" and "\<exists>s'. represents m s'"
      by (auto simp: under_way_def)
    then have rooms: "\<And>r x n. a = AddRoom r x n \<Longrightarrow> r \<in> set (listed m)" and rest: "entered m us"
      by (auto simp: entered_def)
    have eff: "represents m' (atom_step a s') \<and> newest m' t' \<and>
        t' = t\<lparr>phase := Recording us, last_seen := last_seen t'\<rparr> \<and> set (listed m) = set (listed m')"
      if "represents m s'" for s'
      using that new ph assms(2) rooms by (rule access_effect)
    with \<open>\<exists>s'. represents m s'\<close>
    have t': "newest m' t'" "t' = t\<lparr>phase := Recording us, last_seen := last_seen t'\<rparr>" "set (listed m) = set (listed m')"
      by blast+
    have "phase t' = Recording us" "calls_left t' = ks" "snaps t' = old"
      using left \<open>snaps t = old\<close> by (subst t'(2), simp)+
    moreover have "entered m' us"
      using rest t'(3) by (simp add: entered_def)
    moreover have "represents m' (micro_step (Access a) s')" if "represents m s'" for s'
      using eff [OF that] by simp
    ultimately show ?thesis
      using recorded_on [OF assms(1) ph t'(1)] by blast
  qed
  from assms(2) show ?thesis
  proof (cases rule: recorder_step_cases)
    case (begin_record op ks')
    then show ?thesis using left by simp
  next
    case (begin_snapshot ks')
    then show ?thesis using left by simp
  next
    case recorded
    then show ?thesis using assms(1) by (auto simp: under_way_def)
  next
    case (entered r us)
    have "under_way k ks old s m' t'"
    proof (rule recorded_on [OF assms(1) entered(1)])
      show "newest m' t'" using new entered by (simp add: newest_def enter_room_def)
      show "entered m' us"
        using assms(1) entered by (auto simp: under_way_def entered_def enter_room_def)
      show "represents m' (micro_step (Enter r) s')" if "represents m s'" for s'
        using represents_entry [OF that] entered by simp
    qed (use assms(1) entered in \<open>simp_all add: under_way_def\<close>)
    then show ?thesis ..
  next
    case (looked x u us us')
    show ?thesis
    proof (cases "u = Reload x")
      case True
      have "recorder_step j q m t = Some (m, saw (Global x) j (Recording us) t)"
        using looked(1,3) True by (simp add: recorder_step_def)
      with assms(2) have "phase t' = Recording us" by auto
      with looked(6) have us: "us' = us" by simp
      have "under_way k ks old s m' t'"
      proof (rule recorded_on [OF assms(1) looked(1)])
        show "newest m' t'" using new looked saw by simp
        show "entered m' us"
          using assms(1) looked True by (auto simp: under_way_def entered_def)
        show "represents m' (micro_step u s')" if "represents m s'" for s'
          using that looked True by simp
      qed (use assms(1) looked us in \<open>simp_all add: under_way_def\<close>)
      then show ?thesis ..
    qed (use looked access in blast)
  next
    case (visited must per)
    then show ?thesis using assms(1) by (auto simp: under_way_def)
  next
    case (all_visited must per)
    then show ?thesis using assms(1) by (auto simp: under_way_def)
  next
    case (read_room must per r vs c)
    have "cell_hist m c ! j = newest_room m r ! length vs"
      using assms(1) read_room newest_may_read(2) [OF _ new, of s c] may_read_newest [OF new read_room(4)]
      by (simp add: under_way_def newest_room_def)
    with assms(1) read_room have "vs @ [cell_hist m c ! j] = take (length (vs @ [cell_hist m c ! j])) (newest_room m r)"
      by (intro take_newest) (simp_all add: under_way_def newest_room_def)
    with assms(1) read_room saw show ?thesis by (auto simp: under_way_def min_def)
  next
    case (room_read must per r vs)
    with assms(1) obtain rs where rs: "per = rooms_read m rs" "distinct (r # rs)" "set rs \<subseteq> set (listed m)"
      and vs: "vs = newest_room m r"
      by (auto simp: under_way_def newest_room_def)
    then have "per @ [(r, loaded_room vs)] = rooms_read m (rs @ [r])" "distinct (rs @ [r])"
      by (simp_all add: rooms_read_def)
    moreover have "set (rs @ [r]) \<subseteq> set (listed m)"
      using assms(1) room_read rs by (simp add: under_way_def)
    ultimately show ?thesis
      using assms(1) room_read by (simp add: under_way_def) (intro exI [of _ "rs @ [r]"], simp)
  next
    case (read_global per vs c)
    have "cell_hist m c ! j = newest_globals m ! length vs"
      using assms(1) read_global newest_may_read(2) [OF _ new, of s c] may_read_newest [OF new read_global(4)]
      by (simp add: under_way_def newest_globals_def)
    with assms(1) read_global have "vs @ [cell_hist m c ! j] = take (length (vs @ [cell_hist m c ! j])) (newest_globals m)"
      by (intro take_newest) (simp_all add: under_way_def newest_globals_def)
    with assms(1) read_global saw show ?thesis by (auto simp: under_way_def min_def)
  next
    case (taken per vs)
    with assms(1) obtain rs where rs: "per = rooms_read m rs" "distinct rs" "set rs = set (listed m)"
      and vs: "vs = newest_globals m" and rep: "represents m s"
      by (auto simp: under_way_def newest_globals_def)
    with rooms_read_snapshot [OF rep rs(2,3)] show ?thesis
      using assms(1) taken by (simp add: under_way_def)
  qed (use access in blast)+
qed

lemma calls_left_step:
  "recorder_step j q m t = Some (m', t') \<Longrightarrow> length (calls_left t') \<le> length (calls_left t)"
  by (cases rule: recorder_step_cases) auto

lemma alone_under_way:
  assumes "length (calls_left t) < length ks \<or> under_way k ks old s m t" "alone es m t = Some (m', t')"
  shows "length (calls_left t') < length ks \<or> under_way k ks old s m' t'"
  using assms
proof (induction es arbitrary: m t)
  case (Cons e es)
  obtain j q where e: "e = (j, q)" by (cases e)
  from Cons.prems(2) e obtain m1 t1 where step: "recorder_step j q m t = Some (m1, t1)" and rest: "alone es m1 t1 = Some (m', t')"
    by (auto split: option.splits)
  have "length (calls_left t1) < length ks \<or> under_way k ks old s m1 t1"
    using Cons.prems(1) calls_left_step [OF step] under_way_step [OF _ step] by fastforce
  from Cons.IH [OF this rest] show ?case .
qed simp

section \<open>Properties\<close>

text \<open>C12 A call that no other thread disturbs is the method, when its thread has seen the newest value of
  every cell (the only thread of a recorder always has; another one may read older values). From
  cells that hold the state \<open>s\<close> the thread can finish its next call, and whichever accesses it finishes
  it by, afterwards the cells hold what the method makes of \<open>s\<close>; for a snapshot they hold \<open>s\<close> as before
  and the snapshot taken is \<open>snapshot s\<close>. And the thread has seen the newest values again.\<close>

theorem recorder_alone_refines:
  assumes "represents m s" "newest m t" "phase t = Resting" "calls_left t = k # ks"
  shows "(\<exists>es m' t'. alone es m t = Some (m', t') \<and> phase t' = Resting \<and> calls_left t' = ks) \<and>
    (\<forall>es m' t'. alone es m t = Some (m', t') \<longrightarrow> phase t' = Resting \<longrightarrow> calls_left t' = ks \<longrightarrow>
       represents m' (case k of Record op \<Rightarrow> apply_op op s | Snapshot \<Rightarrow> s) \<and> newest m' t' \<and>
       snaps t' = snaps t @ (case k of Record op \<Rightarrow> [] | Snapshot \<Rightarrow> [snapshot s]))"
proof
  let ?t = "t\<lparr>calls_left := ks, begun := begun t @ [k],
    phase := (case k of Record op \<Rightarrow> Recording (micros op) | Snapshot \<Rightarrow> Listing (listed m) [])\<rparr>"
  have enter: "recorder_step j q m t = Some (m, ?t)" for j q
    using assms(3,4) by (simp add: recorder_step_def)
  have new: "newest m ?t" using assms(2) by (simp add: newest_def)
  have "\<exists>es m' t'. alone es m ?t = Some (m', t') \<and> phase t' = Resting \<and> calls_left t' = ks"
  proof (cases k)
    case (Record op)
    obtain es m' t' where "alone es m ?t = Some (m', t')" "t' = ?t\<lparr>phase := Resting, last_seen := last_seen t'\<rparr>"
      using recording_alone [OF assms(1) new, of "micros op"] entered_micros Record by auto
    then show ?thesis by (intro exI conjI) (assumption | erule ssubst, simp)+
  next
    case Snapshot
    then show ?thesis using snapshot_alone [OF assms(1) new] by fastforce
  qed
  then obtain es m' t' where "alone es m ?t = Some (m', t')" "phase t' = Resting" "calls_left t' = ks" by blast
  then have "alone ((0, []) # es) m t = Some (m', t') \<and> phase t' = Resting \<and> calls_left t' = ks"
    by (simp add: enter)
  then show "\<exists>es m' t'. alone es m t = Some (m', t') \<and> phase t' = Resting \<and> calls_left t' = ks" by blast
  have start: "under_way k ks (snaps t) s m ?t"
    using assms(1) new by (cases k) (auto simp: under_way_def entered_micros fold_micros rooms_read_def)
  show "\<forall>es m' t'. alone es m t = Some (m', t') \<longrightarrow> phase t' = Resting \<longrightarrow> calls_left t' = ks \<longrightarrow>
      represents m' (case k of Record op \<Rightarrow> apply_op op s | Snapshot \<Rightarrow> s) \<and> newest m' t' \<and>
      snaps t' = snaps t @ (case k of Record op \<Rightarrow> [] | Snapshot \<Rightarrow> [snapshot s])"
  proof (intro allI impI)
    fix es m' t'
    assume run: "alone es m t = Some (m', t')" and end': "phase t' = Resting" "calls_left t' = ks"
    obtain j q es' where es: "es = (j, q) # es'"
      using run end'(2) assms(4) by (cases es) auto
    with run have "alone es' m ?t = Some (m', t')" by (simp add: enter)
    with alone_under_way [OF disjI2 [OF start] this] end'
    show "represents m' (case k of Record op \<Rightarrow> apply_op op s | Snapshot \<Rightarrow> s) \<and> newest m' t' \<and>
        snaps t' = snaps t @ (case k of Record op \<Rightarrow> [] | Snapshot \<Rightarrow> [snapshot s])"
      by (simp add: under_way_def)
  qed
qed

theorem recorder_alone_refines_witness:
  "\<exists>es m t. alone es (smem (stats_start [[Record (MessageIn 5)]])) (sthreads (stats_start [[Record (MessageIn 5)]]) ! 0) = Some (m, t) \<and>
     represents m (record_message_in 5 stats_new)"
proof -
  let ?w = "stats_start [[Record (MessageIn 5)]]"
  have "get_global x globals_default = 0" for x
    by (cases x) (simp_all add: globals_default_def)
  then have "represents (smem ?w) stats_new"
    by (simp add: represents_def stats_start_def stats_new_def)
  moreover have "newest (smem ?w) (sthreads ?w ! 0)" "phase (sthreads ?w ! 0) = Resting"
    "calls_left (sthreads ?w ! 0) = [Record (MessageIn 5)]"
    by (simp_all add: newest_def stats_start_def)
  note recorder_alone_refines [OF calculation this]
  then show ?thesis by (simp only: request.case apply_op.simps) blast
qed

end
