(* ===== verification/Ws_Room.thy ===== *)
theory Ws_Room
  imports Bcast_Channel Ws_Stats Ws_Codec Ws_Config
begin

text \<open>
  \<open>src/room.rs\<close>, first half: a room, its roster and its broadcasts. A room is shared through
  \<open>Arc\<close>, so rooms live in a store and are passed around by address; recorders (\<open>StatsRecorder\<close>,
  an \<open>Arc\<close> as well) live in the same store. The operations of this theory act on a room's record
  and, where the code reports to a recorder, on the list of recorders.
\<close>

record 'tx room =
  room_id :: rstr
  room_tx :: 'tx
  participants :: "(u32, rstr) dict"
  room_rec :: "nat option"

type_synonym 'tx frame_channel = "('tx, frame) channel_ops"

definition room_with_stats ::
  "'tx frame_channel \<Rightarrow> rstr \<Rightarrow> usize \<Rightarrow> nat option \<Rightarrow> 'tx room run" where
  "room_with_stats ch rid capacity stats =
     (case ch_new ch capacity of
        None \<Rightarrow> None
      | Some tx \<Rightarrow> Some \<lparr> room_id = rid, room_tx = tx, participants = DAList.empty, room_rec = stats \<rparr>)"

definition room_new :: "'tx frame_channel \<Rightarrow> rstr \<Rightarrow> usize \<Rightarrow> 'tx room run" where
  "room_new ch rid capacity = room_with_stats ch rid capacity None"

definition room_subscribe :: "'tx frame_channel \<Rightarrow> 'tx room \<Rightarrow> 'tx room \<times> nat" where
  "room_subscribe ch r = (case ch_subscribe ch (room_tx r) of (tx, rx) \<Rightarrow> (r\<lparr>room_tx := tx\<rparr>, rx))"

text \<open>\<open>if let Some(stats) = &self.stats\<close>: apply a recorder method, if there is a recorder.\<close>

definition with_recorder ::
  "nat option \<Rightarrow> (stats_inner \<Rightarrow> stats_inner) \<Rightarrow> stats_inner list \<Rightarrow> stats_inner list" where
  "with_recorder stats f recs = (case stats of None \<Rightarrow> recs | Some i \<Rightarrow> recs[i := f (recs ! i)])"

definition room_record_drop :: "'tx room \<Rightarrow> stats_inner list \<Rightarrow> stats_inner list \<times> ws_error" where
  "room_record_drop r recs =
     (with_recorder (room_rec r) (record_room_drop (room_id r)) recs, BroadcastFull)"

definition room_broadcast ::
  "'tx frame_channel \<Rightarrow> frame \<Rightarrow> 'tx room \<Rightarrow> stats_inner list \<Rightarrow>
   'tx room \<times> stats_inner list \<times> nat res" where
  "room_broadcast ch msg r recs =
     (case ch_send ch (room_tx r) msg of
        (tx, None) \<Rightarrow>
          (case room_record_drop r recs of (recs, e) \<Rightarrow> (r\<lparr>room_tx := tx\<rparr>, recs, Inl e))
      | (tx, Some n) \<Rightarrow>
          (r\<lparr>room_tx := tx\<rparr>,
           with_recorder (room_rec r)
             (record_room_message_out (room_id r) (of_nat n) (of_nat (frame_len msg) * of_nat n)) recs,
           Inr n))"

definition room_join :: "u32 \<Rightarrow> rstr \<Rightarrow> 'tx room \<Rightarrow> 'tx room" where
  "room_join p name r = r\<lparr>participants := DAList.update p name (participants r)\<rparr>"

definition room_leave :: "u32 \<Rightarrow> 'tx room \<Rightarrow> 'tx room \<times> bool" where
  "room_leave p r =
     (r\<lparr>participants := DAList.delete p (participants r)\<rparr>, DAList.lookup (participants r) p \<noteq> None)"

definition room_contains :: "u32 \<Rightarrow> 'tx room \<Rightarrow> bool" where
  "room_contains p r \<longleftrightarrow> DAList.lookup (participants r) p \<noteq> None"

definition room_participants :: "'tx room \<Rightarrow> (u32 \<times> rstr) list" where
  "room_participants r = map (\<lambda>(p, name). (p, name)) (entries (participants r))"

definition participant_names :: "'tx room \<Rightarrow> rstr list" where
  "participant_names r = map (\<lambda>(p, name). name) (entries (participants r))"

definition participant_count :: "'tx room \<Rightarrow> nat" where
  "participant_count r = dict_len (participants r)"

definition room_receiver_count :: "'tx frame_channel \<Rightarrow> 'tx room \<Rightarrow> nat" where
  "room_receiver_count ch r = ch_receiver_count ch (room_tx r)"

definition room_is_empty :: "'tx frame_channel \<Rightarrow> 'tx room \<Rightarrow> bool" where
  "room_is_empty ch r \<longleftrightarrow> dict_len (participants r) = 0 \<and> ch_receiver_count ch (room_tx r) = 0"

definition room_sender :: "'tx room \<Rightarrow> 'tx" where
  "room_sender r = room_tx r"

section \<open>The roster\<close>

datatype roster_call = Join u32 rstr | Leave u32

primrec roster_step :: "roster_call \<Rightarrow> 'tx room \<Rightarrow> 'tx room" where
  "roster_step (Join p name) r = room_join p name r"
| "roster_step (Leave p) r = fst (room_leave p r)"

text \<open>The name a participant has after a sequence of calls: that of its last join, unless it left
  since.\<close>

fun last_name :: "u32 \<Rightarrow> roster_call list \<Rightarrow> rstr option \<Rightarrow> rstr option" where
  "last_name p [] d = d"
| "last_name p (Join q name # cs) d = last_name p cs (if p = q then Some name else d)"
| "last_name p (Leave q # cs) d = last_name p cs (if p = q then None else d)"

lemmas room_defs = room_subscribe_def room_join_def room_leave_def room_broadcast_def
  room_record_drop_def

lemma roster_lookup:
  "DAList.lookup (participants (fold roster_step cs r)) p = last_name p cs (DAList.lookup (participants r) p)"
proof (induction cs arbitrary: r)
  case (Cons c cs)
  then show ?case
    by (cases c) (auto simp: room_join_def room_leave_def lookup_update lookup_delete)
qed simp

lemma room_participants_map_of: "map_of (room_participants r) = DAList.lookup (participants r)"
  by (simp add: room_participants_def lookup_map_of)

lemma distinct_room_participants: "distinct (map fst (room_participants r))"
  by (simp add: room_participants_def)

lemma participant_count_card: "participant_count r = card {p. room_contains p r}"
  by (simp add: participant_count_def dict_len_card room_contains_def dom_def)

lemma participant_names_snd: "participant_names r = map snd (room_participants r)"
  by (simp add: participant_names_def room_participants_def case_prod_unfold)

lemma room_is_empty_iff:
  "room_is_empty ch r \<longleftrightarrow> participant_count r = 0 \<and> room_receiver_count ch r = 0"
  by (simp add: room_is_empty_def participant_count_def room_receiver_count_def)

section \<open>Broadcasts\<close>

lemma length_with_recorder [simp]: "length (with_recorder stats f recs) = length recs"
  by (simp add: with_recorder_def split: option.split)

lemma room_broadcast_keeps:
  "room_broadcast ch msg r recs = (r', recs', res) \<Longrightarrow>
   room_id r' = room_id r \<and> participants r' = participants r \<and> room_rec r' = room_rec r \<and>
   length recs' = length recs"
  by (auto simp: room_defs split: prod.splits option.splits)

locale frame_channel = broadcast_channel ch live inbox drop_rx
  for ch :: "'tx frame_channel" and live :: "'tx \<Rightarrow> nat set"
    and inbox :: "'tx \<Rightarrow> nat \<Rightarrow> frame list" and drop_rx :: "nat \<Rightarrow> 'tx \<Rightarrow> 'tx"
begin

text \<open>A broadcast in terms of the number of receivers.\<close>

lemma room_broadcast_by_count:
  "room_broadcast ch msg r recs =
     (let n = room_receiver_count ch r
      in (r\<lparr>room_tx := fst (ch_send ch (room_tx r) msg)\<rparr>,
          with_recorder (room_rec r)
            (if n = 0 then record_room_drop (room_id r)
             else record_room_message_out (room_id r) (of_nat n) (of_nat (frame_len msg) * of_nat n)) recs,
          if n = 0 then Inl BroadcastFull else Inr n))"
proof (cases "live (room_tx r) = {}")
  case True
  then obtain tx where "ch_send ch (room_tx r) msg = (tx, None)"
    by (cases "ch_send ch (room_tx r) msg") (use send_result [of "room_tx r" msg] in auto)
  with True show ?thesis
    by (simp add: room_broadcast_def room_record_drop_def room_receiver_count_def count_zero)
next
  case False
  then obtain tx where "ch_send ch (room_tx r) msg = (tx, Some (room_receiver_count ch r))"
    using send_result [of "room_tx r" msg] count_live [of "room_tx r"]
    by (cases "ch_send ch (room_tx r) msg") (auto simp: room_receiver_count_def)
  with False show ?thesis
    by (simp add: room_broadcast_def room_receiver_count_def count_zero Let_def)
qed

lemma room_broadcast_result:
  "snd (snd (room_broadcast ch msg r recs)) =
     (if room_receiver_count ch r = 0 then Inl BroadcastFull else Inr (room_receiver_count ch r))"
  by (simp add: room_broadcast_by_count Let_def)

lemma room_broadcast_recorders:
  "fst (snd (room_broadcast ch msg r recs)) =
     with_recorder (room_rec r)
       (let n = room_receiver_count ch r
        in if n = 0 then record_room_drop (room_id r)
           else record_room_message_out (room_id r) (of_nat n) (of_nat (frame_len msg) * of_nat n)) recs"
  by (simp add: room_broadcast_by_count Let_def)

lemma room_broadcast_inbox:
  "inbox (room_tx (fst (room_broadcast ch msg r recs))) rx =
     (if rx \<in> live (room_tx r) then inbox (room_tx r) rx @ [msg] else inbox (room_tx r) rx)"
  "live (room_tx (fst (room_broadcast ch msg r recs))) = live (room_tx r)"
  by (simp_all add: room_broadcast_by_count Let_def send_inbox send_live)

end

interpretation ref_frames: frame_channel ref_channel ref_live ref_inbox ref_drop
  by unfold_locales

section \<open>Properties\<close>

text \<open>A room's broadcast reaches every receiver of the room once, in order after what it was sent
  before, and nobody else; it returns how many there are and fails with \<open>BroadcastFull\<close> exactly when
  there are none; the roster plays no part in it and does not change.\<close>

lemma room_broadcast_delivers:
  assumes "frame_channel ch live inbox drop_rx" "room_broadcast ch msg r recs = (r', recs', res)"
  shows
    "(res = (if room_receiver_count ch r = 0 then Inl BroadcastFull else Inr (room_receiver_count ch r))) \<and>
     (inbox (room_tx r') rx =
       (if rx \<in> live (room_tx r) then inbox (room_tx r) rx @ [msg] else inbox (room_tx r) rx)) \<and>
     (participants r' = participants r)"
  using frame_channel.room_broadcast_result [OF assms(1), of msg r recs]
    frame_channel.room_broadcast_inbox(1) [OF assms(1), of msg r recs rx]
    room_broadcast_keeps [OF assms(2)] assms(2) by simp_all

lemma room_broadcast_delivers_witness:
  "snd (snd (room_broadcast ref_channel (Text (lit ''x''))
      \<lparr> room_id = lit ''a'', room_tx = \<lparr> next_rx = 1, rx_queues = [(0, [])] \<rparr>,
        participants = DAList.empty, room_rec = None \<rparr> [])) = Inr 1" (is "snd (snd ?b) = _")
proof -
  have "?b = (fst ?b, fst (snd ?b), snd (snd ?b))" by simp
  from room_broadcast_delivers [OF ref_frames.frame_channel_axioms this] show ?thesis
    by (simp add: room_receiver_count_def ref_channel_def ref_count_def)
qed

text \<open>What a broadcast reports to the recorder of its room: with \<open>n\<close> receivers, \<open>n\<close> outbound
  messages of the room and \<open>n\<close> times the length of the frame in bytes (modulo \<open>2 ^ 64\<close>); with none,
  one drop of the room. Nothing else is reported, and a room without a recorder reports nothing.\<close>

lemma room_broadcast_records:
  assumes "frame_channel ch live inbox drop_rx"
  shows "fst (snd (room_broadcast ch msg r recs)) =
    (case room_rec r of None \<Rightarrow> recs
     | Some i \<Rightarrow> recs[i :=
         (let n = room_receiver_count ch r
          in if n = 0 then record_room_drop (room_id r) (recs ! i)
             else record_room_message_out (room_id r) (of_nat n)
               (of_nat (n * length (as_bytes msg))) (recs ! i))])"
  using frame_channel.room_broadcast_recorders [OF assms, of msg r recs]
  by (simp add: with_recorder_def Let_def frame_len_bytes mult.commute split: option.split)

lemma room_broadcast_records_witness:
  "(let r = \<lparr> room_id = lit ''a'', room_tx = \<lparr> next_rx = 2, rx_queues = [(0, []), (1, [])] \<rparr>,
        participants = DAList.empty, room_rec = Some 0 \<rparr>
    in fst (snd (room_broadcast ref_channel (Text (lit ''xyz'')) r [stats_new])) =
      [record_room_message_out (lit ''a'') 2 6 stats_new])"
  unfolding Let_def
  by (rule room_broadcast_records [OF ref_frames.frame_channel_axioms, THEN trans]) code_simp

text \<open>C39 The roster after any sequence of joins and leaves: a participant is listed, once, with the name
  of its last join, unless it left since; the participant count is the number of participants that
  \<open>contains\<close> reports.\<close>

theorem roster_is_last_join:
    "(map_of (room_participants (fold roster_step cs r)) p =
     last_name p cs (map_of (room_participants r) p)) \<and>
     (distinct (map fst (room_participants (fold roster_step cs r)))) \<and>
     (participant_count (fold roster_step cs r) = card {p. room_contains p (fold roster_step cs r)})"
  by (simp_all add: room_participants_map_of roster_lookup distinct_room_participants
      participant_count_card)

end
