(* ===== verification/Room_Manager.thy ===== *)
theory Room_Manager
  imports Ws_Room
begin

text \<open>
  \<open>src/room.rs\<close>, second half: the \<open>RoomRegistry\<close> trait and the \<open>RoomManager\<close>. An \<open>Arc<Room>\<close>
  is an address in \<open>heap\<close>, which only grows: a room that the manager dropped is still there for
  whoever holds it. \<open>recorders\<close> is the memory the recorder handles point into. The trait is a
  record of operations, so that its contract can be stated once, as a locale, and discharged for
  every implementation.
\<close>

record 'tx manager =
  rooms :: "(rstr, nat) dict"
  default_capacity :: usize
  mgr_rec :: "nat option"
  heap :: "'tx room list"
  recorders :: "stats_inner list"

definition manager_new :: "'tx manager" where
  "manager_new = \<lparr> rooms = DAList.empty, default_capacity = 1024, mgr_rec = None,
     heap = [], recorders = [] \<rparr>"

definition manager_with_config :: "ws_config \<Rightarrow> 'tx manager" where
  "manager_with_config config = \<lparr> rooms = DAList.empty,
     default_capacity = broadcast_capacity config, mgr_rec = None, heap = [], recorders = [] \<rparr>"

definition manager_with_stats :: "ws_config \<Rightarrow> stats_inner \<Rightarrow> 'tx manager" where
  "manager_with_stats config s = \<lparr> rooms = DAList.empty,
     default_capacity = broadcast_capacity config, mgr_rec = Some 0, heap = [], recorders = [s] \<rparr>"

definition manager_stats :: "'tx manager \<Rightarrow> nat option" where
  "manager_stats m = mgr_rec m"

definition report :: "(stats_inner \<Rightarrow> stats_inner) \<Rightarrow> 'tx manager \<Rightarrow> 'tx manager" where
  "report f m = m\<lparr>recorders := with_recorder (mgr_rec m) f (recorders m)\<rparr>"

definition manager_get :: "rstr \<Rightarrow> 'tx manager \<Rightarrow> nat option" where
  "manager_get rid m = DAList.lookup (rooms m) rid"

text \<open>\<open>entry(room_id).or_insert_with(...)\<close>: the address that ends up in the dictionary.\<close>

definition entry_or_insert :: "rstr \<Rightarrow> nat \<Rightarrow> 'tx manager \<Rightarrow> 'tx manager \<times> nat" where
  "entry_or_insert rid a m =
     (case DAList.lookup (rooms m) rid of
        Some b \<Rightarrow> (m, b)
      | None \<Rightarrow> (m\<lparr>rooms := DAList.update rid a (rooms m)\<rparr>, a))"

definition get_or_create_with_capacity ::
  "'tx frame_channel \<Rightarrow> rstr \<Rightarrow> usize \<Rightarrow> 'tx manager \<Rightarrow> ('tx manager \<times> nat) run" where
  "get_or_create_with_capacity ch rid capacity m =
     (case DAList.lookup (rooms m) rid of
        Some a \<Rightarrow> Some (m, a)
      | None \<Rightarrow>
          (case room_with_stats ch rid capacity (mgr_rec m) of
             None \<Rightarrow> None
           | Some r \<Rightarrow>
               let a = length (heap m);
                   m = m\<lparr>heap := heap m @ [r]\<rparr>;
                   m = report room_opened m
               in Some (entry_or_insert rid a m)))"

definition get_or_create :: "'tx frame_channel \<Rightarrow> rstr \<Rightarrow> 'tx manager \<Rightarrow> ('tx manager \<times> nat) run" where
  "get_or_create ch rid m = get_or_create_with_capacity ch rid (default_capacity m) m"

definition manager_remove :: "rstr \<Rightarrow> 'tx manager \<Rightarrow> 'tx manager \<times> nat option" where
  "manager_remove rid m =
     (let removed = DAList.lookup (rooms m) rid;
          m = m\<lparr>rooms := DAList.delete rid (rooms m)\<rparr>
      in (if removed \<noteq> None then report room_closed m else m, removed))"

definition room_count :: "'tx manager \<Rightarrow> nat" where
  "room_count m = dict_len (rooms m)"

definition total_participants :: "'tx manager \<Rightarrow> nat" where
  "total_participants m = sum_list (map (\<lambda>(k, a). participant_count (heap m ! a)) (entries (rooms m)))"

text \<open>The tail the two clean-ups share: drop the keys, report each as closed.\<close>

definition remove_keys :: "rstr list \<Rightarrow> 'tx manager \<Rightarrow> 'tx manager \<times> nat" where
  "remove_keys to_remove m =
     (let n = length to_remove;
          m = m\<lparr>rooms := delete_all to_remove (rooms m)\<rparr>
      in (if n > 0 then (report room_closed ^^ n) m else m, n))"

definition cleanup :: "'tx frame_channel \<Rightarrow> 'tx manager \<Rightarrow> 'tx manager \<times> nat" where
  "cleanup ch m =
     remove_keys
       (map fst (filter (\<lambda>(k, a). room_is_empty ch (heap m ! a)) (entries (rooms m)))) m"

definition cleanup_empty :: "'tx manager \<Rightarrow> 'tx manager \<times> nat" where
  "cleanup_empty m =
     remove_keys
       (map fst (filter (\<lambda>(k, a). participant_count (heap m ! a) = 0) (entries (rooms m)))) m"

definition room_ids :: "'tx manager \<Rightarrow> rstr list" where
  "room_ids m = map (\<lambda>(k, a). k) (entries (rooms m))"

section \<open>The trait\<close>

record 's registry =
  reg_get_or_create :: "rstr \<Rightarrow> 's \<Rightarrow> ('s \<times> nat) run"
  reg_get :: "rstr \<Rightarrow> 's \<Rightarrow> nat option"
  reg_remove :: "rstr \<Rightarrow> 's \<Rightarrow> 's \<times> nat option"
  reg_room_count :: "'s \<Rightarrow> nat"
  reg_room_ids :: "'s \<Rightarrow> rstr list"
  reg_total_participants :: "'s \<Rightarrow> nat"
  reg_cleanup :: "'s \<Rightarrow> 's \<times> nat"
  reg_cleanup_empty :: "'s \<Rightarrow> 's \<times> nat"

definition manager_registry :: "'tx frame_channel \<Rightarrow> 'tx manager registry" where
  "manager_registry ch =
     \<lparr> reg_get_or_create = get_or_create ch, reg_get = manager_get, reg_remove = manager_remove,
       reg_room_count = room_count, reg_room_ids = room_ids,
       reg_total_participants = total_participants, reg_cleanup = cleanup ch,
       reg_cleanup_empty = cleanup_empty \<rparr>"

text \<open>
  The contract: which rooms are there after each operation. \<open>ok\<close> is the implementation's
  invariant, \<open>members s a\<close> the number of participants of the room at \<open>a\<close> and \<open>idle s a\<close> says that
  it has neither participants nor receivers.
\<close>

locale room_registry =
  fixes R :: "'s registry"
    and ok :: "'s \<Rightarrow> bool"
    and members :: "'s \<Rightarrow> nat \<Rightarrow> nat"
    and idle :: "'s \<Rightarrow> nat \<Rightarrow> bool"
  assumes ids_get: "set (reg_room_ids R s) = {rid. reg_get R rid s \<noteq> None}"
    and ids_distinct: "distinct (reg_room_ids R s)"
    and count_ids: "reg_room_count R s = length (reg_room_ids R s)"
    and total_members: "reg_total_participants R s =
      sum_list (map (\<lambda>rid. members s (the (reg_get R rid s))) (reg_room_ids R s))"
    and get_existing: "reg_get R rid s = Some a \<Longrightarrow> reg_get_or_create R rid s = Some (s, a)"
    and create_get: "ok s \<Longrightarrow> reg_get_or_create R rid s = Some (s', a) \<Longrightarrow>
      reg_get R q s' = (if q = rid then Some a else reg_get R q s)"
    and create_ok: "ok s \<Longrightarrow> reg_get_or_create R rid s = Some (s', a) \<Longrightarrow> ok s'"
    and create_fresh: "ok s \<Longrightarrow> reg_get R rid s = None \<Longrightarrow>
      reg_get_or_create R rid s = Some (s', a) \<Longrightarrow>
      members s' a = 0 \<and> idle s' a \<and> reg_get R q s \<noteq> Some a"
    and create_others: "ok s \<Longrightarrow> reg_get_or_create R rid s = Some (s', a) \<Longrightarrow>
      reg_get R q s = Some b \<Longrightarrow> members s' b = members s b \<and> idle s' b = idle s b"
    and remove_get: "ok s \<Longrightarrow> reg_remove R rid s = (s', r) \<Longrightarrow>
      ok s' \<and> r = reg_get R rid s \<and> members s' = members s \<and> idle s' = idle s \<and>
      reg_get R q s' = (if q = rid then None else reg_get R q s)"
    and cleanup_get: "ok s \<Longrightarrow> reg_cleanup R s = (s', n) \<Longrightarrow>
      ok s' \<and> members s' = members s \<and> idle s' = idle s \<and>
      reg_get R q s' = (case reg_get R q s of Some a \<Rightarrow> if idle s a then None else Some a | None \<Rightarrow> None) \<and>
      reg_room_count R s' + n = reg_room_count R s"
    and cleanup_empty_get: "ok s \<Longrightarrow> reg_cleanup_empty R s = (s', n) \<Longrightarrow>
      ok s' \<and> members s' = members s \<and> idle s' = idle s \<and>
      reg_get R q s' =
        (case reg_get R q s of Some a \<Rightarrow> if members s a = 0 then None else Some a | None \<Rightarrow> None) \<and>
      reg_room_count R s' + n = reg_room_count R s"
    and idle_members: "idle s a \<Longrightarrow> members s a = 0"
begin

lemma count_card: "reg_room_count R s = card {rid. reg_get R rid s \<noteq> None}"
  using ids_get [of s] ids_distinct [of s] by (metis count_ids distinct_card)

lemma create_twice:
  "ok s \<Longrightarrow> reg_get_or_create R rid s = Some (s', a) \<Longrightarrow> reg_get_or_create R rid s' = Some (s', a)"
  by (rule get_existing) (simp add: create_get)

lemma create_count:
  assumes "ok s" "reg_get_or_create R rid s = Some (s', a)"
  shows "reg_room_count R s' = reg_room_count R s + (if reg_get R rid s = None then 1 else 0)"
proof -
  have fin: "finite {q. reg_get R q s \<noteq> None}"
    unfolding ids_get [symmetric] by simp
  have "{q. reg_get R q s' \<noteq> None} = insert rid {q. reg_get R q s \<noteq> None}"
    using create_get [OF assms] by auto
  then show ?thesis
    using fin by (simp add: count_card card_insert_if)
qed

lemma remove_count:
  assumes "ok s" "reg_remove R rid s = (s', r)"
  shows "reg_room_count R s' = reg_room_count R s - (if reg_get R rid s = None then 0 else 1)"
proof -
  have "{q. reg_get R q s' \<noteq> None} = {q. reg_get R q s \<noteq> None} - {rid}"
    using remove_get [OF assms] by auto
  then show ?thesis
    by (simp add: count_card card_Diff_singleton_if)
qed

lemma create_remove:
  assumes "ok s" "reg_get R rid s = None" "reg_get_or_create R rid s = Some (s', a)"
    and "reg_remove R rid s' = (s'', r)"
  shows "r = Some a \<and> reg_get R q s'' = reg_get R q s"
  using remove_get [OF create_ok [OF assms(1,3)] assms(4), of q] create_get [OF assms(1,3)] assms(2)
  by auto

text \<open>A second clean-up finds nothing, and neither clean-up loses a participant.\<close>

lemma cleanup_twice:
  assumes "ok s" "reg_cleanup R s = (s', n)" "reg_cleanup R s' = (s'', k)"
  shows "k = 0"
proof -
  note 1 = cleanup_get [OF assms(1,2)]
  note 2 = cleanup_get [OF conjunct1 [OF 1] assms(3)]
  have "reg_get R q s'' = reg_get R q s'" for q
    using 1 [of q] 2 [of q] by (auto split: option.splits if_splits)
  then have "reg_room_count R s'' = reg_room_count R s'"
    by (simp add: count_card)
  with 2 show ?thesis by simp
qed

lemma total_by_get:
  "reg_total_participants R s = (\<Sum>rid | reg_get R rid s \<noteq> None. members s (the (reg_get R rid s)))"
  unfolding total_members ids_get [symmetric] using ids_distinct [of s]
  by (simp add: sum_list_distinct_conv_sum_set)

lemma total_dropping:
  assumes "members s' = members s"
    and "\<And>q. reg_get R q s' = (case reg_get R q s of Some a \<Rightarrow> if P a then None else Some a | None \<Rightarrow> None)"
    and "\<And>a. P a \<Longrightarrow> members s a = 0"
  shows "reg_total_participants R s' = reg_total_participants R s"
  unfolding total_by_get
proof (rule sum.mono_neutral_cong_left)
  show "finite {rid. reg_get R rid s \<noteq> None}"
    unfolding ids_get [symmetric] by simp
qed (use assms in \<open>auto split: option.splits if_splits\<close>)

lemma cleanup_total:
  "ok s \<Longrightarrow> reg_cleanup R s = (s', n) \<Longrightarrow> reg_total_participants R s' = reg_total_participants R s"
  by (rule total_dropping [where P = "idle s"]) (simp_all add: cleanup_get idle_members)

lemma cleanup_empty_total:
  "ok s \<Longrightarrow> reg_cleanup_empty R s = (s', n) \<Longrightarrow>
   reg_total_participants R s' = reg_total_participants R s"
  by (rule total_dropping [where P = "\<lambda>a. members s a = 0"]) (simp_all add: cleanup_empty_get)

end

section \<open>The manager implements the trait\<close>

text \<open>Every room of the dictionary has an address of the store, and its own one.\<close>

definition manager_ok :: "'tx manager \<Rightarrow> bool" where
  "manager_ok m \<longleftrightarrow> list_all (\<lambda>(k, a). a < length (heap m)) (entries (rooms m)) \<and>
     distinct (map snd (entries (rooms m)))"

definition mgr_members :: "'tx manager \<Rightarrow> nat \<Rightarrow> nat" where
  "mgr_members m a = participant_count (heap m ! a)"

definition mgr_idle :: "'tx frame_channel \<Rightarrow> 'tx manager \<Rightarrow> nat \<Rightarrow> bool" where
  "mgr_idle ch m a \<longleftrightarrow> room_is_empty ch (heap m ! a)"

lemma manager_ok_lookup:
  "manager_ok m \<longleftrightarrow> (\<forall>k a. DAList.lookup (rooms m) k = Some a \<longrightarrow> a < length (heap m)) \<and>
     (\<forall>k k' a. DAList.lookup (rooms m) k = Some a \<longrightarrow> DAList.lookup (rooms m) k' = Some a \<longrightarrow> k = k')"
  by (auto simp: manager_ok_def list_all_iff in_entries_iff distinct_values_iff)

lemma room_ids_keys: "room_ids m = dict_keys (rooms m)"
  by (simp add: room_ids_def dict_keys_def case_prod_unfold)

lemma total_participants_sum:
  "total_participants m =
     sum_list (map (\<lambda>rid. participant_count (heap m ! the (DAList.lookup (rooms m) rid))) (dict_keys (rooms m)))"
proof -
  have "map (\<lambda>(k, a). participant_count (heap m ! a)) (entries (rooms m)) =
      map (\<lambda>p. participant_count (heap m ! the (DAList.lookup (rooms m) (fst p)))) (entries (rooms m))"
    by (rule map_cong [OF refl]) (auto simp: in_entries_iff)
  then show ?thesis
    unfolding total_participants_def dict_keys_def map_map comp_def by (rule arg_cong)
qed

lemma report_simps [simp]:
  "rooms (report f m) = rooms m" "heap (report f m) = heap m" "mgr_rec (report f m) = mgr_rec m"
  "default_capacity (report f m) = default_capacity m"
  by (simp_all add: report_def)

lemma report_pow_simps [simp]:
  "rooms ((report f ^^ n) m) = rooms m" "heap ((report f ^^ n) m) = heap m"
  "mgr_rec ((report f ^^ n) m) = mgr_rec m" "default_capacity ((report f ^^ n) m) = default_capacity m"
  by (induction n) simp_all

lemma remove_keys_simps [simp]:
  "rooms (fst (remove_keys ks m)) = delete_all ks (rooms m)" "heap (fst (remove_keys ks m)) = heap m"
  "mgr_rec (fst (remove_keys ks m)) = mgr_rec m" "snd (remove_keys ks m) = length ks"
  "default_capacity (fst (remove_keys ks m)) = default_capacity m"
  by (simp_all add: remove_keys_def Let_def)

lemma selected_keys:
  "set (map fst (filter (\<lambda>(k, a). P a) (entries d))) = {k. \<exists>a. DAList.lookup d k = Some a \<and> P a}"
  "distinct (map fst (filter (\<lambda>(k, a). P a) (entries d)))"
  by (force simp: in_entries_iff) (simp add: distinct_map_filter)

text \<open>Both clean-ups, for the predicate that selects the rooms.\<close>

lemma remove_selected:
  assumes "remove_keys (map fst (filter (\<lambda>(k, a). P a) (entries (rooms m)))) m = (m', n)"
  shows "heap m' = heap m" "manager_ok m \<Longrightarrow> manager_ok m'"
    "DAList.lookup (rooms m') q =
       (case DAList.lookup (rooms m) q of Some a \<Rightarrow> if P a then None else Some a | None \<Rightarrow> None)"
    "room_count m' + n = room_count m"
proof -
  let ?ks = "map fst (filter (\<lambda>(k, a). P a) (entries (rooms m)))"
  have m': "rooms m' = delete_all ?ks (rooms m)" "heap m' = heap m" "n = length ?ks"
    using remove_keys_simps [of ?ks m] unfolding assms by simp_all
  show "heap m' = heap m" by (rule m')
  show look: "DAList.lookup (rooms m') q =
       (case DAList.lookup (rooms m) q of Some a \<Rightarrow> if P a then None else Some a | None \<Rightarrow> None)" for q
    unfolding m' lookup_delete_all selected_keys(1) by (auto split: option.splits)
  show "manager_ok m \<Longrightarrow> manager_ok m'"
    unfolding manager_ok_lookup look m'(2) by (auto split: option.splits if_splits)
  show "room_count m' + n = room_count m"
    unfolding room_count_def m' by (rule dict_len_delete_all [OF selected_keys(2)]) (unfold selected_keys(1), auto)
qed

lemma entry_or_insert_simps:
  "heap (fst (entry_or_insert rid a m)) = heap m" "recorders (fst (entry_or_insert rid a m)) = recorders m"
  "mgr_rec (fst (entry_or_insert rid a m)) = mgr_rec m"
  "DAList.lookup (rooms (fst (entry_or_insert rid a m))) =
     (DAList.lookup (rooms m))(rid \<mapsto> snd (entry_or_insert rid a m))"
  by (auto simp: entry_or_insert_def lookup_update split: option.split)

lemma get_or_create_cases:
  assumes "get_or_create_with_capacity ch rid capacity m = Some (m', a)"
  obtains (present) "manager_get rid m = Some a" "m' = m"
    | (created) r where "manager_get rid m = None" "room_with_stats ch rid capacity (mgr_rec m) = Some r"
      "a = length (heap m)" "heap m' = heap m @ [r]" "rooms m' = DAList.update rid a (rooms m)"
      "recorders m' = with_recorder (mgr_rec m) room_opened (recorders m)" "mgr_rec m' = mgr_rec m"
  using assms
  by (auto simp: get_or_create_with_capacity_def manager_get_def entry_or_insert_def Let_def report_def
      split: option.splits)

lemma manager_remove_simps:
  assumes "manager_remove rid m = (m', r)"
  shows "heap m' = heap m" "rooms m' = DAList.delete rid (rooms m)" "r = manager_get rid m"
    "mgr_rec m' = mgr_rec m"
  using assms by (auto simp: manager_remove_def manager_get_def Let_def split: if_splits)

context frame_channel
begin

lemma fresh_room_empty:
  "room_with_stats ch rid capacity stats = Some r \<Longrightarrow> participant_count r = 0 \<and> room_is_empty ch r"
  by (auto simp: room_with_stats_def participant_count_def room_is_empty_def count_live
      new_live split: option.splits)

end

sublocale frame_channel \<subseteq> mgr: room_registry "manager_registry ch" manager_ok mgr_members "mgr_idle ch"
proof (unfold_locales, goal_cases)
  case (6 s rid s' a q)
  then show ?case
    by (auto simp: manager_registry_def get_or_create_def manager_get_def lookup_update
        elim!: get_or_create_cases)
next
  case (7 s rid s' a)
  then show ?case
    by (auto simp: manager_registry_def get_or_create_def manager_ok_lookup lookup_update
        elim!: get_or_create_cases split: if_splits)
      (metis less_SucI | metis less_irrefl_nat)+
next
  case (8 s rid s' a q)
  then show ?case
    by (auto simp: manager_registry_def get_or_create_def manager_ok_lookup manager_get_def
        mgr_members_def mgr_idle_def elim!: get_or_create_cases dest: fresh_room_empty)
next
  case (9 s rid s' a q b)
  then show ?case
    by (auto simp: manager_registry_def get_or_create_def manager_ok_lookup manager_get_def
        mgr_members_def mgr_idle_def nth_append elim!: get_or_create_cases)
next
  case (10 s rid s' r q)
  then have m: "manager_remove rid s = (s', r)"
    by (simp add: manager_registry_def)
  show ?case
    using manager_remove_simps [OF m] 10(1)
    by (auto simp: manager_registry_def manager_get_def manager_ok_lookup mgr_members_def mgr_idle_def
        lookup_delete fun_eq_iff)
next
  case (11 s s' n q)
  then have m: "remove_keys (map fst (filter (\<lambda>(k, a). mgr_idle ch s a) (entries (rooms s)))) s = (s', n)"
    by (simp add: manager_registry_def cleanup_def mgr_idle_def)
  show ?case
    using remove_selected [OF m] 11(1)
    by (simp add: manager_registry_def manager_get_def mgr_members_def mgr_idle_def fun_eq_iff)
next
  case (12 s s' n q)
  then have m: "remove_keys (map fst (filter (\<lambda>(k, a). mgr_members s a = 0) (entries (rooms s)))) s = (s', n)"
    by (simp add: manager_registry_def cleanup_empty_def mgr_members_def)
  show ?case
    using remove_selected [OF m] 12(1)
    by (simp add: manager_registry_def manager_get_def mgr_members_def mgr_idle_def fun_eq_iff)
qed (simp_all add: manager_registry_def room_ids_keys set_dict_keys dom_def room_count_def manager_get_def
    get_or_create_def get_or_create_with_capacity_def total_participants_sum mgr_members_def
    mgr_idle_def room_is_empty_iff)

context frame_channel
begin

lemma manager_registry_laws: "room_registry (manager_registry ch) manager_ok mgr_members (mgr_idle ch)"
  by (rule mgr.room_registry_axioms)

end

interpretation ref_manager: room_registry "manager_registry ref_channel" manager_ok mgr_members
    "mgr_idle ref_channel"
  by (rule ref_frames.mgr.room_registry_axioms)

section \<open>Sequences of operations, and the room gauge\<close>

text \<open>The operations of a node: those of the manager, and those of the rooms it handed out, by
  address. \<open>Close\<close> is a receiver going away, the one change the code does not make itself.\<close>

datatype room_op =
    GetOrCreate rstr
  | GetOrCreateWith rstr usize
  | Remove rstr
  | Cleanup
  | CleanupEmpty
  | JoinRoom nat u32 rstr
  | LeaveRoom nat u32
  | SubscribeRoom nat
  | BroadcastRoom nat frame
  | Close nat nat

definition on_room_at :: "nat \<Rightarrow> ('tx room \<Rightarrow> 'tx room) \<Rightarrow> 'tx manager \<Rightarrow> 'tx manager" where
  "on_room_at a f m = m\<lparr>heap := (heap m)[a := f (heap m ! a)]\<rparr>"

definition broadcast_at ::
  "'tx frame_channel \<Rightarrow> nat \<Rightarrow> frame \<Rightarrow> 'tx manager \<Rightarrow> 'tx manager \<times> nat res" where
  "broadcast_at ch a msg m =
     (case room_broadcast ch msg (heap m ! a) (recorders m) of
        (r, recs, res) \<Rightarrow> (m\<lparr>heap := (heap m)[a := r], recorders := recs\<rparr>, res))"

text \<open>A call that panics leaves the shared state as it was: both panics are in the constructor of the
  channel, before anything is stored.\<close>

fun room_step :: "'tx frame_channel \<Rightarrow> (nat \<Rightarrow> 'tx \<Rightarrow> 'tx) \<Rightarrow> room_op \<Rightarrow> 'tx manager \<Rightarrow> 'tx manager" where
  "room_step ch dr (GetOrCreate rid) m =
     (case get_or_create ch rid m of Some (m', _) \<Rightarrow> m' | None \<Rightarrow> m)"
| "room_step ch dr (GetOrCreateWith rid c) m =
     (case get_or_create_with_capacity ch rid c m of Some (m', _) \<Rightarrow> m' | None \<Rightarrow> m)"
| "room_step ch dr (Remove rid) m = fst (manager_remove rid m)"
| "room_step ch dr Cleanup m = fst (cleanup ch m)"
| "room_step ch dr CleanupEmpty m = fst (cleanup_empty m)"
| "room_step ch dr (JoinRoom a p name) m = on_room_at a (room_join p name) m"
| "room_step ch dr (LeaveRoom a p) m = on_room_at a (\<lambda>r. fst (room_leave p r)) m"
| "room_step ch dr (SubscribeRoom a) m = on_room_at a (\<lambda>r. fst (room_subscribe ch r)) m"
| "room_step ch dr (BroadcastRoom a msg) m = fst (broadcast_at ch a msg m)"
| "room_step ch dr (Close a rx) m = on_room_at a (\<lambda>r. r\<lparr>room_tx := dr rx (room_tx r)\<rparr>) m"

text \<open>The gauge of the manager's recorder against the number of rooms.\<close>

definition gauge :: "'tx manager \<Rightarrow> u64" where
  "gauge m = (case mgr_rec m of None \<Rightarrow> 0 | Some i \<Rightarrow> g_rooms (globals (recorders m ! i)))"

definition has_recorder :: "'tx manager \<Rightarrow> bool" where
  "has_recorder m \<longleftrightarrow> (case mgr_rec m of None \<Rightarrow> False | Some i \<Rightarrow> i < length (recorders m))"

definition gauge_ok :: "'tx manager \<Rightarrow> bool" where
  "gauge_ok m \<longleftrightarrow> has_recorder m \<and> unat (gauge m) = room_count m"

lemma gauge_report:
  "has_recorder m \<Longrightarrow> gauge (report room_opened m) = gauge m + 1"
  "has_recorder m \<Longrightarrow> gauge (report room_closed m) = saturating_dec (gauge m)"
  by (auto simp: gauge_def report_def with_recorder_def has_recorder_def room_opened_def
      room_closed_def split: option.splits)

lemma has_recorder_report [simp]: "has_recorder (report f m) = has_recorder m"
  by (simp add: has_recorder_def report_def split: option.split)

lemma has_recorder_pow [simp]: "has_recorder ((report f ^^ n) m) = has_recorder m"
  by (induction n) simp_all

lemma unat_saturating_dec: "unat (saturating_dec v) = unat v - 1"
  by (simp add: saturating_dec_def unat_pred)

lemma gauge_closed_pow:
  "has_recorder m \<Longrightarrow> unat (gauge ((report room_closed ^^ n) m)) = unat (gauge m) - n"
  by (induction n) (simp_all add: gauge_report unat_saturating_dec)

lemma gauge_of_rooms [simp]:
  "gauge (m\<lparr>rooms := d\<rparr>) = gauge m" "has_recorder (m\<lparr>rooms := d\<rparr>) = has_recorder m"
  by (simp_all add: has_recorder_def gauge_def split: option.split)

lemma gauge_remove_keys:
  "has_recorder (fst (remove_keys ks m)) = has_recorder m"
  "has_recorder m \<Longrightarrow> unat (gauge (fst (remove_keys ks m))) = unat (gauge m) - length ks"
  using gauge_closed_pow [of "m\<lparr>rooms := delete_all ks (rooms m)\<rparr>" "length ks"]
  by (auto simp: remove_keys_def Let_def)

lemma with_recorder_nth:
  "(\<And>s. P (f s) = P s) \<Longrightarrow> P (with_recorder st f recs ! i) = P (recs ! i)"
  by (cases st; cases "the st = i"; cases "i < length recs")
    (auto simp: with_recorder_def list_update_beyond)

lemma gauge_with_recorder:
  assumes "\<And>s. g_rooms (globals (f s)) = g_rooms (globals s)"
  shows "gauge (m\<lparr>heap := h, recorders := with_recorder st f (recorders m)\<rparr>) = gauge m"
    "has_recorder (m\<lparr>heap := h, recorders := with_recorder st f (recorders m)\<rparr>) = has_recorder m"
  using with_recorder_nth [of "\<lambda>s. g_rooms (globals s)", OF assms]
  by (simp_all add: gauge_def has_recorder_def split: option.split)

lemma record_keeps_rooms:
  "g_rooms (globals (record_room_drop r s)) = g_rooms (globals s)"
  "g_rooms (globals (record_room_message_out r k n s)) = g_rooms (globals s)"
  by (simp_all add: record_room_drop_def record_drop_def record_room_message_out_def
      record_message_out_def Let_def)

lemma broadcast_at_gauge:
  "gauge (fst (broadcast_at ch a msg m)) = gauge m"
  "has_recorder (fst (broadcast_at ch a msg m)) = has_recorder m"
  "rooms (fst (broadcast_at ch a msg m)) = rooms m"
  by (auto simp: broadcast_at_def room_broadcast_def room_record_drop_def gauge_with_recorder
      record_keeps_rooms split: prod.splits option.splits)

lemma gauge_on_room_at:
  "gauge (on_room_at a f m) = gauge m" "has_recorder (on_room_at a f m) = has_recorder m"
  "rooms (on_room_at a f m) = rooms m"
  by (simp_all add: on_room_at_def gauge_def has_recorder_def split: option.split)

lemma gauge_removed:
  assumes "gauge_ok m" "remove_keys (map fst (filter (\<lambda>(k, a). P a) (entries (rooms m)))) m = (m', n)"
  shows "gauge_ok m' \<and> room_count m' \<le> room_count m"
proof -
  let ?ks = "map fst (filter (\<lambda>(k, a). P a) (entries (rooms m)))"
  have "has_recorder m'" "unat (gauge m') = unat (gauge m) - length ?ks" "n = length ?ks"
    using gauge_remove_keys [where m = m and ks = ?ks] remove_keys_simps(4) [of ?ks m] assms(1)
    unfolding assms(2) by (simp_all add: gauge_ok_def)
  then show ?thesis
    using remove_selected(4) [OF assms(2)] assms(1) by (simp add: gauge_ok_def)
qed

lemma gauge_created:
  assumes "gauge_ok m" "room_count m + 1 < 2 ^ 64"
    and "get_or_create_with_capacity ch rid c m = Some (m', a)"
  shows "gauge_ok m' \<and> room_count m' \<le> room_count m + 1"
  using assms(3)
proof (cases rule: get_or_create_cases)
  case present
  then show ?thesis using assms(1) by simp
next
  case (created r)
  have "has_recorder m' = has_recorder (report room_opened m)" "gauge m' = gauge (report room_opened m)"
    using created by (simp_all add: has_recorder_def gauge_def report_def split: option.split)
  then have g: "has_recorder m'" "gauge m' = gauge m + 1"
    using assms(1) by (simp_all add: gauge_ok_def gauge_report)
  have "unat (gauge m + 1) = unat (gauge m) + 1"
    using assms(1,2) by (simp add: gauge_ok_def unat_word_ariths)
  moreover have "room_count m' = room_count m + 1"
    using created by (simp add: room_count_def dict_len_update manager_get_def)
  ultimately show ?thesis
    using g assms(1) by (simp add: gauge_ok_def)
qed

lemma gauge_remove:
  assumes "gauge_ok m"
  shows "gauge_ok (fst (manager_remove rid m)) \<and> room_count (fst (manager_remove rid m)) \<le> room_count m"
proof -
  let ?m = "m\<lparr>rooms := DAList.delete rid (rooms m)\<rparr>"
  have m: "has_recorder ?m" "gauge ?m = gauge m"
    using assms by (simp_all add: gauge_ok_def)
  show ?thesis
  proof (cases "DAList.lookup (rooms m) rid")
    case None
    with m assms show ?thesis
      by (simp add: manager_remove_def gauge_ok_def room_count_def dict_len_delete)
  next
    case (Some a)
    with m assms show ?thesis
      by (simp add: manager_remove_def gauge_ok_def room_count_def dict_len_delete gauge_report
          unat_saturating_dec)
  qed
qed

lemma gauge_step:
  assumes "gauge_ok m" "room_count m + 1 < 2 ^ 64"
  shows "gauge_ok (room_step ch dr op m) \<and> room_count (room_step ch dr op m) \<le> room_count m + 1"
proof (cases op)
  case (GetOrCreate rid)
  with assms show ?thesis
    by (auto simp: get_or_create_def split: option.split dest: gauge_created)
next
  case (GetOrCreateWith rid c)
  with assms show ?thesis
    by (auto split: option.split dest: gauge_created)
next
  case (Remove rid)
  with gauge_remove [OF assms(1), of rid] show ?thesis by simp
next
  case Cleanup
  with gauge_removed [OF assms(1), of "\<lambda>a. room_is_empty ch (heap m ! a)"] show ?thesis
    by (cases "cleanup ch m") (fastforce simp: cleanup_def)
next
  case CleanupEmpty
  with gauge_removed [OF assms(1), of "\<lambda>a. participant_count (heap m ! a) = 0"] show ?thesis
    by (cases "cleanup_empty m") (fastforce simp: cleanup_empty_def)
qed (use assms in \<open>simp_all add: gauge_ok_def room_count_def gauge_on_room_at broadcast_at_gauge\<close>)

lemma gauge_steps:
  "gauge_ok m \<Longrightarrow> room_count m + length ops < 2 ^ 64 \<Longrightarrow> gauge_ok (fold (room_step ch dr) ops m)"
proof (induction ops arbitrary: m)
  case (Cons op ops)
  with gauge_step [of m ch dr op] show ?case by simp
qed simp

section \<open>Properties\<close>

text \<open>C21 With one caller at a time, the room gauge of the manager's recorder is the number of rooms
  after every sequence of manager and room operations, panicking calls and broadcasts that record
  into the same recorder included.\<close>

theorem room_gauge_is_room_count:
  fixes ch :: "'tx frame_channel"
  assumes "g_rooms (globals s) = 0" "length ops < 2 ^ 64"
  shows "unat (gauge (fold (room_step ch dr) ops (manager_with_stats config s))) =
    room_count (fold (room_step ch dr) ops (manager_with_stats config s))"
proof -
  have "room_count (manager_with_stats config s :: 'tx manager) = 0"
    by (simp add: room_count_def manager_with_stats_def)
  moreover from this have "gauge_ok (manager_with_stats config s :: 'tx manager)"
    using assms(1) by (simp add: gauge_ok_def has_recorder_def gauge_def manager_with_stats_def)
  ultimately have "gauge_ok (fold (room_step ch dr) ops (manager_with_stats config s))"
    using assms(2) by (intro gauge_steps) simp_all
  then show ?thesis
    by (simp add: gauge_ok_def)
qed

theorem room_gauge_is_room_count_witness:
  "unat (gauge (fold (room_step ref_channel ref_drop)
      [GetOrCreate (lit ''a''), GetOrCreate (lit ''b''), BroadcastRoom 0 (Text (lit ''x'')),
       Remove (lit ''a''), Cleanup] (manager_with_stats config_default stats_new))) =
   room_count (fold (room_step ref_channel ref_drop)
      [GetOrCreate (lit ''a''), GetOrCreate (lit ''b''), BroadcastRoom 0 (Text (lit ''x'')),
       Remove (lit ''a''), Cleanup] (manager_with_stats config_default stats_new))"
  by (rule room_gauge_is_room_count) (simp_all add: stats_new_def globals_default_def)

text \<open>\<open>get_or_create\<close> returns the room of that id if there is one, and changes nothing then;
  otherwise it stores a new room without participants and receivers at an address that no other id
  has. Either way a second call returns the same room, and no other room is touched.\<close>

lemma get_or_create_room:
  assumes "frame_channel ch live inbox drop_rx" "manager_ok m"
    and "get_or_create ch rid m = Some (m', a)"
  shows "manager_get q m' = (if q = rid then Some a else manager_get q m) \<and>
    get_or_create ch rid m' = Some (m', a) \<and>
    (if manager_get rid m = None
     then participant_count (heap m' ! a) = 0 \<and> room_is_empty ch (heap m' ! a) \<and> manager_get q m \<noteq> Some a
     else m' = m) \<and>
    take (length (heap m)) (heap m') = heap m"
proof -
  have R: "reg_get_or_create (manager_registry ch) = get_or_create ch" "reg_get (manager_registry ch) = manager_get"
    by (simp_all add: manager_registry_def)
  note laws = frame_channel.manager_registry_laws [OF assms(1)]
  note law = room_registry.create_get [OF laws, unfolded R, OF assms(2,3), of q]
    room_registry.create_twice [OF laws, unfolded R, OF assms(2,3)]
    room_registry.create_fresh [OF laws, unfolded R, OF assms(2) _ assms(3), of q]
  have "manager_get rid m \<noteq> None \<longrightarrow> m' = m" "take (length (heap m)) (heap m') = heap m"
    using assms(3) by (auto simp: get_or_create_def elim: get_or_create_cases)
  with law show ?thesis
    by (simp add: mgr_members_def mgr_idle_def)
qed

lemma get_or_create_room_witness:
  "\<exists>m a. get_or_create ref_channel (lit ''a'') manager_new = Some (m, a) \<and>
     get_or_create ref_channel (lit ''a'') m = Some (m, a) \<and> participant_count (heap m ! a) = 0"
proof -
  have ok: "manager_ok (manager_new :: frame ref_tx manager)"
    by (simp add: manager_ok_lookup manager_new_def)
  obtain m a where new: "get_or_create ref_channel (lit ''a'') manager_new = Some (m, a)"
    by (simp add: get_or_create_def get_or_create_with_capacity_def manager_new_def
        room_with_stats_def ref_channel_def ref_new_def default_capacity_ok entry_or_insert_def
        report_def with_recorder_def)
  from get_or_create_room [OF ref_frames.frame_channel_axioms ok new, of "lit ''a''"] new
  show ?thesis
    by (intro exI [of _ m] exI [of _ a]) (simp add: manager_get_def manager_new_def)
qed

text \<open>C31 \<open>cleanup\<close> removes exactly the rooms that have neither participants nor receivers and returns
  their number; no participant is lost, and a second clean-up finds nothing.\<close>

theorem cleanup_exact:
  fixes ch :: "'tx frame_channel" and m :: "'tx manager"
  assumes "frame_channel ch live inbox drop_rx" "manager_ok m" "cleanup ch m = (m', n)"
  shows "manager_get q m' =
      (case manager_get q m of
         Some a \<Rightarrow> if room_is_empty ch (heap m ! a) then None else Some a | None \<Rightarrow> None) \<and>
    room_count m' + n = room_count m \<and> total_participants m' = total_participants m \<and>
    snd (cleanup ch m') = 0"
proof -
  have R: "reg_cleanup (manager_registry ch) = cleanup ch" "reg_get (manager_registry ch) = manager_get"
    "reg_room_count (manager_registry ch) = room_count"
    "reg_total_participants (manager_registry ch) = total_participants"
    by (simp_all add: manager_registry_def)
  note laws = frame_channel.manager_registry_laws [OF assms(1)]
  show ?thesis
    using room_registry.cleanup_get [OF laws, unfolded R, OF assms(2,3), of q]
      room_registry.cleanup_total [OF laws, unfolded R, OF assms(2,3)]
      room_registry.cleanup_twice [OF laws, unfolded R, OF assms(2,3) prod.collapse [symmetric]]
    by (simp add: mgr_idle_def split: option.split)
qed

text \<open>Two rooms for the witnesses: \<open>a\<close> has nothing, \<open>b\<close> has a receiver and no participant.\<close>

definition two_rooms :: "frame ref_tx manager" where
  "two_rooms = \<lparr> rooms = DAList.update (lit ''b'') 1 (DAList.update (lit ''a'') 0 DAList.empty),
     default_capacity = 16, mgr_rec = None,
     heap = [\<lparr> room_id = lit ''a'', room_tx = \<lparr> next_rx = 0, rx_queues = [] \<rparr>,
                participants = DAList.empty, room_rec = None \<rparr>,
             \<lparr> room_id = lit ''b'', room_tx = \<lparr> next_rx = 1, rx_queues = [(0, [])] \<rparr>,
                participants = DAList.empty, room_rec = None \<rparr>],
     recorders = [] \<rparr>"

lemma two_rooms_ok: "manager_ok two_rooms"
  by (auto simp: two_rooms_def manager_ok_lookup lookup_update split: if_splits)

theorem cleanup_exact_witness:
  "manager_get (lit ''a'') (fst (cleanup ref_channel two_rooms)) = None \<and>
   manager_get (lit ''b'') (fst (cleanup ref_channel two_rooms)) = Some 1"
  by (intro conjI; rule cleanup_exact [OF ref_frames.frame_channel_axioms two_rooms_ok prod.collapse [symmetric],
        THEN conjunct1, THEN trans])
    (simp_all add: two_rooms_def manager_get_def lookup_update uchr_inject room_is_empty_def
      ref_channel_def ref_count_def)

text \<open>\<open>cleanup_empty\<close> removes exactly the rooms without participants, whether or not they still have
  receivers, and returns their number; no participant is lost.\<close>

lemma cleanup_empty_exact:
  fixes ch :: "'tx frame_channel" and m :: "'tx manager"
  assumes "frame_channel ch live inbox drop_rx" "manager_ok m" "cleanup_empty m = (m', n)"
  shows "manager_get q m' =
      (case manager_get q m of
         Some a \<Rightarrow> if participant_count (heap m ! a) = 0 then None else Some a | None \<Rightarrow> None) \<and>
    room_count m' + n = room_count m \<and> total_participants m' = total_participants m"
proof -
  have R: "reg_cleanup_empty (manager_registry ch) = cleanup_empty" "reg_get (manager_registry ch) = manager_get"
    "reg_room_count (manager_registry ch) = room_count"
    "reg_total_participants (manager_registry ch) = total_participants"
    by (simp_all add: manager_registry_def)
  note laws = frame_channel.manager_registry_laws [OF assms(1)]
  show ?thesis
    using room_registry.cleanup_empty_get [OF laws, unfolded R, OF assms(2,3), of q]
      room_registry.cleanup_empty_total [OF laws, unfolded R, OF assms(2,3)]
    by (simp add: mgr_members_def split: option.split)
qed

lemma cleanup_empty_exact_witness:
  "manager_get (lit ''a'') (fst (cleanup_empty two_rooms)) = None \<and>
   manager_get (lit ''b'') (fst (cleanup_empty two_rooms)) = None"
  by (intro conjI; rule cleanup_empty_exact [OF ref_frames.frame_channel_axioms two_rooms_ok prod.collapse [symmetric],
        THEN conjunct1, THEN trans])
    (simp_all add: two_rooms_def manager_get_def lookup_update uchr_inject participant_count_def)

end
