(* ===== verification/Manager_Invariant.thy ===== *)
theory Manager_Invariant
  imports Room_Manager
begin

text \<open>
  \<open>src/room.rs\<close>: what every operation of the manager and of its rooms keeps. \<open>manager_ok\<close> is what
  the trait contract needs: valid and different addresses. \<open>manager_typed\<close> is the stronger shape the
  constructors establish: a room is stored under its own id and reports to the manager's recorder.
\<close>

definition manager_typed :: "'tx manager \<Rightarrow> bool" where
  "manager_typed m \<longleftrightarrow>
     list_all (\<lambda>(k, a). a < length (heap m) \<and> room_id (heap m ! a) = k) (entries (rooms m)) \<and>
     list_all (\<lambda>r. room_rec r = mgr_rec m) (heap m) \<and>
     (case mgr_rec m of None \<Rightarrow> recorders m = [] | Some i \<Rightarrow> i < length (recorders m))"

lemma manager_typed_iff:
  "manager_typed m \<longleftrightarrow>
     (\<forall>k a. manager_get k m = Some a \<longrightarrow> a < length (heap m) \<and> room_id (heap m ! a) = k) \<and>
     (\<forall>r\<in>set (heap m). room_rec r = mgr_rec m) \<and>
     (case mgr_rec m of None \<Rightarrow> recorders m = [] | Some i \<Rightarrow> i < length (recorders m))"
  by (auto simp: manager_typed_def list_all_iff manager_get_def simp flip: in_entries_iff)

lemma typed_ok: "manager_typed m \<Longrightarrow> manager_ok m"
  unfolding manager_typed_iff manager_ok_lookup manager_get_def by blast

lemma typed_constructors:
  "manager_typed manager_new" "manager_typed (manager_with_config config)"
  "manager_typed (manager_with_stats config s)"
  by (simp_all add: manager_typed_def manager_new_def manager_with_config_def manager_with_stats_def
      DAList.empty.rep_eq)

section \<open>Changing rooms\<close>

lemma length_report [simp]: "length (recorders (report f m)) = length (recorders m)"
  by (simp add: report_def)

lemma length_report_pow [simp]: "length (recorders ((report f ^^ n) m)) = length (recorders m)"
  by (induction n) simp_all

lemma recorders_cong:
  "length xs = length ys \<Longrightarrow>
   (case st of None \<Rightarrow> xs = [] | Some i \<Rightarrow> i < length xs) \<longleftrightarrow> (case st of None \<Rightarrow> ys = [] | Some i \<Rightarrow> i < length ys)"
  by (auto split: option.split)

text \<open>One rule for every operation: the dictionary only loses entries or gets a new one, the store only
  changes a room's contents or grows.\<close>

lemma typed_change:
  assumes "manager_typed m" "mgr_rec m' = mgr_rec m" "length (recorders m') = length (recorders m)"
    and "\<And>k a. manager_get k m' = Some a \<Longrightarrow>
      manager_get k m = Some a \<or> (a < length (heap m') \<and> room_id (heap m' ! a) = k)"
    and "length (heap m) \<le> length (heap m')"
    and "\<And>a. a < length (heap m) \<Longrightarrow> room_id (heap m' ! a) = room_id (heap m ! a)"
    and "\<And>r. r \<in> set (heap m') \<Longrightarrow> room_rec r = mgr_rec m"
  shows "manager_typed m'"
  using assms(1,4-7) recorders_cong [OF assms(3), of "mgr_rec m"]
  unfolding manager_typed_iff assms(2) by (metis order_less_le_trans)

lemma typed_on_room_at:
  assumes "manager_typed m" "\<And>r. room_id (f r) = room_id r" "\<And>r. room_rec (f r) = room_rec r"
  shows "manager_typed (on_room_at a f m)"
proof (cases "a < length (heap m)")
  case True
  show ?thesis
  proof (rule typed_change [OF assms(1)])
    fix r assume "r \<in> set (heap (on_room_at a f m))"
    then have "r \<in> insert (f (heap m ! a)) (set (heap m))"
      using set_update_subset_insert by (fastforce simp: on_room_at_def)
    with assms True show "room_rec r = mgr_rec m"
      by (auto simp: manager_typed_iff)
  qed (use assms(2) True in \<open>auto simp: on_room_at_def manager_get_def nth_list_update\<close>)
next
  case False
  then have "on_room_at a f m = m" by (simp add: on_room_at_def list_update_beyond)
  with assms(1) show ?thesis by simp
qed

lemma typed_broadcast:
  assumes "manager_typed m"
  shows "manager_typed (fst (broadcast_at ch a msg m))"
proof -
  obtain r recs res where b: "room_broadcast ch msg (heap m ! a) (recorders m) = (r, recs, res)"
    by (metis prod_cases3)
  note keep = room_broadcast_keeps [OF b]
  show ?thesis
  proof (cases "a < length (heap m)")
    case True
    show ?thesis
    proof (rule typed_change [OF assms])
      fix r' assume "r' \<in> set (heap (fst (broadcast_at ch a msg m)))"
      then have "r' \<in> insert r (set (heap m))"
        using set_update_subset_insert by (fastforce simp: broadcast_at_def b)
      with assms keep True show "room_rec r' = mgr_rec m"
        by (auto simp: manager_typed_iff)
    qed (use keep True in \<open>auto simp: broadcast_at_def b manager_get_def nth_list_update\<close>)
  next
    case False
    then show ?thesis
      using assms keep by (auto simp: broadcast_at_def b manager_typed_def list_update_beyond
          split: option.splits)
  qed
qed

lemma typed_created:
  assumes "manager_typed m" "get_or_create_with_capacity ch q c m = Some (m', b)"
  shows "manager_typed m'"
  using assms(2)
proof (cases rule: get_or_create_cases)
  case (created r)
  have r: "room_id r = q" "room_rec r = mgr_rec m"
    using created(2) by (auto simp: room_with_stats_def split: option.splits)
  show ?thesis
    by (rule typed_change [OF assms(1)])
      (use created r assms(1) in \<open>auto simp: manager_get_def lookup_update nth_append manager_typed_iff
          split: if_splits\<close>)
qed (use assms(1) in simp)

lemma typed_remove_keys: "manager_typed m \<Longrightarrow> manager_typed (fst (remove_keys ks m))"
  by (rule typed_change [where m = m])
    (auto simp: manager_get_def manager_typed_iff remove_keys_def Let_def split: if_splits)

lemma typed_remove: "manager_typed m \<Longrightarrow> manager_typed (fst (manager_remove q m))"
  by (rule typed_change [where m = m])
    (auto simp: manager_remove_def manager_get_def lookup_delete Let_def manager_typed_iff split: if_splits)

lemma typed_step:
  assumes "manager_typed m"
  shows "manager_typed (room_step ch dr op m)"
proof (cases op)
  case (GetOrCreate q)
  with assms show ?thesis by (auto simp: get_or_create_def intro: typed_created split: option.split)
next
  case (GetOrCreateWith q c)
  with assms show ?thesis by (auto intro: typed_created split: option.split)
next
  case (SubscribeRoom a)
  with assms show ?thesis
    by (auto intro!: typed_on_room_at simp: room_subscribe_def split: prod.split)
qed (use assms in \<open>auto intro!: typed_on_room_at typed_broadcast typed_remove typed_remove_keys
      simp: cleanup_def cleanup_empty_def room_join_def room_leave_def\<close>)

lemma typed_steps: "manager_typed m \<Longrightarrow> manager_typed (fold (room_step ch dr) ops m)"
  by (induction ops arbitrary: m) (simp_all add: typed_step)

section \<open>The weaker invariant\<close>

lemma ok_change:
  assumes "manager_ok m" "rooms m' = rooms m" "length (heap m') = length (heap m)"
  shows "manager_ok m'"
  using assms by (simp add: manager_ok_def)

lemma ok_created:
  assumes "manager_ok m" "get_or_create_with_capacity ch q c m = Some (m', b)"
  shows "manager_ok m'"
  using assms
  by (auto simp: manager_ok_lookup lookup_update elim!: get_or_create_cases split: if_splits)
    (metis less_SucI | metis less_irrefl_nat)+

lemma ok_step [wf_intros]:
  assumes "manager_ok m"
  shows "manager_ok (room_step ch dr op m)"
proof (cases op)
  case (GetOrCreate q)
  with assms show ?thesis by (auto simp: get_or_create_def intro: ok_created split: option.split)
next
  case (GetOrCreateWith q c)
  with assms show ?thesis by (auto intro: ok_created split: option.split)
next
  case (Remove q)
  with assms show ?thesis
    by (auto simp: manager_ok_lookup manager_remove_def lookup_delete Let_def split: if_splits)
next
  case Cleanup
  with assms show ?thesis by (auto simp: cleanup_def manager_ok_lookup split: if_splits)
next
  case CleanupEmpty
  with assms show ?thesis by (auto simp: cleanup_empty_def manager_ok_lookup split: if_splits)
next
  case (BroadcastRoom a msg)
  with assms show ?thesis
    by (auto intro: ok_change simp: broadcast_at_def split: prod.split)
qed (use assms in \<open>auto intro: ok_change simp: on_room_at_def\<close>)

section \<open>Properties\<close>

text \<open>C22 The rooms a manager hands out are its own: starting from any constructor, after every sequence
  of manager and room operations, the room found under an id exists, carries that id and reports to
  the manager's recorder, and no other id leads to it.\<close>

theorem rooms_well_typed:
  assumes "m = manager_new \<or> m = manager_with_config config \<or> m = manager_with_stats config s"
    and "w = fold (room_step ch dr) ops m" "manager_get rid w = Some a"
  shows "a < length (heap w) \<and> room_id (heap w ! a) = rid \<and> room_rec (heap w ! a) = mgr_rec w \<and>
    (\<forall>q. manager_get q w = Some a \<longrightarrow> q = rid)"
proof -
  have "manager_typed w"
    using assms(1) unfolding assms(2) by (auto intro: typed_steps typed_constructors)
  with assms(3) show ?thesis
    unfolding manager_typed_iff by (metis nth_mem)
qed

theorem rooms_well_typed_witness:
  "room_id (heap (fold (room_step ref_channel ref_drop)
      [GetOrCreate (lit ''a''), GetOrCreate (lit ''b''), Remove (lit ''a''), BroadcastRoom 1 (Text [])]
      (manager_with_stats config_default stats_new)) ! 1) = lit ''b''"
proof -
  have "manager_get (lit ''b'') (fold (room_step ref_channel ref_drop)
      [GetOrCreate (lit ''a''), GetOrCreate (lit ''b''), Remove (lit ''a''), BroadcastRoom 1 (Text [])]
      (manager_with_stats config_default stats_new)) = Some 1"
    by code_simp
  from rooms_well_typed [OF disjI2 [OF disjI2 [OF refl]] refl this] show ?thesis by blast
qed

end
