(* ===== verification/Creation_Races.thy ===== *)
theory Creation_Races
  imports Room_Manager
begin

text \<open>
  \<open>src/room.rs\<close>: \<open>get_or_create\<close> and \<open>remove\<close> among concurrent callers, one step per access of the
  shared dictionary or recorder. All callers that create one room get the same one; the room gauge
  drifts by the creators that lost the race.
\<close>

section \<open>Concurrent creation and removal\<close>

text \<open>
  \<open>get_or_create\<close> and \<open>remove\<close> are not atomic: each line of the code that touches shared state is
  one step of \<open>racer_step\<close> (a DashMap operation holds its shard lock, so it is one step). The
  sequential definitions above are the steps run without interruption. \<open>lost\<close> counts the
  creators that found their entry taken when they came to insert.
\<close>

datatype racer =
    CreateStart rstr
  | CreateMissed rstr        \<comment> \<open>the lookup found nothing\<close>
  | CreateOpened rstr nat    \<comment> \<open>the room is built and \<open>room_opened\<close> reported\<close>
  | RemoveStart rstr
  | RemoveTaken nat          \<comment> \<open>the entry is removed, \<open>room_closed\<close> not yet reported\<close>
  | Finished "nat option"    \<comment> \<open>what the call returned, or \<open>None\<close> for nothing and for a panic\<close>

fun racer_step ::
  "'tx frame_channel \<Rightarrow> racer \<Rightarrow> 'tx manager \<Rightarrow> ('tx manager \<times> racer) option" where
  "racer_step ch (CreateStart rid) m =
     Some (m, case manager_get rid m of Some a \<Rightarrow> Finished (Some a) | None \<Rightarrow> CreateMissed rid)"
| "racer_step ch (CreateMissed rid) m =
     (case room_with_stats ch rid (default_capacity m) (mgr_rec m) of
        None \<Rightarrow> Some (m, Finished None)
      | Some r \<Rightarrow>
          Some (report room_opened (m\<lparr>heap := heap m @ [r]\<rparr>), CreateOpened rid (length (heap m))))"
| "racer_step ch (CreateOpened rid a) m = (case entry_or_insert rid a m of (m, b) \<Rightarrow> Some (m, Finished (Some b)))"
| "racer_step ch (RemoveStart rid) m =
     (case manager_get rid m of
        None \<Rightarrow> Some (m, Finished None)
      | Some a \<Rightarrow> Some (m\<lparr>rooms := DAList.delete rid (rooms m)\<rparr>, RemoveTaken a))"
| "racer_step ch (RemoveTaken a) m = Some (report room_closed m, Finished (Some a))"
| "racer_step ch (Finished r) m = None"

record 'tx race =
  race_mgr :: "'tx manager"
  racers :: "racer list"
  lost :: nat

definition loses :: "racer \<Rightarrow> 'tx manager \<Rightarrow> bool" where
  "loses t m = (case t of CreateOpened rid a \<Rightarrow> manager_get rid m \<noteq> None | _ \<Rightarrow> False)"

definition race_step :: "'tx frame_channel \<Rightarrow> nat \<Rightarrow> 'tx race \<Rightarrow> 'tx race" where
  "race_step ch i w =
     (if i < length (racers w) then
        case racer_step ch (racers w ! i) (race_mgr w) of
          None \<Rightarrow> w
        | Some (m, t) \<Rightarrow>
            \<lparr> race_mgr = m, racers = (racers w)[i := t],
              lost = lost w + (if loses (racers w ! i) (race_mgr w) then 1 else 0) \<rparr>
      else w)"

inductive race_reachable :: "'tx frame_channel \<Rightarrow> 'tx race \<Rightarrow> 'tx race \<Rightarrow> bool" for ch w where
  init: "race_reachable ch w w"
| step: "race_reachable ch w v \<Longrightarrow> race_reachable ch w (race_step ch i v)"

lemma race_schedule: "race_reachable ch w (fold (race_step ch) sched w)"
proof -
  have "race_reachable ch w v \<Longrightarrow> race_reachable ch w (fold (race_step ch) sched v)" for v
    by (induction sched arbitrary: v) (simp_all add: race_reachable.step)
  then show ?thesis by (simp add: race_reachable.init)
qed

text \<open>The sequential operations are the steps of one racer.\<close>

lemma create_is_steps:
  assumes "get_or_create ch rid m = Some (m', a)" "manager_get rid m = None"
  shows "\<exists>m1 b. racer_step ch (CreateStart rid) m = Some (m, CreateMissed rid) \<and>
    racer_step ch (CreateMissed rid) m = Some (m1, CreateOpened rid b) \<and>
    racer_step ch (CreateOpened rid b) m1 = Some (m', Finished (Some a))"
  using assms
  by (auto simp: get_or_create_def get_or_create_with_capacity_def manager_get_def Let_def
      split: option.splits)

lemma remove_is_steps:
  assumes "manager_remove rid m = (m', Some a)"
  shows "\<exists>m1. racer_step ch (RemoveStart rid) m = Some (m1, RemoveTaken a) \<and>
    racer_step ch (RemoveTaken a) m1 = Some (m', Finished (Some a))"
  using assms by (auto simp: manager_remove_def manager_get_def Let_def split: if_splits)

text \<open>What a racer has reported without having changed the dictionary, or the other way round.\<close>

primrec surplus :: "racer \<Rightarrow> nat" where
  "surplus (CreateStart _) = 0"
| "surplus (CreateMissed _) = 0"
| "surplus (CreateOpened _ _) = 1"
| "surplus (RemoveStart _) = 0"
| "surplus (RemoveTaken _) = 1"
| "surplus (Finished _) = 0"

primrec to_open :: "racer \<Rightarrow> nat" where
  "to_open (CreateStart _) = 1"
| "to_open (CreateMissed _) = 1"
| "to_open (CreateOpened _ _) = 0"
| "to_open (RemoveStart _) = 0"
| "to_open (RemoveTaken _) = 0"
| "to_open (Finished _) = 0"

definition race_ok :: "'tx race \<Rightarrow> bool" where
  "race_ok w \<longleftrightarrow> has_recorder (race_mgr w) \<and>
     unat (gauge (race_mgr w)) = room_count (race_mgr w) + sum_list (map surplus (racers w)) + lost w \<and>
     unat (gauge (race_mgr w)) + sum_list (map to_open (racers w)) < 2 ^ 64"

lemma entry_or_insert_gauge:
  "has_recorder (fst (entry_or_insert rid a m)) = has_recorder m"
  "gauge (fst (entry_or_insert rid a m)) = gauge m"
  "room_count (fst (entry_or_insert rid a m)) =
     room_count m + (if manager_get rid m = None then 1 else 0)"
  by (auto simp: entry_or_insert_def room_count_def dict_len_update manager_get_def split: option.split)

lemma gauge_of_heap [simp]:
  "gauge (m\<lparr>heap := h\<rparr>) = gauge m" "has_recorder (m\<lparr>heap := h\<rparr>) = has_recorder m"
  by (simp_all add: has_recorder_def gauge_def split: option.split)

text \<open>One racer, against the rest of the world summed up in \<open>k\<close>.\<close>

lemma racer_step_ok:
  assumes "racer_step ch t m = Some (m', t')" "has_recorder m"
    and "unat (gauge m) = room_count m + surplus t + k" "unat (gauge m) + to_open t + j < 2 ^ 64"
  shows "has_recorder m' \<and>
    unat (gauge m') = room_count m' + surplus t' + k + (if loses t m then 1 else 0) \<and>
    unat (gauge m') + to_open t' + j < 2 ^ 64"
proof (cases t)
  case (CreateMissed rid)
  show ?thesis
  proof (cases "room_with_stats ch rid (default_capacity m) (mgr_rec m)")
    case None
    with CreateMissed assms show ?thesis by (auto simp: loses_def)
  next
    case (Some r)
    have "unat (gauge m + 1) = unat (gauge m) + 1"
      using assms(4) CreateMissed by (simp add: unat_word_ariths)
    with CreateMissed Some assms show ?thesis
      by (auto simp: loses_def gauge_report room_count_def)
  qed
next
  case (CreateOpened rid a)
  with assms entry_or_insert_gauge [of rid a m] show ?thesis
    by (cases "entry_or_insert rid a m") (auto simp: loses_def)
next
  case (RemoveStart rid)
  with assms show ?thesis
    by (auto simp: loses_def room_count_def dict_len_delete manager_get_def dict_len_pos split: option.splits)
next
  case (RemoveTaken a)
  with assms show ?thesis
    by (auto simp: loses_def gauge_report unat_saturating_dec room_count_def)
qed (use assms in \<open>auto simp: loses_def split: option.split\<close>)

lemma race_step_ok:
  assumes "race_ok w"
  shows "race_ok (race_step ch i w)"
proof (cases "i < length (racers w)")
  case True
  let ?t = "racers w ! i" and ?rest = "(racers w)[i := Finished None]"
  show ?thesis
  proof (cases "racer_step ch ?t (race_mgr w)")
    case (Some mt)
    obtain m t where mt: "mt = (m, t)" by (cases mt)
    note split = sum_list_update_add [OF True, of surplus "Finished None"]
      sum_list_update_add [OF True, of to_open "Finished None"]
      sum_list_update_add [OF True, of surplus t] sum_list_update_add [OF True, of to_open t]
    have "has_recorder m \<and>
        unat (gauge m) = room_count m + surplus t + (sum_list (map surplus ?rest) + lost w) +
          (if loses ?t (race_mgr w) then 1 else 0) \<and>
        unat (gauge m) + to_open t + sum_list (map to_open ?rest) < 2 ^ 64"
      by (rule racer_step_ok [OF Some [unfolded mt]]) (use assms split in \<open>simp_all add: race_ok_def\<close>)
    with split Some True mt show ?thesis
      by (simp add: race_ok_def race_step_def)
  qed (use assms in \<open>simp add: race_step_def\<close>)
qed (use assms in \<open>simp add: race_step_def\<close>)

lemma race_reachable_ok: "race_reachable ch w v \<Longrightarrow> race_ok w \<Longrightarrow> race_ok v"
  by (induction rule: race_reachable.induct) (simp_all add: race_step_ok)

primrec unstarted :: "racer \<Rightarrow> bool" where
  "unstarted (CreateStart _) = True"
| "unstarted (CreateMissed _) = False"
| "unstarted (CreateOpened _ _) = False"
| "unstarted (RemoveStart _) = True"
| "unstarted (RemoveTaken _) = False"
| "unstarted (Finished _) = False"

lemma unstarted_sums:
  "list_all unstarted ts \<Longrightarrow> sum_list (map surplus ts) = 0 \<and> sum_list (map to_open ts) \<le> length ts"
proof (induction ts)
  case (Cons t ts)
  then show ?case by (cases t) auto
qed simp

primrec finished :: "racer \<Rightarrow> bool" where
  "finished (CreateStart _) = False"
| "finished (CreateMissed _) = False"
| "finished (CreateOpened _ _) = False"
| "finished (RemoveStart _) = False"
| "finished (RemoveTaken _) = False"
| "finished (Finished _) = True"

lemma finished_no_surplus: "finished t \<Longrightarrow> surplus t = 0"
  by (cases t) simp_all

lemma finished_sums: "list_all finished ts \<Longrightarrow> sum_list (map surplus ts) = 0"
  by (induction ts) (auto simp: finished_no_surplus)

section \<open>Racing creators\<close>

text \<open>Without removers, what is in the dictionary stays, and a call that returned has the room that is
  there.\<close>

definition creator_ok :: "'tx manager \<Rightarrow> rstr \<Rightarrow> racer \<Rightarrow> bool" where
  "creator_ok m rid t \<longleftrightarrow>
     (case t of
        CreateStart q \<Rightarrow> q = rid
      | CreateMissed q \<Rightarrow> q = rid
      | CreateOpened q a \<Rightarrow> q = rid
      | Finished r \<Rightarrow> r \<noteq> None \<and> r = manager_get rid m
      | _ \<Rightarrow> False)"

definition extends :: "'tx manager \<Rightarrow> 'tx manager \<Rightarrow> bool" where
  "extends m m' \<longleftrightarrow> default_capacity m' = default_capacity m \<and>
     (\<forall>q a. manager_get q m = Some a \<longrightarrow> manager_get q m' = Some a)"

lemma creator_ok_mono: "creator_ok m rid t \<Longrightarrow> extends m m' \<Longrightarrow> creator_ok m' rid t"
  by (auto simp: creator_ok_def extends_def split: racer.splits)

lemma extends_trans: "extends m m' \<Longrightarrow> extends m' m'' \<Longrightarrow> extends m m''"
  by (simp add: extends_def)

lemma entry_or_insert_get:
  "manager_get q (fst (entry_or_insert rid a m)) =
     (if q = rid then Some (snd (entry_or_insert rid a m)) else manager_get q m)"
  "manager_get rid m = Some b \<Longrightarrow> snd (entry_or_insert rid a m) = b"
  "default_capacity (fst (entry_or_insert rid a m)) = default_capacity m"
  by (auto simp: entry_or_insert_def manager_get_def lookup_update split: option.split)

lemma creator_step:
  assumes "creator_ok m rid t" "racer_step ch t m = Some (m', t')" "ch_new ch (default_capacity m) \<noteq> None"
  shows "extends m m' \<and> creator_ok m' rid t'"
proof (cases t)
  case (CreateStart q)
  with assms show ?thesis by (auto simp: creator_ok_def extends_def split: option.splits)
next
  case (CreateMissed q)
  with assms show ?thesis
    by (auto simp: creator_ok_def extends_def room_with_stats_def manager_get_def split: option.splits)
next
  case (CreateOpened q a)
  with assms entry_or_insert_get(1) [of _ q a m] entry_or_insert_get(2) [of q m _ a] entry_or_insert_get(3) [of q a m] show ?thesis
    by (cases "entry_or_insert q a m") (auto simp: creator_ok_def extends_def)
qed (use assms in \<open>auto simp: creator_ok_def\<close>)

definition creators_ok :: "'tx manager \<Rightarrow> rstr list \<Rightarrow> 'tx race \<Rightarrow> bool" where
  "creators_ok m rids w \<longleftrightarrow> extends m (race_mgr w) \<and> list_all2 (creator_ok (race_mgr w)) rids (racers w)"

lemma creators_race_step:
  assumes "creators_ok m rids w" "ch_new ch (default_capacity m) \<noteq> None"
  shows "creators_ok m rids (race_step ch i w)"
proof (cases "i < length (racers w) \<and> racer_step ch (racers w ! i) (race_mgr w) \<noteq> None")
  case True
  then obtain m' t where s: "racer_step ch (racers w ! i) (race_mgr w) = Some (m', t)" by auto
  have "creator_ok (race_mgr w) (rids ! i) (racers w ! i)"
    using assms(1) True by (simp add: creators_ok_def list_all2_conv_all_nth)
  from creator_step [OF this s] assms have step: "extends (race_mgr w) m'" "creator_ok m' (rids ! i) t"
    by (simp_all add: creators_ok_def extends_def)
  have "creator_ok m' (rids ! j) ((racers w)[i := t] ! j)" if "j < length (racers w)" for j
    using step assms(1) that creator_ok_mono [OF _ step(1), of "rids ! j" "racers w ! j"]
    by (cases "j = i") (simp_all add: creators_ok_def list_all2_conv_all_nth)
  with True s step(1) assms(1) extends_trans [of m "race_mgr w" m'] show ?thesis
    by (simp add: race_step_def creators_ok_def list_all2_conv_all_nth)
next
  case False
  with assms(1) show ?thesis by (auto simp: race_step_def split: option.split)
qed

lemma creators_reachable:
  "race_reachable ch w v \<Longrightarrow> creators_ok m rids w \<Longrightarrow> ch_new ch (default_capacity m) \<noteq> None \<Longrightarrow>
   creators_ok m rids v"
  by (induction rule: race_reachable.induct) (simp_all add: creators_race_step)

section \<open>Properties\<close>

text \<open>C3 With concurrent callers the gauge is not the number of rooms: at every moment of every
  interleaving of creators and removers it exceeds it by the operations between their two updates
  plus the creators that lost the race for their entry. The latter are never given back, so once all
  calls have returned the gauge stays too high by the number of lost races.\<close>

theorem gauge_drifts_by_lost_races:
  assumes "gauge_ok m" "list_all unstarted ts" "room_count m + length ts < 2 ^ 64"
    and "race_reachable ch \<lparr> race_mgr = m, racers = ts, lost = 0 \<rparr> w"
  shows "unat (gauge (race_mgr w)) = room_count (race_mgr w) + sum_list (map surplus (racers w)) + lost w \<and>
    (list_all finished (racers w) \<longrightarrow>
       unat (gauge (race_mgr w)) = room_count (race_mgr w) + lost w)"
proof -
  have "race_ok \<lparr> race_mgr = m, racers = ts, lost = 0 \<rparr>"
    using assms(1,3) unstarted_sums [OF assms(2)] by (simp add: race_ok_def gauge_ok_def)
  then have "race_ok w"
    by (rule race_reachable_ok [OF assms(4)])
  then show ?thesis
    by (simp add: race_ok_def finished_sums)
qed

text \<open>Two creators of one room and a remover: the room is gone, the gauge says one.\<close>

theorem gauge_drifts_by_lost_races_witness:
  "(let w = fold (race_step ref_channel) [0, 1, 0, 1, 0, 1, 2, 2]
        \<lparr> race_mgr = manager_with_stats config_default stats_new,
          racers = [CreateStart (lit ''a''), CreateStart (lit ''a''), RemoveStart (lit ''a'')], lost = 0 \<rparr>
    in unat (gauge (race_mgr w)) = room_count (race_mgr w) + sum_list (map surplus (racers w)) + lost w \<and>
       room_count (race_mgr w) = 0 \<and> sum_list (map surplus (racers w)) = 0 \<and> lost w = 1)"
  (is "let w = ?w in ?P w")
proof -
  have start: "gauge_ok (manager_with_stats config_default stats_new :: frame ref_tx manager)"
    "room_count (manager_with_stats config_default stats_new :: frame ref_tx manager) = 0"
    by (simp_all add: gauge_ok_def has_recorder_def gauge_def manager_with_stats_def room_count_def
        stats_new_def globals_default_def)
  have "unat (gauge (race_mgr ?w)) = room_count (race_mgr ?w) + sum_list (map surplus (racers ?w)) + lost ?w"
    using gauge_drifts_by_lost_races [OF start(1) _ _ race_schedule,
        of "[CreateStart (lit ''a''), CreateStart (lit ''a''), RemoveStart (lit ''a'')]" ref_channel
          "[0, 1, 0, 1, 0, 1, 2, 2]"] start(2)
    by simp
  moreover have "room_count (race_mgr ?w) = 0 \<and> sum_list (map surplus (racers ?w)) = 0 \<and> lost ?w = 1"
    by code_simp
  ultimately show ?thesis
    unfolding Let_def by blast
qed


text \<open>C4 However many callers race to create rooms, all calls for one id return the same room, the one the
  manager has under that id, whoever inserted it and in whatever order their steps interleave; rooms
  that were there before stay.\<close>

theorem racing_creators_agree:
  assumes "ch_new ch (default_capacity m) \<noteq> None"
    and "race_reachable ch \<lparr> race_mgr = m, racers = map CreateStart rids, lost = 0 \<rparr> w"
    and "i < length rids" "racers w ! i = Finished r"
  shows "r \<noteq> None \<and> r = manager_get (rids ! i) (race_mgr w) \<and>
    (\<forall>q a. manager_get q m = Some a \<longrightarrow> manager_get q (race_mgr w) = Some a)"
proof -
  have "creators_ok m rids \<lparr> race_mgr = m, racers = map CreateStart rids, lost = 0 \<rparr>"
    by (simp add: creators_ok_def extends_def list_all2_conv_all_nth creator_ok_def)
  from creators_reachable [OF assms(2) this assms(1)] assms(3,4) show ?thesis
    by (auto simp: creators_ok_def extends_def creator_ok_def dest: list_all2_nthD)
qed

text \<open>Two creators find nothing, both build a room, both insert: the second gets the room of the first.\<close>

theorem racing_creators_agree_witness:
  "(let w = fold (race_step ref_channel) [0, 1, 0, 1, 1, 0]
        \<lparr> race_mgr = manager_new, racers = map CreateStart [lit ''a'', lit ''a''], lost = 0 \<rparr>
    in manager_get (lit ''a'') (race_mgr w) = Some 1 \<and> racers w ! 0 = Finished (Some 1))"
  (is "let w = ?w in _")
proof -
  have fin: "racers ?w ! 0 = Finished (Some 1)"
    by code_simp
  have cap: "ch_new ref_channel (default_capacity (manager_new :: frame ref_tx manager)) \<noteq> None"
    by (simp add: ref_channel_def ref_new_def manager_new_def default_capacity_ok)
  from racing_creators_agree [OF cap race_schedule _ fin] fin show ?thesis
    unfolding Let_def by simp
qed

end
