(* ===== verification/Cleanup_Races.thy ===== *)
theory Cleanup_Races
  imports Room_Manager
begin

text \<open>
  \<open>src/room.rs\<close>: \<open>cleanup\<close> and \<open>cleanup_empty\<close> among concurrent callers. A clean-up first iterates
  over the rooms and collects the ids of those that look abandoned, then removes these ids one by
  one, then reports them to the recorder. Each read of a room and each removal is a step, and any
  operation of another caller may happen in between. The iterator of a DashMap yields the ids in any
  order and each at most once, and it ends when it has yielded every room that was there when it
  began and has stayed; of the rooms that come and go meanwhile it may yield some. So which id it
  yields next is a choice of the schedule.
\<close>

section \<open>The steps of a clean-up\<close>

datatype cleaner =
    Scanning "(rstr \<times> nat) list" "rstr list" "rstr list"
      \<comment> \<open>the rooms that were there at the start, the ids yielded so far, the ids to remove\<close>
  | Checking rstr nat "(rstr \<times> nat) list" "rstr list" "rstr list"
      \<comment> \<open>this room has no participants; its receivers are not read yet\<close>
  | Removing "rstr list" nat                         \<comment> \<open>the ids left, and the result\<close>
  | Reporting nat nat                                \<comment> \<open>reports left, and the result\<close>
  | Returned nat

definition clean_start :: "'tx manager \<Rightarrow> cleaner" where
  "clean_start m = Scanning (entries (rooms m)) [] []"

text \<open>A room that was there at the start has stayed if its id still has its address: an address is never
  used for a second room.\<close>

definition scan_over :: "(rstr \<times> nat) list \<Rightarrow> rstr list \<Rightarrow> 'tx manager \<Rightarrow> bool" where
  "scan_over at_start seen m \<longleftrightarrow> list_all (\<lambda>(k, a). manager_get k m = Some a \<longrightarrow> k \<in> set seen) at_start"

text \<open>\<open>rx\<close> tells \<open>cleanup\<close>, which also reads the receivers, from \<open>cleanup_empty\<close>. The choice is the id
  the iterator yields, or \<open>None\<close> for any other step.\<close>

fun cleaner_step ::
  "'tx frame_channel \<Rightarrow> bool \<Rightarrow> rstr option \<Rightarrow> cleaner \<Rightarrow> 'tx manager \<Rightarrow> ('tx manager \<times> cleaner) option" where
  "cleaner_step ch rx (Some rid) (Scanning at_start seen ks) m =
     (if rid \<in> set seen then None
      else case manager_get rid m of
             None \<Rightarrow> None
           | Some a \<Rightarrow>
               Some (m,
                 if participant_count (heap m ! a) \<noteq> 0 then Scanning at_start (rid # seen) ks
                 else if rx then Checking rid a at_start (rid # seen) ks
                 else Scanning at_start (rid # seen) (ks @ [rid])))"
| "cleaner_step ch rx None (Scanning at_start seen ks) m =
     (if scan_over at_start seen m then Some (m, Removing ks (length ks)) else None)"
| "cleaner_step ch rx None (Checking rid a at_start seen ks) m =
     Some (m, Scanning at_start seen (if room_receiver_count ch (heap m ! a) = 0 then ks @ [rid] else ks))"
| "cleaner_step ch rx None (Removing (k # ks) n) m =
     Some (m\<lparr>rooms := DAList.delete k (rooms m)\<rparr>, Removing ks n)"
| "cleaner_step ch rx None (Removing [] n) m = Some (m, Reporting n n)"
| "cleaner_step ch rx None (Reporting (Suc j) n) m = Some (report room_closed m, Reporting j n)"
| "cleaner_step ch rx None (Reporting 0 n) m = Some (m, Returned n)"
| "cleaner_step ch rx _ _ m = None"

datatype clean_event = Other room_op | Step "rstr option"

fun clean_run ::
  "'tx frame_channel \<Rightarrow> (nat \<Rightarrow> 'tx \<Rightarrow> 'tx) \<Rightarrow> bool \<Rightarrow> clean_event list \<Rightarrow> 'tx manager \<times> cleaner \<Rightarrow>
   ('tx manager \<times> cleaner) option" where
  "clean_run ch dr rx [] s = Some s"
| "clean_run ch dr rx (Other op # es) (m, c) = clean_run ch dr rx es (room_step ch dr op m, c)"
| "clean_run ch dr rx (Step choice # es) (m, c) =
     (case cleaner_step ch rx choice c m of None \<Rightarrow> None | Some s \<Rightarrow> clean_run ch dr rx es s)"

lemma clean_run_append:
  "clean_run ch dr rx (es @ fs) s = Option.bind (clean_run ch dr rx es s) (clean_run ch dr rx fs)"
  by (induction ch dr rx es s rule: clean_run.induct) (simp_all split: option.split)

section \<open>A clean-up on its own\<close>

definition abandoned :: "'tx frame_channel \<Rightarrow> bool \<Rightarrow> 'tx manager \<Rightarrow> nat \<Rightarrow> bool" where
  "abandoned ch rx m a \<longleftrightarrow> participant_count (heap m ! a) = 0 \<and>
     (rx \<longrightarrow> room_receiver_count ch (heap m ! a) = 0)"

lemma scan_alone:
  assumes "distinct (map fst kas)" "set (map fst kas) \<inter> set seen = {}"
    and "\<And>k a. (k, a) \<in> set kas \<Longrightarrow> manager_get k m = Some a"
  shows "\<exists>cs. clean_run ch dr rx (map Step cs) (m, Scanning st seen ks) =
    Some (m, Scanning st (rev (map fst kas) @ seen) (ks @ map fst (filter (\<lambda>(k, a). abandoned ch rx m a) kas)))"
  using assms
proof (induction kas arbitrary: seen ks)
  case Nil
  show ?case by (rule exI [of _ "[]"]) simp
next
  case (Cons ka kas)
  obtain k a where ka: "ka = (k, a)" by (cases ka)
  let ?ks = "if abandoned ch rx m a then ks @ [k] else ks"
  have get: "manager_get k m = Some a" "k \<notin> set seen"
    using Cons.prems(2,3) ka by auto
  have "\<exists>cs. clean_run ch dr rx (map Step cs) (m, Scanning st seen ks) = Some (m, Scanning st (k # seen) ?ks)"
  proof (cases "participant_count (heap m ! a) = 0 \<and> rx")
    case True
    then show ?thesis
      using get by (intro exI [of _ "[Some k, None]"]) (simp add: abandoned_def)
  next
    case False
    then show ?thesis
      using get by (intro exI [of _ "[Some k]"]) (auto simp: abandoned_def)
  qed
  then obtain cs where cs: "clean_run ch dr rx (map Step cs) (m, Scanning st seen ks) = Some (m, Scanning st (k # seen) ?ks)" ..
  have "distinct (map fst kas)" "set (map fst kas) \<inter> set (k # seen) = {}"
    using Cons.prems(1,2) ka by auto
  from Cons.IH [OF this] Cons.prems(3) obtain ds where
    "clean_run ch dr rx (map Step ds) (m, Scanning st (k # seen) ?ks) =
      Some (m, Scanning st (rev (map fst kas) @ k # seen) (?ks @ map fst (filter (\<lambda>(k, a). abandoned ch rx m a) kas)))"
    by fastforce
  with cs show ?case
    by (intro exI [of _ "cs @ ds"]) (simp add: clean_run_append ka)
qed

text \<open>The ids that a scan without interruption collects, in the order of the dictionary.\<close>

definition abandoned_ids :: "'tx frame_channel \<Rightarrow> bool \<Rightarrow> 'tx manager \<Rightarrow> rstr list" where
  "abandoned_ids ch rx m = map fst (filter (\<lambda>(k, a). abandoned ch rx m a) (entries (rooms m)))"

lemma set_abandoned_ids:
  "set (abandoned_ids ch rx m) = {k. \<exists>a. manager_get k m = Some a \<and> abandoned ch rx m a}"
  by (force simp: abandoned_ids_def in_entries_iff manager_get_def)

lemma distinct_abandoned_ids: "distinct (abandoned_ids ch rx m)"
  using selected_keys(2) by (simp add: abandoned_ids_def)

lemma collect_alone:
  "\<exists>cs. clean_run ch dr rx (map Step cs) (m, clean_start m) =
    Some (m, Removing (abandoned_ids ch rx m) (length (abandoned_ids ch rx m)))"
proof -
  let ?es = "entries (rooms m)"
  have at: "\<And>k a. (k, a) \<in> set ?es \<Longrightarrow> manager_get k m = Some a"
    by (simp add: in_entries_iff manager_get_def)
  have keys: "distinct (map fst ?es)"
    using distinct_dict_keys [of "rooms m"] by (simp add: dict_keys_def)
  obtain cs where "clean_run ch dr rx (map Step cs) (m, clean_start m) =
      Some (m, Scanning ?es (rev (map fst ?es)) (abandoned_ids ch rx m))"
    using scan_alone [of ?es "[]" m ch dr rx ?es "[]", OF keys _ at] by (auto simp: clean_start_def abandoned_ids_def)
  moreover have "scan_over ?es (rev (map fst ?es)) m"
    by (force simp: scan_over_def list_all_iff)
  ultimately show ?thesis
    by (intro exI [of _ "cs @ [None]"]) (simp add: clean_run_append)
qed

lemma remove_alone:
  "clean_run ch dr rx (map Step (replicate (Suc (length ks)) None)) (m, Removing ks n) =
     Some (m\<lparr>rooms := delete_all ks (rooms m)\<rparr>, Reporting n n)"
  by (induction ks arbitrary: m) (simp_all add: delete_all_def)

lemma report_alone:
  "clean_run ch dr rx (map Step (replicate (Suc j) None)) (m, Reporting j n) =
     Some ((report room_closed ^^ j) m, Returned n)"
  by (induction j arbitrary: m) (simp_all add: funpow_swap1)

lemma finish_alone:
  "\<exists>cs. clean_run ch dr rx (map Step cs) (m, Removing ks n) =
     Some ((report room_closed ^^ n) (m\<lparr>rooms := delete_all ks (rooms m)\<rparr>), Returned n)"
  by (rule exI [of _ "replicate (Suc (length ks)) None @ replicate (Suc n) None"])
    (simp only: map_append clean_run_append remove_alone report_alone Option.bind.simps)

text \<open>Every run without interruption, whatever order the iterator chooses, is on its way to the result of
  the clean-up.\<close>

definition on_its_way ::
  "'tx frame_channel \<Rightarrow> bool \<Rightarrow> 'tx manager \<Rightarrow> 'tx manager \<Rightarrow> cleaner \<Rightarrow> bool" where
  "on_its_way ch rx m0 m c \<longleftrightarrow>
     (let K = set (abandoned_ids ch rx m0);
          removed = (\<lambda>ds. m0\<lparr>rooms := delete_all ds (rooms m0)\<rparr>)
      in case c of
           Scanning st seen ks \<Rightarrow> m = m0 \<and> st = entries (rooms m0) \<and> distinct ks \<and> set ks = K \<inter> set seen
         | Checking k a st seen ks \<Rightarrow> m = m0 \<and> st = entries (rooms m0) \<and> distinct ks \<and> rx \<and>
             manager_get k m0 = Some a \<and> participant_count (heap m0 ! a) = 0 \<and> k \<in> set seen \<and> set ks = K \<inter> set seen - {k}
         | Removing ks n \<Rightarrow> (\<exists>ds. m = removed ds \<and> distinct (ds @ ks) \<and> set (ds @ ks) = K \<and> n = length (ds @ ks))
         | Reporting j n \<Rightarrow> (\<exists>ds. m = (report room_closed ^^ (n - j)) (removed ds) \<and> j \<le> n \<and>
             distinct ds \<and> set ds = K \<and> n = length ds)
         | Returned n \<Rightarrow> (\<exists>ds. m = (report room_closed ^^ n) (removed ds) \<and> distinct ds \<and> set ds = K \<and> n = length ds))"

lemma on_its_way_step:
  assumes "on_its_way ch rx m0 m c" "cleaner_step ch rx choice c m = Some (m', c')"
  shows "on_its_way ch rx m0 m' c'"
  using assms
proof (cases "(ch, rx, choice, c, m)" rule: cleaner_step.cases)
  case (1 ch rx rid st seen ks m)
  with assms show ?thesis
    by (auto simp: on_its_way_def set_abandoned_ids abandoned_def split: option.splits if_splits)
next
  case (2 ch rx st seen ks m)
  with assms have m: "m = m0" "st = entries (rooms m0)" "scan_over st seen m0" "distinct ks"
    "set ks = set (abandoned_ids ch rx m0) \<inter> set seen" "m' = m0" "c' = Removing ks (length ks)"
    by (auto simp: on_its_way_def split: if_splits)
  then have "set (abandoned_ids ch rx m0) \<subseteq> set seen"
    by (auto simp: scan_over_def list_all_iff set_abandoned_ids in_entries_iff manager_get_def)
  with m show ?thesis
    using 2 by (auto simp: on_its_way_def delete_all_def intro!: exI [of _ "[]"])
next
  case (3 ch1 rx1 rid a st seen ks m1)
  then have c: "c = Checking rid a st seen ks" "choice = None" by simp_all
  let ?K = "set (abandoned_ids ch rx m0)"
  have m: "m = m0" "st = entries (rooms m0)" "distinct ks" rx "manager_get rid m0 = Some a"
    "participant_count (heap m0 ! a) = 0" "rid \<in> set seen" and ks: "set ks = ?K \<inter> set seen - {rid}"
    using assms(1) unfolding on_its_way_def c Let_def cleaner.case by blast+
  have "rid \<in> ?K \<longleftrightarrow> room_receiver_count ch (heap m0 ! a) = 0"
    using m(4-6) by (simp add: set_abandoned_ids abandoned_def)
  with m(7) ks have "set (if room_receiver_count ch (heap m0 ! a) = 0 then ks @ [rid] else ks) = ?K \<inter> set seen"
    by auto
  moreover have "distinct (if room_receiver_count ch (heap m0 ! a) = 0 then ks @ [rid] else ks)"
    using m(3) ks by simp
  moreover have "m' = m0" "c' = Scanning st seen (if room_receiver_count ch (heap m0 ! a) = 0 then ks @ [rid] else ks)"
    using assms(2) unfolding c m(1) by auto
  ultimately show ?thesis
    using m(2) by (simp only: on_its_way_def Let_def cleaner.case simp_thms)
next
  case (4 ch1 rx1 k ks n m1)
  then have c: "c = Removing (k # ks) n" "choice = None" by simp_all
  obtain ds where ds: "m = m0\<lparr>rooms := delete_all ds (rooms m0)\<rparr>" "distinct (ds @ k # ks)"
    "set (ds @ k # ks) = set (abandoned_ids ch rx m0)" "n = length (ds @ k # ks)"
    using assms(1) unfolding on_its_way_def c Let_def cleaner.case by blast
  have "m' = m0\<lparr>rooms := delete_all (ds @ [k]) (rooms m0)\<rparr>" "c' = Removing ks n"
    using assms(2) unfolding c ds(1) by (auto simp: delete_all_def)
  moreover have "distinct ((ds @ [k]) @ ks)" "set ((ds @ [k]) @ ks) = set (abandoned_ids ch rx m0)"
    "n = length ((ds @ [k]) @ ks)"
    using ds(2-4) by simp_all
  ultimately show ?thesis
    unfolding on_its_way_def Let_def by (simp only: cleaner.case) blast
next
  case (6 ch rx j n m)
  with assms obtain ds where "m = (report room_closed ^^ (n - Suc j)) (m0\<lparr>rooms := delete_all ds (rooms m0)\<rparr>)" "Suc j \<le> n"
    "distinct ds" "set ds = set (abandoned_ids ch rx m0)" "n = length ds"
    by (auto simp: on_its_way_def)
  moreover from this have "n - j = Suc (n - Suc j)" by simp
  ultimately show ?thesis
    using 6 assms(2) by (auto simp: on_its_way_def)
qed (auto simp: on_its_way_def)

lemma on_its_way_run:
  "clean_run ch dr rx (map Step cs) (m, c) = Some (m', c') \<Longrightarrow> on_its_way ch rx m0 m c \<Longrightarrow> on_its_way ch rx m0 m' c'"
  by (induction cs arbitrary: m c) (auto split: option.splits dest: on_its_way_step)

lemma clean_alone:
  assumes "clean_run ch dr rx (map Step cs) (m, clean_start m) = Some (m', Returned n)"
  shows "(m', n) = remove_keys (abandoned_ids ch rx m) m"
proof -
  let ?ks = "abandoned_ids ch rx m"
  have "on_its_way ch rx m m (clean_start m)"
    by (simp add: on_its_way_def clean_start_def)
  from on_its_way_run [OF assms this] obtain ds where ds: "n = length ds" "distinct ds" "set ds = set ?ks"
    "m' = (report room_closed ^^ n) (m\<lparr>rooms := delete_all ds (rooms m)\<rparr>)"
    by (auto simp: on_its_way_def)
  moreover have "length ds = length ?ks"
    using ds(2,3) distinct_abandoned_ids [of ch rx m] by (metis distinct_card)
  ultimately show ?thesis
    using delete_all_cong [OF ds(3), of "rooms m"] by (auto simp: remove_keys_def Let_def)
qed

text \<open>A room that is removed between the scan and the removals is taken out once and counted twice.\<close>

lemma removed_meanwhile:
  fixes m :: "'tx manager"
  assumes "manager_get rid m = Some a" "rid \<in> set ks" "distinct ks" "set ks \<subseteq> dom (DAList.lookup (rooms m))"
  defines "m1 \<equiv> fst (manager_remove rid m)"
  shows "DAList.lookup (delete_all ks (rooms m1)) = DAList.lookup (delete_all ks (rooms m))"
    "dict_len (delete_all ks (rooms m1)) + length ks = room_count m" "room_count m1 + 1 = room_count m"
proof -
  show look: "DAList.lookup (delete_all ks (rooms m1)) = DAList.lookup (delete_all ks (rooms m))"
    using assms(1,2) by (auto simp: m1_def fun_eq_iff manager_remove_def manager_get_def lookup_delete Let_def)
  then have "dict_len (delete_all ks (rooms m1)) = dict_len (delete_all ks (rooms m))"
    by (simp add: dict_len_card)
  with dict_len_delete_all [OF assms(3,4)]
  show "dict_len (delete_all ks (rooms m1)) + length ks = room_count m"
    by (simp add: room_count_def)
  show "room_count m1 + 1 = room_count m"
    using assms(1) dict_len_delete [of rid "rooms m"] dict_len_pos [of "rooms m" rid]
    by (auto simp: m1_def manager_remove_def manager_get_def room_count_def Let_def)
qed

section \<open>Who stays, and who joins too late\<close>

text \<open>Participant \<open>p\<close> is in the room that the manager keeps under \<open>rid\<close>.\<close>

definition member_of :: "rstr \<Rightarrow> nat \<Rightarrow> u32 \<Rightarrow> 'tx manager \<Rightarrow> bool" where
  "member_of rid a p m \<longleftrightarrow> manager_get rid m = Some a \<and> a < length (heap m) \<and> room_contains p (heap m ! a)"

text \<open>Operations that neither take the participant out nor remove the room by name.\<close>

fun spares :: "rstr \<Rightarrow> nat \<Rightarrow> u32 \<Rightarrow> room_op \<Rightarrow> bool" where
  "spares rid a p (Remove q) \<longleftrightarrow> q \<noteq> rid"
| "spares rid a p (LeaveRoom b q) \<longleftrightarrow> b \<noteq> a \<or> q \<noteq> p"
| "spares rid a p _ \<longleftrightarrow> True"

lemma contains_count: "room_contains p r \<Longrightarrow> participant_count r \<noteq> 0"
  using finite_dom_lookup [of "participants r"]
  by (auto simp: participant_count_def dict_len_card room_contains_def dom_def)

lemma member_on_room_at:
  "member_of rid a p m \<Longrightarrow> (b = a \<Longrightarrow> room_contains p (heap m ! a) \<Longrightarrow> room_contains p (f (heap m ! a))) \<Longrightarrow>
   member_of rid a p (on_room_at b f m)"
  by (cases "b = a") (auto simp: member_of_def on_room_at_def manager_get_def)

lemma member_created:
  assumes "member_of rid a p m" "get_or_create_with_capacity ch q c m = Some (m', b)"
  shows "member_of rid a p m'"
  using assms(2)
proof (cases rule: get_or_create_cases)
  case (created r)
  then show ?thesis
    using assms(1) by (auto simp: member_of_def manager_get_def lookup_update nth_append)
qed (use assms(1) in simp)

lemma member_selected:
  assumes "member_of rid a p m" "\<And>b. P b \<Longrightarrow> participant_count (heap m ! b) = 0"
  shows "member_of rid a p (fst (remove_keys (map fst (filter (\<lambda>(k, b). P b) (entries (rooms m)))) m))"
proof -
  have "\<not> P a" using assms contains_count unfolding member_of_def by metis
  then show ?thesis
    using assms(1) by (auto simp: member_of_def manager_get_def in_entries_iff)
qed

lemma member_stays:
  assumes "member_of rid a p m" "spares rid a p op"
  shows "member_of rid a p (room_step ch dr op m)"
proof (cases op)
  case (GetOrCreate q)
  with assms(1) show ?thesis
    by (auto simp: get_or_create_def intro: member_created split: option.split)
next
  case (GetOrCreateWith q c)
  with assms(1) show ?thesis by (auto intro: member_created split: option.split)
next
  case (Remove q)
  with assms show ?thesis
    by (auto simp: member_of_def manager_remove_def manager_get_def lookup_delete Let_def)
next
  case Cleanup
  then show ?thesis
    using member_selected [OF assms(1), of "\<lambda>b. room_is_empty ch (heap m ! b)"]
    by (simp add: cleanup_def room_is_empty_iff)
next
  case CleanupEmpty
  then show ?thesis
    using member_selected [OF assms(1), of "\<lambda>b. participant_count (heap m ! b) = 0"]
    by (simp add: cleanup_empty_def)
next
  case (JoinRoom b q name)
  then show ?thesis
    by (simp, intro member_on_room_at [OF assms(1)]) (simp add: room_contains_def room_join_def lookup_update)
next
  case (LeaveRoom b q)
  then show ?thesis
    by (simp, intro member_on_room_at [OF assms(1)])
      (use assms(2) LeaveRoom in \<open>auto simp: room_contains_def room_leave_def lookup_delete\<close>)
next
  case (SubscribeRoom b)
  then show ?thesis
    by (simp, intro member_on_room_at [OF assms(1)]) (simp add: room_contains_def room_subscribe_def split: prod.split)
next
  case (Close b r)
  then show ?thesis
    by (simp, intro member_on_room_at [OF assms(1)]) (simp add: room_contains_def)
next
  case (BroadcastRoom b f)
  obtain r recs res where r: "room_broadcast ch f (heap m ! b) (recorders m) = (r, recs, res)"
    by (metis prod_cases3)
  from room_broadcast_keeps [OF r] BroadcastRoom r assms(1) show ?thesis
    by (cases "b = a") (simp_all add: member_of_def broadcast_at_def manager_get_def room_contains_def)
qed

primrec condemned :: "cleaner \<Rightarrow> rstr set" where
  "condemned (Scanning st seen ks) = set ks"
| "condemned (Checking rid a st seen ks) = insert rid (set ks)"
| "condemned (Removing ks n) = set ks"
| "condemned (Reporting j n) = {}"
| "condemned (Returned n) = {}"

lemma cleaner_spares:
  assumes "member_of rid a p m" "rid \<notin> condemned c" "cleaner_step ch rx choice c m = Some (m', c')"
  shows "member_of rid a p m' \<and> rid \<notin> condemned c'"
  using assms
  by (cases "(ch, rx, choice, c, m)" rule: cleaner_step.cases)
    (auto simp: member_of_def manager_get_def lookup_delete report_def dest: contains_count
      split: if_splits option.splits)

lemma clean_run_spares:
  assumes "clean_run ch dr rx es (m, c) = Some (m', c')" "member_of rid a p m" "rid \<notin> condemned c"
    and "\<forall>op. Other op \<in> set es \<longrightarrow> spares rid a p op"
  shows "member_of rid a p m' \<and> rid \<notin> condemned c'"
  using assms
proof (induction es arbitrary: m c)
  case (Cons e es)
  show ?case
  proof (cases e)
    case (Other op)
    with Cons show ?thesis by (simp add: member_stays)
  next
    case (Step choice)
    with Cons.prems(1) obtain m1 c1 where s: "cleaner_step ch rx choice c m = Some (m1, c1)"
      "clean_run ch dr rx es (m1, c1) = Some (m', c')"
      by (auto split: option.splits)
    from Cons.IH [OF s(2)] cleaner_spares [OF Cons.prems(2,3) s(1)] Cons.prems(4) show ?thesis
      by simp
  qed
qed simp

section \<open>Properties\<close>

text \<open>C20 The sequential clean-ups are the steps of the concurrent ones run without interruption: such a
  run can finish, and every one that finishes, in whatever order the iterator yields the rooms,
  gives the state and the count of \<open>cleanup\<close>, and of \<open>cleanup_empty\<close>.\<close>

theorem cleanups_are_their_steps:
  "(\<exists>cs m' n. clean_run ch dr rx (map Step cs) (m, clean_start m) = Some (m', Returned n)) \<and>
   (\<forall>cs m' n. clean_run ch dr rx (map Step cs) (m, clean_start m) = Some (m', Returned n) \<longrightarrow>
      (m', n) = (if rx then cleanup ch m else cleanup_empty m))"
proof
  obtain cs where cs: "clean_run ch dr rx (map Step cs) (m, clean_start m) =
      Some (m, Removing (abandoned_ids ch rx m) (length (abandoned_ids ch rx m)))"
    using collect_alone by blast
  obtain ds m' n where ds: "clean_run ch dr rx (map Step ds) (m, Removing (abandoned_ids ch rx m) (length (abandoned_ids ch rx m))) =
      Some (m', Returned n)"
    using finish_alone by blast
  have "clean_run ch dr rx (map Step (cs @ ds)) (m, clean_start m) = Some (m', Returned n)"
    by (simp add: clean_run_append cs ds)
  then show "\<exists>cs m' n. clean_run ch dr rx (map Step cs) (m, clean_start m) = Some (m', Returned n)" by blast
next
  have "(if rx then cleanup ch m else cleanup_empty m) = remove_keys (abandoned_ids ch rx m) m"
    by (simp add: abandoned_ids_def abandoned_def cleanup_def cleanup_empty_def room_is_empty_iff)
  then show "\<forall>cs m' n. clean_run ch dr rx (map Step cs) (m, clean_start m) = Some (m', Returned n) \<longrightarrow>
      (m', n) = (if rx then cleanup ch m else cleanup_empty m)"
    using clean_alone by metis
qed

theorem cleanups_are_their_steps_witness:
  "\<exists>m'. clean_run ref_channel ref_drop True
      (map Step [Some (lit ''b''), None, Some (lit ''a''), None, None, None, None, None, None])
      (two_rooms, clean_start two_rooms) = Some (m', Returned 1) \<and> (m', 1) = cleanup ref_channel two_rooms"
proof -
  let ?run = "clean_run ref_channel ref_drop True
      (map Step [Some (lit ''b''), None, Some (lit ''a''), None, None, None, None, None, None])
      (two_rooms, clean_start two_rooms)"
  have "map_option snd ?run = Some (Returned 1)" by code_simp
  then obtain m' where run: "?run = Some (m', Returned 1)" by auto
  with cleanups_are_their_steps [of ref_channel ref_drop True two_rooms, THEN conjunct2, rule_format, OF run]
  show ?thesis by (simp only: if_True) blast
qed

text \<open>C17 A clean-up that runs among other callers takes no room from those who were there before: a
  participant of a room when the clean-up starts is still in it, and the room is still found under
  its id, at every moment of the clean-up, unless some caller removes either by name.\<close>

theorem cleanup_keeps_members:
  assumes "clean_run ch dr rx es (m, clean_start m) = Some (m', c)"
    and "manager_ok m" "manager_get rid m = Some a" "room_contains p (heap m ! a)"
    and "\<forall>op. Other op \<in> set es \<longrightarrow> spares rid a p op"
  shows "manager_get rid m' = Some a \<and> room_contains p (heap m' ! a)"
proof -
  have "member_of rid a p m"
    using assms(2-4) by (auto simp: member_of_def manager_ok_lookup manager_get_def)
  with clean_run_spares [OF assms(1) _ _ assms(5)] show ?thesis
    by (simp add: member_of_def clean_start_def)
qed

theorem cleanup_keeps_members_witness:
  "\<exists>m' c. clean_run ref_channel ref_drop True
      [Step (Some (lit ''b'')), Other (JoinRoom 1 3 (lit ''bob'')), Step None, Step (Some (lit ''a'')), Step None,
       Other (LeaveRoom 0 2), Step None, Step None]
      (on_room_at 0 (room_join 1 (lit ''ann'')) two_rooms,
       clean_start (on_room_at 0 (room_join 1 (lit ''ann'')) two_rooms)) = Some (m', c) \<and>
    manager_get (lit ''a'') m' = Some 0 \<and> room_contains 1 (heap m' ! 0)"
proof -
  let ?m = "on_room_at 0 (room_join 1 (lit ''ann'')) two_rooms"
  let ?es = "[Step (Some (lit ''b'')), Other (JoinRoom 1 3 (lit ''bob'')), Step None, Step (Some (lit ''a'')), Step None,
      Other (LeaveRoom 0 2), Step None, Step None]"
  have "clean_run ref_channel ref_drop True ?es (?m, clean_start ?m) \<noteq> None"
    by code_simp
  then obtain m' c where run: "clean_run ref_channel ref_drop True ?es (?m, clean_start ?m) = Some (m', c)"
    by auto
  have "manager_ok ?m" "manager_get (lit ''a'') ?m = Some 0" "room_contains 1 (heap ?m ! 0)"
    using two_rooms_ok by (simp_all add: manager_ok_def on_room_at_def manager_get_def two_rooms_def lookup_update
        uchr_inject room_contains_def room_join_def)
  from cleanup_keeps_members [OF run this] run show ?thesis by simp
qed

text \<open>C18 Who joins during a clean-up may lose the room: for every room that has neither participants nor
  receivers, there is a run of the clean-up from its start to its return in which, after the scan,
  a participant gets the room from the manager and joins it, and at the end the manager does not
  know the room any more.\<close>

theorem cleanup_drops_joiner:
  assumes "manager_ok m" "manager_get rid m = Some a" "room_is_empty ch (heap m ! a)"
  shows "get_or_create ch rid m = Some (m, a) \<and>
    (\<exists>cs ds m' n. clean_run ch dr True
       (map Step cs @ [Other (GetOrCreate rid), Other (JoinRoom a p name)] @ map Step ds) (m, clean_start m) =
       Some (m', Returned n) \<and> room_contains p (heap m' ! a) \<and> manager_get rid m' = None)"
proof
  show got: "get_or_create ch rid m = Some (m, a)"
    using assms(2) by (simp add: get_or_create_def get_or_create_with_capacity_def manager_get_def)
  let ?ks = "abandoned_ids ch True m" and ?m = "on_room_at a (room_join p name) m"
  let ?n = "length ?ks"
  let ?fin = "(report room_closed ^^ ?n) (?m\<lparr>rooms := delete_all ?ks (rooms ?m)\<rparr>)"
  obtain cs where cs: "clean_run ch dr True (map Step cs) (m, clean_start m) = Some (m, Removing ?ks ?n)"
    using collect_alone by blast
  obtain ds where ds: "clean_run ch dr True (map Step ds) (?m, Removing ?ks ?n) = Some (?fin, Returned ?n)"
    using finish_alone by blast
  have "clean_run ch dr True (map Step cs @ [Other (GetOrCreate rid), Other (JoinRoom a p name)] @ map Step ds)
      (m, clean_start m) = Some (?fin, Returned ?n)"
    by (simp add: clean_run_append cs ds got)
  moreover have "rid \<in> set ?ks"
    using assms(2,3) by (simp add: set_abandoned_ids abandoned_def room_is_empty_iff)
  then have "manager_get rid ?fin = None"
    by (simp add: manager_get_def)
  moreover have "a < length (heap m)"
    using assms(1,2) by (auto simp: manager_ok_lookup manager_get_def)
  then have "room_contains p (heap ?fin ! a)"
    by (simp add: on_room_at_def room_contains_def room_join_def lookup_update)
  ultimately show "\<exists>cs ds m' n. clean_run ch dr True
       (map Step cs @ [Other (GetOrCreate rid), Other (JoinRoom a p name)] @ map Step ds) (m, clean_start m) =
       Some (m', Returned n) \<and> room_contains p (heap m' ! a) \<and> manager_get rid m' = None"
    by blast
qed

theorem cleanup_drops_joiner_witness:
  "\<exists>es m' n. clean_run ref_channel ref_drop True es (two_rooms, clean_start two_rooms) = Some (m', Returned n) \<and>
    room_contains 7 (heap m' ! 0) \<and> manager_get (lit ''a'') m' = None"
proof -
  have "manager_get (lit ''a'') two_rooms = Some 0" "room_is_empty ref_channel (heap two_rooms ! 0)"
    by (simp_all add: two_rooms_def manager_get_def lookup_update uchr_inject room_is_empty_def
        ref_channel_def ref_count_def)
  from cleanup_drops_joiner [OF two_rooms_ok this] show ?thesis by blast
qed

text \<open>C19 A room that another caller removes after the clean-up has collected it is reported as closed twice:
  the clean-up counts it as its own, and when it has returned the gauge is one below the number of
  rooms, provided some room is still in use (otherwise the gauge stays at zero).\<close>

theorem cleanup_reports_removed:
  fixes m :: "'tx manager"
  assumes "gauge_ok m" "manager_get rid m = Some a" "room_is_empty ch (heap m ! a)"
    and "manager_get q m = Some b" "\<not> room_is_empty ch (heap m ! b)"
  shows "\<exists>cs ds m'. clean_run ch dr True (map Step cs @ [Other (Remove rid)] @ map Step ds) (m, clean_start m) =
      Some (m', Returned (snd (cleanup ch m))) \<and>
    room_count m' + snd (cleanup ch m) = room_count m \<and> unat (gauge m') + 1 = room_count m'"
proof -
  let ?ks = "abandoned_ids ch True m" and ?m = "fst (manager_remove rid m)"
  let ?n = "length ?ks"
  let ?d = "?m\<lparr>rooms := delete_all ?ks (rooms ?m)\<rparr>"
  let ?fin = "(report room_closed ^^ ?n) ?d"
  obtain cs where cs: "clean_run ch dr True (map Step cs) (m, clean_start m) = Some (m, Removing ?ks ?n)"
    using collect_alone by blast
  obtain ds where ds: "clean_run ch dr True (map Step ds) (?m, Removing ?ks ?n) = Some (?fin, Returned ?n)"
    using finish_alone by blast
  have run: "clean_run ch dr True (map Step cs @ [Other (Remove rid)] @ map Step ds) (m, clean_start m) =
      Some (?fin, Returned ?n)"
    by (simp add: clean_run_append cs ds)
  have n: "?n = snd (cleanup ch m)"
    by (simp add: abandoned_ids_def abandoned_def cleanup_def room_is_empty_iff)
  have rid: "rid \<in> set ?ks" and q: "q \<notin> set ?ks"
    using assms(2-5) by (auto simp: set_abandoned_ids abandoned_def room_is_empty_iff)
  have "set ?ks \<subseteq> dom (DAList.lookup (rooms m))"
    by (auto simp: set_abandoned_ids manager_get_def)
  note twice = removed_meanwhile [OF assms(2) rid distinct_abandoned_ids this]
  have count: "room_count ?d + ?n = room_count m" "room_count ?m + 1 = room_count m" "room_count ?fin = room_count ?d"
    using twice(2,3) by (simp_all add: room_count_def)
  moreover have "DAList.lookup (rooms ?d) q = Some b"
    using q assms(4) twice(1) by (simp add: manager_get_def)
  from dict_len_pos [OF this] have "room_count ?d \<noteq> 0"
    by (simp add: room_count_def)
  moreover have "gauge_ok ?m" using gauge_remove [OF assms(1)] by simp
  ultimately have "unat (gauge ?fin) + 1 = room_count ?fin"
    by (simp add: gauge_ok_def gauge_closed_pow)
  moreover have "room_count ?fin + snd (cleanup ch m) = room_count m"
    using count n by simp
  ultimately show ?thesis
    using run unfolding n by blast
qed

theorem cleanup_reports_removed_witness:
  "\<exists>es m' m. m = fold (room_step ref_channel ref_drop)
       [GetOrCreate (lit ''a''), GetOrCreate (lit ''b''), JoinRoom 1 7 (lit ''bob'')]
       (manager_with_stats config_default stats_new) \<and>
     clean_run ref_channel ref_drop True es (m, clean_start m) = Some (m', Returned 1) \<and>
     unat (gauge m') + 1 = room_count m'"
proof -
  let ?new = "manager_with_stats config_default stats_new :: frame ref_tx manager"
  let ?m = "fold (room_step ref_channel ref_drop)
      [GetOrCreate (lit ''a''), GetOrCreate (lit ''b''), JoinRoom 1 7 (lit ''bob'')] ?new"
  have "gauge_ok ?m"
    by (rule gauge_steps) (simp_all add: gauge_ok_def has_recorder_def gauge_def manager_with_stats_def
        room_count_def stats_new_def globals_default_def)
  moreover have "manager_get (lit ''a'') ?m = Some 0" "room_is_empty ref_channel (heap ?m ! 0)"
    "manager_get (lit ''b'') ?m = Some 1" "\<not> room_is_empty ref_channel (heap ?m ! 1)"
    by code_simp+
  moreover have "snd (cleanup ref_channel ?m) = 1" by code_simp
  ultimately show ?thesis
    using cleanup_reports_removed [of ?m "lit ''a''" 0 ref_channel "lit ''b''" 1 ref_drop] by metis
qed

end
