(* ===== verification/Ws_Compression.thy ===== *)
theory Ws_Compression
  imports Ws_Codec
begin

text \<open>
  \<open>src/compression.rs\<close>: the application-layer compression envelope. The DEFLATE coder
  (\<open>flate2\<close>) is not part of the crate: \<open>deflate level data\<close> is what its encoder returns and
  \<open>inflate body n\<close> what reading at most \<open>n\<close> bytes of the decoded stream gives
  (\<open>DeflateDecoder::new(body).take(n)\<close> read to its end), \<open>None\<close> standing for an error. The
  locale states what the crate relies on.

  \<open>max_size as u64 + 1\<close> is computed on \<open>u64\<close> and wraps in a release build.
\<close>

definition EXTENSION_NAME :: rstr where
  "EXTENSION_NAME = lit ''x-ws-kit-deflate''"

definition FLAG_COMPRESSED :: u8 where
  "FLAG_COMPRESSED = 0x01"

definition FLAG_TEXT :: u8 where
  "FLAG_TEXT = 0x02"

definition FLAG_KNOWN :: u8 where
  "FLAG_KNOWN = FLAG_COMPRESSED OR FLAG_TEXT"

record compression_config =
  level :: u8
  min_size :: usize
  max_size :: usize

definition compression_default :: compression_config where
  "compression_default = \<lparr> level = 6, min_size = 64, max_size = 1024 * 1024 \<rparr>"

definition compression_new :: compression_config where
  "compression_new = compression_default"

record frame_compressor =
  config :: compression_config

definition compressor_new :: "compression_config \<Rightarrow> frame_compressor" where
  "compressor_new c = \<lparr> config = c \<rparr>"

definition with_defaults :: frame_compressor where
  "with_defaults = compressor_new compression_default"

type_synonym deflater = "u8 \<Rightarrow> bytes \<Rightarrow> bytes option"
type_synonym inflater = "bytes \<Rightarrow> nat \<Rightarrow> bytes option"

definition compress :: "deflater \<Rightarrow> frame_compressor \<Rightarrow> bytes \<Rightarrow> bytes res" where
  "compress deflate c data =
     (if unat (min_size (config c)) \<le> length data then
        case deflate (level (config c)) data of
          None \<Rightarrow> Inl Compression
        | Some compressed \<Rightarrow>
            if length compressed < length data then Inr ((0 OR FLAG_COMPRESSED) # compressed)
            else Inr (0 # data)
      else Inr (0 # data))"

definition decompress :: "inflater \<Rightarrow> frame_compressor \<Rightarrow> bytes \<Rightarrow> bytes res" where
  "decompress inflate c enveloped =
     (case enveloped of
        [] \<Rightarrow> Inl Compression
      | flags # body \<Rightarrow>
          if flags AND NOT FLAG_KNOWN \<noteq> 0 then Inl Compression
          else if flags AND FLAG_COMPRESSED = 0 then
            (if unat (max_size (config c)) < length body then Inl PayloadTooLarge else Inr body)
          else
            (case inflate body (unat (max_size (config c) + 1)) of
               None \<Rightarrow> Inl Compression
             | Some out \<Rightarrow>
                 if unat (max_size (config c)) < length out then Inl PayloadTooLarge else Inr out))"

definition compress_frame :: "deflater \<Rightarrow> frame_compressor \<Rightarrow> frame \<Rightarrow> frame res" where
  "compress_frame deflate c f =
     (let flags = (if is_text f then 0 OR FLAG_TEXT else 0)
      in case compress deflate c (as_bytes f) of
           Inl e \<Rightarrow> Inl e
         | Inr payload \<Rightarrow> Inr (Binary (flags # payload)))"

definition decompress_frame :: "inflater \<Rightarrow> frame_compressor \<Rightarrow> frame \<Rightarrow> frame res" where
  "decompress_frame inflate c f =
     (case into_bytes f of
        [] \<Rightarrow> Inl Compression
      | flags # body \<Rightarrow>
          if flags AND NOT FLAG_KNOWN \<noteq> 0 then Inl Compression
          else
            (case decompress inflate c body of
               Inl e \<Rightarrow> Inl e
             | Inr payload \<Rightarrow>
                 if flags AND FLAG_TEXT \<noteq> 0 then
                   (case from_utf8 payload of None \<Rightarrow> Inl Compression | Some s \<Rightarrow> Inr (Text s))
                 else Inr (Binary payload)))"

definition extension_accepted :: "rstr option \<Rightarrow> bool" where
  "extension_accepted header =
     (case header of
        None \<Rightarrow> False
      | Some value \<Rightarrow>
          list_ex (\<lambda>token. eq_ignore_ascii_case (trim token) EXTENSION_NAME) (split_on (uchr 44) value))"

definition offer_extension :: rstr where
  "offer_extension = EXTENSION_NAME"

section \<open>What the crate relies on from the coder\<close>

locale deflate_coder =
  fixes deflate :: deflater and inflate :: inflater
  assumes inflate_deflate: "deflate l data = Some z \<Longrightarrow> inflate z n = Some (take n data)"
    and inflate_bound: "inflate z n = Some out \<Longrightarrow> length out \<le> n"
    and inflate_nothing: "inflate z 0 = Some []"
begin

lemma limit_plus_one: "m \<noteq> - 1 \<Longrightarrow> unat (m + 1 :: usize) = unat m + 1"
  by (metis Suc_eq_plus1 unat_1 unatSuc add.commute eq_neg_iff_add_eq_0)

lemma compress_cases:
  assumes "compress deflate c data = Inr e"
  obtains (identity) "e = 0 # data"
    | (deflated) z where "e = FLAG_COMPRESSED # z" "deflate (level (config c)) data = Some z"
      "length z < length data"
  using assms by (auto simp: compress_def split: if_splits option.splits)

lemma flag_facts:
  "0 AND NOT FLAG_KNOWN = 0" "FLAG_COMPRESSED AND NOT FLAG_KNOWN = 0" "FLAG_TEXT AND NOT FLAG_KNOWN = 0"
  "FLAG_COMPRESSED \<noteq> 0" "FLAG_TEXT \<noteq> 0"
  by (simp_all add: FLAG_KNOWN_def FLAG_COMPRESSED_def FLAG_TEXT_def)

lemma decompress_compress:
  assumes "compress deflate c data = Inr e" "max_size (config c') \<noteq> - 1"
  shows "decompress inflate c' e =
    (if unat (max_size (config c')) < length data then Inl PayloadTooLarge else Inr data)"
  using assms(1)
proof (cases rule: compress_cases)
  case identity
  then show ?thesis by (simp add: decompress_def)
next
  case (deflated z)
  then show ?thesis
    by (simp add: decompress_def flag_facts inflate_deflate limit_plus_one [OF assms(2)])
qed

lemma compress_length: "compress deflate c data = Inr e \<Longrightarrow> length e \<le> length data + 1"
  by (erule compress_cases) simp_all

lemma decompress_bound:
  "decompress inflate c e = Inr out \<Longrightarrow> length out \<le> unat (max_size (config c))"
  by (auto simp: decompress_def not_less split: list.splits if_splits option.splits)

lemma decompress_frame_compress_frame:
  assumes "compress_frame deflate c f = Inr w" "max_size (config c') \<noteq> - 1"
  shows "decompress_frame inflate c' w =
    (if unat (max_size (config c')) < frame_len f then Inl PayloadTooLarge else Inr f)"
proof -
  obtain e where e: "compress deflate c (as_bytes f) = Inr e"
    and w: "w = Binary ((if is_text f then FLAG_TEXT else 0) # e)"
    using assms(1) by (auto simp: compress_frame_def Let_def split: sum.splits)
  show ?thesis
    using decompress_compress [OF e assms(2)]
    by (cases f) (simp_all add: w decompress_frame_def flag_facts frame_len_bytes)
qed

end

section \<open>A coder that obeys the laws\<close>

text \<open>Runs of one byte are stored as their length and the byte, anything else as it is.\<close>

definition run_deflate :: deflater where
  "run_deflate l data =
     (case data of
        [] \<Rightarrow> Some [0]
      | b # _ \<Rightarrow>
          if length data < 256 \<and> list_all (\<lambda>x. x = b) data then Some [1, of_nat (length data), b]
          else Some (0 # data))"

definition run_inflate :: inflater where
  "run_inflate z n =
     (if n = 0 then Some []
      else case z of
        [] \<Rightarrow> None
      | t # r \<Rightarrow>
          if t = 0 then Some (take n r)
          else case r of [k, b] \<Rightarrow> Some (take n (replicate (unat k) b)) | _ \<Rightarrow> None)"

lemma run_inflate_deflate: "run_deflate l data = Some z \<Longrightarrow> run_inflate z n = Some (take n data)"
proof (cases data)
  case (Cons b ds)
  assume z: "run_deflate l data = Some z"
  show ?thesis
  proof (cases "length data < 256 \<and> list_all (\<lambda>x. x = b) data")
    case True
    then have "unat (of_nat (length data) :: u8) = length data"
      by (simp add: unat_of_nat)
    moreover have "replicate (length data) b = data"
      using True by (simp add: list_all_iff replicate_length_same)
    moreover have "z = [1, of_nat (length data), b]"
      using z True Cons by (simp add: run_deflate_def)
    ultimately show ?thesis
      by (simp add: run_inflate_def del: take_replicate)
  next
    case False
    with z Cons have "z = 0 # data"
      by (simp add: run_deflate_def split: if_splits)
    then show ?thesis by (simp add: run_inflate_def)
  qed
qed (auto simp: run_deflate_def run_inflate_def)

interpretation run_coder: deflate_coder run_deflate run_inflate
  by unfold_locales
    (simp_all add: run_inflate_deflate, auto simp: run_inflate_def split: if_splits list.splits)

section \<open>Properties\<close>

text \<open>C5 A frame that one compressor has encoded is restored exactly by another, whatever their levels
  and thresholds, if its length is within the receiver's limit, and refused with \<open>PayloadTooLarge\<close>
  if it is not; the envelope costs at most two bytes.\<close>

theorem compressed_frame_roundtrip:
  assumes "deflate_coder deflate inflate" "max_size (config c') \<noteq> - 1"
    and "compress_frame deflate c f = Inr w"
  shows "decompress_frame inflate c' w =
      (if unat (max_size (config c')) < frame_len f then Inl PayloadTooLarge else Inr f) \<and>
    is_binary w \<and> frame_len w \<le> frame_len f + 2"
proof -
  have "is_binary w \<and> frame_len w \<le> frame_len f + 2"
    using assms(3) deflate_coder.compress_length [OF assms(1)]
    by (fastforce simp: compress_frame_def Let_def frame_len_bytes split: sum.splits)
  with deflate_coder.decompress_frame_compress_frame [OF assms(1,3,2)] show ?thesis by blast
qed

theorem compressed_frame_roundtrip_witness:
  "(let f = Text (replicate 100 (uchr 97));
        w = Binary [0x02, 0x01, 1, 100, 97]
    in compress_frame run_deflate with_defaults f = Inr w \<and>
       decompress_frame run_inflate with_defaults w = Inr f)"
proof -
  let ?f = "Text (replicate 100 (uchr 97))" and ?w = "Binary [0x02, 0x01, 1, 100, 97]"
  have w: "compress_frame run_deflate with_defaults ?f = Inr ?w"
    by code_simp
  have "frame_len ?f = 100"
    by code_simp
  then have limit: "max_size (config with_defaults) \<noteq> - 1"
    "\<not> unat (max_size (config with_defaults)) < frame_len ?f"
    by (simp_all add: with_defaults_def compressor_new_def compression_default_def)
  have "decompress_frame run_inflate with_defaults ?w = Inr ?f"
    unfolding compressed_frame_roundtrip [OF run_coder.deflate_coder_axioms limit(1) w, THEN conjunct1]
    using limit(2) by (rule if_not_P)
  with w show ?thesis
    unfolding Let_def by (rule conjI)
qed

text \<open>C29 Decoding fails closed: whatever the coder and the input, a restored frame is within
  \<open>max_size\<close>, its envelope has known flags only, its kind is the one the text flag says and its bytes
  are the decoded payload (valid UTF-8 for a text frame); everything else is refused with
  \<open>Compression\<close> or \<open>PayloadTooLarge\<close>.\<close>

theorem decompress_frame_fails_closed:
  "case decompress_frame inflate c w of
     Inl e \<Rightarrow> e = Compression \<or> e = PayloadTooLarge
   | Inr f \<Rightarrow> frame_len f \<le> unat (max_size (config c)) \<and>
       (\<exists>flags body. into_bytes w = flags # body \<and> flags AND NOT FLAG_KNOWN = 0 \<and>
          (is_text f \<longleftrightarrow> flags AND FLAG_TEXT \<noteq> 0) \<and> decompress inflate c body = Inr (as_bytes f))"
proof -
  have bound: "decompress inflate c e = Inr out \<Longrightarrow> length out \<le> unat (max_size (config c))" for e out
    by (auto simp: decompress_def not_less split: list.splits if_splits option.splits)
  have errors: "decompress inflate c e = Inl err \<Longrightarrow> err = Compression \<or> err = PayloadTooLarge" for e err
    by (auto simp: decompress_def split: list.splits if_splits option.splits)
  show ?thesis
  proof (cases "into_bytes w")
    case (Cons flags body)
    show ?thesis
    proof (cases "flags AND NOT FLAG_KNOWN = 0")
      case True
      show ?thesis
      proof (cases "decompress inflate c body")
        case (Inr payload)
        with bound Cons True show ?thesis
          by (cases "from_utf8 payload")
            (auto simp: decompress_frame_def frame_len_bytes from_utf8_eq_Some)
      qed (use errors Cons True in \<open>simp add: decompress_frame_def\<close>)
    qed (use Cons in \<open>simp add: decompress_frame_def\<close>)
  qed (simp add: decompress_frame_def)
qed

text \<open>C36 With \<open>max_size = usize::MAX\<close>, the largest value the configuration can hold, the limit of the
  inflation wraps to zero: every frame that the peer did compress is restored, without an error, as
  an empty frame of its kind.\<close>

theorem unlimited_size_loses_payload:
  assumes "deflate_coder deflate inflate" "max_size (config c) = - 1"
    and "compress_frame deflate c' f = Inr (Binary (flags # FLAG_COMPRESSED # z))"
  shows "decompress_frame inflate c (Binary (flags # FLAG_COMPRESSED # z)) =
      Inr (if is_text f then Text [] else Binary []) \<and> 0 < frame_len f"
proof -
  note coder = deflate_coder.flag_facts [OF assms(1)] deflate_coder.inflate_nothing [OF assms(1)]
  obtain e where e: "compress deflate c' (as_bytes f) = Inr (FLAG_COMPRESSED # z)"
    and flags: "flags = (if is_text f then FLAG_TEXT else 0)"
    using assms(3) by (auto simp: compress_frame_def Let_def split: sum.splits if_splits)
  have "0 < frame_len f"
    using e coder by (auto simp: frame_len_bytes elim: deflate_coder.compress_cases [OF assms(1)])
  moreover have "decompress inflate c (FLAG_COMPRESSED # z) = Inr []"
    using assms(2) coder by (simp add: decompress_def)
  moreover have "from_utf8 [] = Some []"
    using from_utf8_str_bytes [of "[]"] by simp
  ultimately show ?thesis
    using flags coder by (simp add: decompress_frame_def)
qed

theorem unlimited_size_loses_payload_witness:
  "decompress_frame run_inflate (compressor_new (compression_default\<lparr>max_size := - 1\<rparr>))
      (Binary [0x02, FLAG_COMPRESSED, 1, 100, 97]) = Inr (Text [])"
proof -
  have "compress_frame run_deflate with_defaults (Text (replicate 100 (uchr 97))) =
      Inr (Binary [0x02, FLAG_COMPRESSED, 1, 100, 97])"
    by code_simp
  moreover have "max_size (config (compressor_new (compression_default\<lparr>max_size := - 1\<rparr>))) = - 1"
    by (simp add: compressor_new_def)
  ultimately show ?thesis
    using unlimited_size_loses_payload [OF run_coder.deflate_coder_axioms] by simp
qed

end
