(* ===== verification/Redis_Rooms.thy ===== *)
theory Redis_Rooms
  imports Room_Manager
begin

text \<open>
  \<open>src/redis_rooms.rs\<close>: rooms shared by several nodes through Redis pub/sub. A registry is the
  node's local manager, its publish connection, the channel prefix and the node id.

  The \<open>redis\<close> crate and the server are not part of the repository. The publish connection is a
  value of any type with an operation \<open>req\<close> that takes a command (the list of its arguments) and
  returns an error text or nothing; opening a client, a connection and a subscription are
  arguments too. A subscription is the list of the messages that arrive until the connection
  dies. Of a \<open>RandomState\<close> hasher only its 64-bit result matters, which is an argument.
\<close>

section \<open>Node ids and envelopes\<close>

definition DEFAULT_CHANNEL_PREFIX :: rstr where
  "DEFAULT_CHANNEL_PREFIX = lit ''ws-kit:room:''"

definition ENVELOPE_VERSION :: u8 where
  "ENVELOPE_VERSION = 1"

definition KIND_TEXT :: u8 where
  "KIND_TEXT = 0"

definition KIND_BINARY :: u8 where
  "KIND_BINARY = 1"

definition HEADER_LEN :: nat where
  "HEADER_LEN = 18"

text \<open>\<open>[u8; 16]\<close>.\<close>

typedef node_id = "{bs :: bytes. length bs = 16}" morphisms node_bytes Abs_node_id
  by (rule exI [of _ "replicate 16 0"]) simp

setup_lifting type_definition_node_id

lift_definition node_of_bytes :: "bytes \<Rightarrow> node_id" is "\<lambda>bs :: u8 list. take 16 (bs @ replicate 16 0)"
  by simp

instantiation node_id :: equal
begin

definition equal_node_id :: "node_id \<Rightarrow> node_id \<Rightarrow> bool" where
  "equal_node_id a b \<longleftrightarrow> node_bytes a = node_bytes b"

instance
  by standard (simp add: equal_node_id_def node_bytes_inject)

end

lemma length_node_bytes [simp]: "length (node_bytes n) = 16"
  using node_bytes [of n] by simp

lemma node_of_node_bytes [simp]: "node_of_bytes (node_bytes n) = n"
  by transfer simp

lemma node_bytes_of [simp]: "length bs = 16 \<Longrightarrow> node_bytes (node_of_bytes bs) = bs"
  by transfer simp

text \<open>\<open>u64::to_le_bytes\<close>.\<close>

definition to_le_bytes :: "u64 \<Rightarrow> bytes" where
  "to_le_bytes w = map (\<lambda>i. ucast (drop_bit (8 * i) w)) [0..<8]"

text \<open>\<open>hi\<close> and \<open>lo\<close> are what the two hashers return.\<close>

definition generate_node_id :: "u64 \<Rightarrow> u64 \<Rightarrow> node_id" where
  "generate_node_id hi lo = node_of_bytes (to_le_bytes hi @ to_le_bytes lo)"

definition encode_envelope :: "node_id \<Rightarrow> frame \<Rightarrow> bytes" where
  "encode_envelope nid f =
     ENVELOPE_VERSION # node_bytes nid @ (case f of Text _ \<Rightarrow> KIND_TEXT | Binary _ \<Rightarrow> KIND_BINARY) # as_bytes f"

definition decode_envelope :: "bytes \<Rightarrow> (node_id \<times> frame) res" where
  "decode_envelope bs =
     (if length bs < HEADER_LEN \<or> (case bs of [] \<Rightarrow> True | b # _ \<Rightarrow> b \<noteq> ENVELOPE_VERSION)
      then Inl InvalidMessage
      else
        let id_bytes = take 16 (drop 1 bs);
            kind = bs ! 17;
            payload = drop HEADER_LEN bs
        in if kind = KIND_TEXT then
             (case from_utf8 payload of
                None \<Rightarrow> Inl InvalidMessage
              | Some s \<Rightarrow> Inr (node_of_bytes id_bytes, Text s))
           else if kind = KIND_BINARY then Inr (node_of_bytes id_bytes, Binary payload)
           else Inl InvalidMessage)"

lemma decode_encode: "decode_envelope (encode_envelope nid f) = Inr (nid, f)"
  by (cases f) (simp_all add: decode_envelope_def encode_envelope_def HEADER_LEN_def
      KIND_TEXT_def KIND_BINARY_def nth_append)

lemma encode_decode:
  assumes "decode_envelope bs = Inr (nid, f)"
  shows "encode_envelope nid f = bs"
proof -
  have len: "18 \<le> length bs" and head: "bs \<noteq> []" "hd bs = ENVELOPE_VERSION"
    using assms by (auto simp: decode_envelope_def HEADER_LEN_def split: if_splits list.splits)
  have "nid = node_of_bytes (take 16 (drop 1 bs))"
    using assms by (auto simp: decode_envelope_def Let_def split: if_splits option.splits)
  then have nid: "node_bytes nid = take 16 (drop 1 bs)"
    using len by simp
  have f: "(case f of Text _ \<Rightarrow> KIND_TEXT | Binary _ \<Rightarrow> KIND_BINARY) = bs ! 17" "as_bytes f = drop 18 bs"
    using assms by (auto simp: decode_envelope_def Let_def HEADER_LEN_def from_utf8_eq_Some
        split: if_splits option.splits)
  have 1: "bs ! 17 # drop 18 bs = drop 17 bs"
    using Cons_nth_drop_Suc [of 17 bs] len by simp
  have "drop 16 (drop 1 bs) = drop 17 bs"
    by simp
  with append_take_drop_id [of 16 "drop 1 bs"] have 2: "take 16 (drop 1 bs) @ drop 17 bs = drop 1 bs"
    by (simp only:)
  have 3: "hd bs # drop 1 bs = bs"
    using head(1) by (cases bs) simp_all
  have "hd bs # take 16 (drop 1 bs) @ bs ! 17 # drop 18 bs = bs"
    by (simp only: 1 2 3)
  then show ?thesis
    unfolding encode_envelope_def nid f using head(2) by simp
qed

section \<open>The registry\<close>

record ('tx, 'client, 'conn) redis_registry =
  local :: "'tx manager"
  client :: 'client
  publish_conn :: 'conn
  chan_prefix :: rstr
  node_id :: node_id

text \<open>A command is the list of its arguments; the reply of \<open>PUBLISH\<close> is not looked at.\<close>

type_synonym command = "bytes list"
type_synonym 'conn requester = "'conn \<Rightarrow> command \<Rightarrow> 'conn \<times> (rstr + unit)"

definition redis_err :: "rstr \<Rightarrow> ws_error" where
  "redis_err e = Redis e"

definition from_parts ::
  "'tx manager \<Rightarrow> 'client \<Rightarrow> 'conn \<Rightarrow> rstr \<Rightarrow> u64 \<Rightarrow> u64 \<Rightarrow> ('tx, 'client, 'conn) redis_registry" where
  "from_parts m cl conn p hi lo =
     \<lparr> local = m, client = cl, publish_conn = conn, chan_prefix = p, node_id = generate_node_id hi lo \<rparr>"

definition connect_with_prefix ::
  "(rstr \<Rightarrow> rstr + 'client) \<Rightarrow> ('client \<Rightarrow> rstr + 'conn) \<Rightarrow> rstr \<Rightarrow> rstr \<Rightarrow> u64 \<Rightarrow> u64 \<Rightarrow>
   ('tx, 'client, 'conn) redis_registry res" where
  "connect_with_prefix open_client get_connection url p hi lo =
     (case open_client url of
        Inl e \<Rightarrow> Inl (redis_err e)
      | Inr cl \<Rightarrow>
          (case get_connection cl of
             Inl e \<Rightarrow> Inl (redis_err e)
           | Inr conn \<Rightarrow> Inr (from_parts manager_new cl conn p hi lo)))"

definition connect ::
  "(rstr \<Rightarrow> rstr + 'client) \<Rightarrow> ('client \<Rightarrow> rstr + 'conn) \<Rightarrow> rstr \<Rightarrow> u64 \<Rightarrow> u64 \<Rightarrow>
   ('tx, 'client, 'conn) redis_registry res" where
  "connect open_client get_connection url hi lo =
     connect_with_prefix open_client get_connection url DEFAULT_CHANNEL_PREFIX hi lo"

definition channel_name :: "rstr \<Rightarrow> ('tx, 'client, 'conn) redis_registry \<Rightarrow> rstr" where
  "channel_name rid reg = chan_prefix reg @ rid"

definition room_id_from_channel :: "rstr \<Rightarrow> ('tx, 'client, 'conn) redis_registry \<Rightarrow> rstr option" where
  "room_id_from_channel channel reg = strip_prefix (chan_prefix reg) channel"

definition publish ::
  "'conn requester \<Rightarrow> frame \<Rightarrow> rstr \<Rightarrow> ('tx, 'client, 'conn) redis_registry \<Rightarrow>
   ('tx, 'client, 'conn) redis_registry \<times> unit res" where
  "publish req f rid reg =
     (let envelope = encode_envelope (node_id reg) f;
          cmd = [str_bytes (lit ''PUBLISH''), str_bytes (channel_name rid reg), envelope]
      in case req (publish_conn reg) cmd of
           (conn, Inl e) \<Rightarrow> (reg\<lparr>publish_conn := conn\<rparr>, Inl (redis_err e))
         | (conn, Inr _) \<Rightarrow> (reg\<lparr>publish_conn := conn\<rparr>, Inr ()))"

definition redis_broadcast ::
  "'tx frame_channel \<Rightarrow> 'conn requester \<Rightarrow> rstr \<Rightarrow> frame \<Rightarrow> ('tx, 'client, 'conn) redis_registry \<Rightarrow>
   (('tx, 'client, 'conn) redis_registry \<times> nat res) run" where
  "redis_broadcast ch req rid f reg =
     (case get_or_create ch rid (local reg) of
        None \<Rightarrow> None
      | Some (m, a) \<Rightarrow>
          (case broadcast_at ch a f m of
             (m, r) \<Rightarrow>
               let reg = reg\<lparr>local := m\<rparr>;
                   local_n = (case r of Inr n \<Rightarrow> Inr n | Inl e \<Rightarrow> if e = BroadcastFull then Inr 0 else Inl e)
               in Some (case local_n of
                    Inl e \<Rightarrow> (reg, Inl e)
                  | Inr n \<Rightarrow>
                      (case publish req f rid reg of
                         (reg, Inl e) \<Rightarrow> (reg, Inl e)
                       | (reg, Inr _) \<Rightarrow> (reg, Inr n)))))"

definition apply_remote ::
  "'tx frame_channel \<Rightarrow> rstr \<Rightarrow> bytes \<Rightarrow> ('tx, 'client, 'conn) redis_registry \<Rightarrow>
   ('tx, 'client, 'conn) redis_registry \<times> nat option res" where
  "apply_remote ch rid envelope reg =
     (case decode_envelope envelope of
        Inl e \<Rightarrow> (reg, Inl e)
      | Inr (publisher, f) \<Rightarrow>
          if publisher = node_id reg then (reg, Inr None)
          else
            (case manager_get rid (local reg) of
               None \<Rightarrow> (reg, Inr None)
             | Some a \<Rightarrow>
                 (case broadcast_at ch a f (local reg) of
                    (m, r) \<Rightarrow>
                      (reg\<lparr>local := m\<rparr>,
                       case r of
                         Inr n \<Rightarrow> Inr (Some n)
                       | Inl e \<Rightarrow> if e = BroadcastFull then Inr None else Inl e))))"

text \<open>One message of the subscription; its result is ignored.\<close>

definition on_message ::
  "'tx frame_channel \<Rightarrow> rstr \<times> bytes \<Rightarrow> ('tx, 'client, 'conn) redis_registry \<Rightarrow> ('tx, 'client, 'conn) redis_registry" where
  "on_message ch msg reg =
     (case room_id_from_channel (fst msg) reg of
        None \<Rightarrow> reg
      | Some rid \<Rightarrow> fst (apply_remote ch rid (snd msg) reg))"

text \<open>
  \<open>get_async_pubsub\<close> of the client gives an error or a subscription connection, here what
  \<open>psubscribe\<close> of a pattern gives on it: an error or the messages up to the end of the stream.
\<close>

definition run_subscriber ::
  "'tx frame_channel \<Rightarrow> ('client \<Rightarrow> rstr + (rstr \<Rightarrow> rstr + (rstr \<times> bytes) list)) \<Rightarrow>
   ('tx, 'client, 'conn) redis_registry \<Rightarrow>
   ('tx, 'client, 'conn) redis_registry \<times> unit res" where
  "run_subscriber ch get_async_pubsub reg =
     (case get_async_pubsub (client reg) of
        Inl e \<Rightarrow> (reg, Inl (redis_err e))
      | Inr psubscribe \<Rightarrow>
          (case psubscribe (chan_prefix reg @ lit ''*'') of
             Inl e \<Rightarrow> (reg, Inl (redis_err e))
           | Inr msgs \<Rightarrow> (fold (on_message ch) msgs reg, Inl Closed)))"

text \<open>The trait, delegated to the local manager.\<close>

definition on_local :: "('tx manager \<Rightarrow> 'tx manager \<times> 'r) \<Rightarrow> ('tx, 'client, 'conn) redis_registry \<Rightarrow>
    ('tx, 'client, 'conn) redis_registry \<times> 'r" where
  "on_local f reg = (case f (local reg) of (m, r) \<Rightarrow> (reg\<lparr>local := m\<rparr>, r))"

definition redis_room_registry :: "'tx frame_channel \<Rightarrow> ('tx, 'client, 'conn) redis_registry registry" where
  "redis_room_registry ch =
     \<lparr> reg_get_or_create = (\<lambda>rid reg.
         case get_or_create ch rid (local reg) of
           None \<Rightarrow> None | Some (m, a) \<Rightarrow> Some (reg\<lparr>local := m\<rparr>, a)),
       reg_get = (\<lambda>rid reg. manager_get rid (local reg)),
       reg_remove = (\<lambda>rid. on_local (manager_remove rid)),
       reg_room_count = (\<lambda>reg. room_count (local reg)),
       reg_room_ids = (\<lambda>reg. room_ids (local reg)),
       reg_total_participants = (\<lambda>reg. total_participants (local reg)),
       reg_cleanup = on_local (cleanup ch),
       reg_cleanup_empty = on_local cleanup_empty \<rparr>"

section \<open>The registry implements the trait\<close>

definition reg_ok :: "('tx, 'client, 'conn) redis_registry \<Rightarrow> bool" where
  "reg_ok reg \<longleftrightarrow> manager_ok (local reg)"

definition reg_members :: "('tx, 'client, 'conn) redis_registry \<Rightarrow> nat \<Rightarrow> nat" where
  "reg_members reg = mgr_members (local reg)"

definition reg_idle :: "'tx frame_channel \<Rightarrow> ('tx, 'client, 'conn) redis_registry \<Rightarrow> nat \<Rightarrow> bool" where
  "reg_idle ch reg = mgr_idle ch (local reg)"

lemmas registry_defs = redis_room_registry_def manager_registry_def on_local_def reg_ok_def
  reg_members_def reg_idle_def

sublocale frame_channel \<subseteq> redis: room_registry "redis_room_registry ch" reg_ok reg_members "reg_idle ch"
proof (unfold_locales, goal_cases)
  case (1 s)
  show ?case using mgr.ids_get [of "local s"] by (simp add: registry_defs)
next
  case (2 s)
  show ?case using mgr.ids_distinct [of "local s"] by (simp add: registry_defs)
next
  case (3 s)
  show ?case using mgr.count_ids [of "local s"] by (simp add: registry_defs)
next
  case (4 s)
  show ?case using mgr.total_members [of "local s"] by (simp add: registry_defs)
next
  case (5 rid s a)
  then show ?case using mgr.get_existing [of rid "local s" a] by (simp add: registry_defs)
next
  case (6 s rid s' a q)
  then show ?case
    using mgr.create_get [of "local s" rid "local s'" a q] by (auto simp: registry_defs split: option.splits)
next
  case (7 s rid s' a)
  then show ?case
    using mgr.create_ok [of "local s" rid "local s'" a] by (auto simp: registry_defs split: option.splits)
next
  case (8 s rid s' a q)
  then show ?case
    using mgr.create_fresh [of "local s" rid "local s'" a q] by (auto simp: registry_defs split: option.splits)
next
  case (9 s rid s' a q b)
  then show ?case
    using mgr.create_others [of "local s" rid "local s'" a q b]
    by (auto simp: registry_defs split: option.splits)
next
  case (10 s rid s' r q)
  then show ?case
    using mgr.remove_get [of "local s" rid "local s'" r q] by (auto simp: registry_defs split: prod.splits)
next
  case (11 s s' n q)
  then show ?case
    using mgr.cleanup_get [of "local s" "local s'" n q]
    by (auto simp: registry_defs split: prod.splits option.splits)
next
  case (12 s s' n q)
  then show ?case
    using mgr.cleanup_empty_get [of "local s" "local s'" n q]
    by (auto simp: registry_defs split: prod.splits option.splits)
next
  case (13 s a)
  then show ?case using mgr.idle_members [of "local s" a] by (simp add: registry_defs)
qed

interpretation ref_redis: room_registry "redis_room_registry ref_channel" reg_ok reg_members
    "reg_idle ref_channel"
  by (rule ref_frames.redis.room_registry_axioms)

section \<open>Messages of the subscription\<close>

text \<open>What a message means for one room: the frame, if it is for this room's channel, well-formed
  and not the node's own.\<close>

definition remote_frame :: "rstr \<Rightarrow> node_id \<Rightarrow> rstr \<Rightarrow> rstr \<times> bytes \<Rightarrow> frame option" where
  "remote_frame p nid rid msg =
     (if strip_prefix p (fst msg) = Some rid then
        case decode_envelope (snd msg) of
          Inl _ \<Rightarrow> None
        | Inr (publisher, f) \<Rightarrow> if publisher = nid then None else Some f
      else None)"

lemma broadcast_at_simps:
  "rooms (fst (broadcast_at ch a f m)) = rooms m"
  "length (heap (fst (broadcast_at ch a f m))) = length (heap m)"
  "b \<noteq> a \<Longrightarrow> heap (fst (broadcast_at ch a f m)) ! b = heap m ! b"
  by (simp_all add: broadcast_at_def split_def)

lemma manager_ok_broadcast [wf_intros]: "manager_ok m \<Longrightarrow> manager_ok (fst (broadcast_at ch a f m))"
  by (simp add: manager_ok_def broadcast_at_simps)

lemma apply_remote_keeps:
  "rooms (local (fst (apply_remote ch rid e reg))) = rooms (local reg) \<and>
   chan_prefix (fst (apply_remote ch rid e reg)) = chan_prefix reg \<and>
   node_id (fst (apply_remote ch rid e reg)) = node_id reg \<and>
   publish_conn (fst (apply_remote ch rid e reg)) = publish_conn reg \<and>
   (manager_ok (local reg) \<longrightarrow> manager_ok (local (fst (apply_remote ch rid e reg))))"
  by (auto simp: apply_remote_def split_def broadcast_at_simps manager_ok_broadcast
      split: sum.split option.split)

lemma on_message_keeps:
  "rooms (local (on_message ch msg reg)) = rooms (local reg) \<and>
   chan_prefix (on_message ch msg reg) = chan_prefix reg \<and> node_id (on_message ch msg reg) = node_id reg \<and>
   publish_conn (on_message ch msg reg) = publish_conn reg \<and>
   (manager_ok (local reg) \<longrightarrow> manager_ok (local (on_message ch msg reg)))"
  by (simp add: on_message_def apply_remote_keeps split: option.split)

context frame_channel
begin

lemma broadcast_at_inbox:
  "a < length (heap m) \<Longrightarrow>
   inbox (room_tx (heap (fst (broadcast_at ch a f m)) ! a)) rx =
     (if rx \<in> live (room_tx (heap m ! a)) then inbox (room_tx (heap m ! a)) rx @ [f]
      else inbox (room_tx (heap m ! a)) rx)"
  "a < length (heap m) \<Longrightarrow> live (room_tx (heap (fst (broadcast_at ch a f m)) ! a)) = live (room_tx (heap m ! a))"
  using room_broadcast_inbox [of f "heap m ! a" "recorders m"]
  by (simp_all add: broadcast_at_def split_def)

lemma broadcast_at_result:
  "snd (broadcast_at ch a f m) =
     (let n = room_receiver_count ch (heap m ! a) in if n = 0 then Inl BroadcastFull else Inr n)"
  by (simp add: broadcast_at_def split_def room_broadcast_result Let_def)

lemma on_message_inbox:
  assumes "manager_ok (local reg)" "manager_get rid (local reg) = Some a"
    and "rx \<in> live (room_tx (heap (local reg) ! a))"
  shows "rx \<in> live (room_tx (heap (local (on_message ch msg reg)) ! a)) \<and>
    inbox (room_tx (heap (local (on_message ch msg reg)) ! a)) rx =
      inbox (room_tx (heap (local reg) ! a)) rx @
      (case remote_frame (chan_prefix reg) (node_id reg) rid msg of Some f \<Rightarrow> [f] | None \<Rightarrow> [])"
proof -
  let ?m = "local reg"
  have a: "a < length (heap ?m)"
    using assms(1,2) by (auto simp: manager_ok_lookup manager_get_def)
  show ?thesis
  proof (cases "strip_prefix (chan_prefix reg) (fst msg)")
    case None
    with assms(3) show ?thesis
      by (simp add: on_message_def room_id_from_channel_def remote_frame_def)
  next
    case (Some q)
    have on: "on_message ch msg reg = fst (apply_remote ch q (snd msg) reg)"
      using Some by (simp add: on_message_def room_id_from_channel_def)
    show ?thesis
    proof (cases "decode_envelope (snd msg)")
      case (Inl e)
      with Some assms(3) show ?thesis
        by (simp add: on apply_remote_def remote_frame_def)
    next
      case (Inr pf)
      obtain p f where pf: "pf = (p, f)" by (cases pf)
      consider (own) "p = node_id reg" | (absent) "p \<noteq> node_id reg" "manager_get q ?m = None"
        | (other) b where "p \<noteq> node_id reg" "manager_get q ?m = Some b" "q \<noteq> rid"
        | (this) "p \<noteq> node_id reg" "q = rid"
        by (cases "manager_get q ?m") auto
      then show ?thesis
      proof cases
        case own
        with Some Inr pf assms(3) show ?thesis
          by (simp add: on apply_remote_def remote_frame_def)
      next
        case absent
        with Some Inr pf assms(2,3) show ?thesis
          by (auto simp: on apply_remote_def remote_frame_def)
      next
        case other
        then have "b \<noteq> a"
          using assms(1,2) by (auto simp: manager_ok_lookup manager_get_def)
        with other Some Inr pf assms(3) show ?thesis
          by (simp add: on apply_remote_def remote_frame_def split_def broadcast_at_simps)
      next
        case this
        with Some Inr pf assms(2,3) show ?thesis
          by (simp add: on apply_remote_def remote_frame_def split_def broadcast_at_inbox [OF a])
      qed
    qed
  qed
qed

lemma on_messages_inbox:
  assumes "manager_ok (local reg)" "manager_get rid (local reg) = Some a"
    and "rx \<in> live (room_tx (heap (local reg) ! a))"
  shows "inbox (room_tx (heap (local (fold (on_message ch) msgs reg)) ! a)) rx =
      inbox (room_tx (heap (local reg) ! a)) rx @
      List.map_filter (remote_frame (chan_prefix reg) (node_id reg) rid) msgs"
  using assms
proof (induction msgs arbitrary: reg)
  case (Cons msg msgs)
  note keep = on_message_keeps [of ch msg reg]
  have "manager_get rid (local (on_message ch msg reg)) = Some a"
    using keep Cons.prems(2) by (simp add: manager_get_def)
  with Cons.IH [of "on_message ch msg reg"] keep Cons.prems(1) on_message_inbox [OF Cons.prems]
  show ?case
    by (simp add: map_filter_simps split: option.split)
qed (simp add: map_filter_simps)

end

section \<open>Channels and broadcasts\<close>

lemma room_of_channel: "room_id_from_channel c reg = Some rid \<longleftrightarrow> c = channel_name rid reg"
  by (simp add: room_id_from_channel_def channel_name_def strip_prefix_Some)

lemma channel_no_room: "room_id_from_channel c reg = None \<longleftrightarrow> (\<nexists>rid. c = channel_name rid reg)"
  using room_of_channel [of c reg] by (metis not_None_eq)

definition publish_command :: "rstr \<Rightarrow> frame \<Rightarrow> ('tx, 'client, 'conn) redis_registry \<Rightarrow> command" where
  "publish_command rid f reg =
     [str_bytes (lit ''PUBLISH''), str_bytes (channel_name rid reg), encode_envelope (node_id reg) f]"

lemma publish_simps:
  "local (fst (publish req f rid reg)) = local reg"
  "chan_prefix (fst (publish req f rid reg)) = chan_prefix reg" "node_id (fst (publish req f rid reg)) = node_id reg"
  "publish_conn (fst (publish req f rid reg)) = fst (req (publish_conn reg) (publish_command rid f reg))"
  "snd (publish req f rid reg) =
     (case snd (req (publish_conn reg) (publish_command rid f reg)) of Inl e \<Rightarrow> Inl (Redis e) | Inr _ \<Rightarrow> Inr ())"
  by (auto simp: publish_def publish_command_def redis_err_def Let_def split: prod.split sum.split)

context frame_channel
begin

lemma redis_broadcast_effect:
  assumes "redis_broadcast ch req rid f reg = Some (reg', res)"
    and "get_or_create ch rid (local reg) = Some (m, a)"
  shows "local reg' = fst (broadcast_at ch a f m) \<and> chan_prefix reg' = chan_prefix reg \<and> node_id reg' = node_id reg \<and>
    publish_conn reg' = fst (req (publish_conn reg) (publish_command rid f reg)) \<and>
    res = (case snd (req (publish_conn reg) (publish_command rid f reg)) of
             Inl e \<Rightarrow> Inl (Redis e) | Inr _ \<Rightarrow> Inr (room_receiver_count ch (heap m ! a)))"
proof -
  let ?n = "room_receiver_count ch (heap m ! a)"
  obtain m1 where at: "broadcast_at ch a f m = (m1, if ?n = 0 then Inl BroadcastFull else Inr ?n)"
    using broadcast_at_result [of a f m] by (cases "broadcast_at ch a f m") (simp add: Let_def)
  let ?reg = "reg\<lparr>local := m1\<rparr>"
  have cmd: "publish_command rid f ?reg = publish_command rid f reg"
    by (simp add: publish_command_def channel_name_def)
  have "redis_broadcast ch req rid f reg =
      Some (case publish req f rid ?reg of (reg, Inl e) \<Rightarrow> (reg, Inl e) | (reg, Inr _) \<Rightarrow> (reg, Inr ?n))"
    unfolding redis_broadcast_def assms(2) option.case prod.case at Let_def
    by (cases "?n = 0") (simp_all split: prod.split sum.split)
  with assms(1) have "reg' = fst (publish req f rid ?reg)"
    "res = (case snd (publish req f rid ?reg) of Inl e \<Rightarrow> Inl e | Inr _ \<Rightarrow> Inr ?n)"
    by (auto split: prod.splits sum.splits)
  then show ?thesis
    by (simp add: publish_simps cmd at split: sum.split)
qed

end

text \<open>A node for the witnesses: one hosted room with one receiver, and a connection that keeps a log of
  its commands.\<close>

definition log_command :: "command list requester" where
  "log_command log cmd = (log @ [cmd], Inr ())"

definition one_node :: "(frame ref_tx, unit, command list) redis_registry" where
  "one_node = from_parts
     \<lparr> rooms = DAList.update (lit ''a'') 0 DAList.empty, default_capacity = 16, mgr_rec = None,
       heap = [\<lparr> room_id = lit ''a'', room_tx = \<lparr> next_rx = 1, rx_queues = [(0, [])] \<rparr>,
                  participants = DAList.empty, room_rec = None \<rparr>],
       recorders = [] \<rparr> () [] DEFAULT_CHANNEL_PREFIX 1 2"

lemma one_node_ok: "manager_ok (local one_node)" "manager_get (lit ''a'') (local one_node) = Some 0"
  by (auto simp: one_node_def from_parts_def manager_ok_lookup manager_get_def lookup_update split: if_splits)

section \<open>Properties\<close>

text \<open>C24 The envelope codec is exact: a byte sequence decodes to a publisher and a frame if and only if
  it is the encoding of that publisher and that frame, so encoding round-trips, two different
  messages never share an encoding, and everything else is refused.\<close>

theorem envelope_exact:
  "decode_envelope bs = Inr (nid, f) \<longleftrightarrow> bs = encode_envelope nid f"
  using decode_encode encode_decode by blast

text \<open>C13 The subscriber loop delivers to every receiver of a hosted room, in the order of arrival,
  exactly the well-formed frames on that room's channel that another node published: malformed
  envelopes, other channels and the node's own echoes are dropped. It creates no room and ends with
  \<open>Closed\<close> when the stream does.\<close>

theorem subscriber_delivers:
  assumes "frame_channel ch live inbox drop_rx" "manager_ok (local reg)"
    and "manager_get rid (local reg) = Some a" "rx \<in> live (room_tx (heap (local reg) ! a))"
    and "get_async_pubsub (client reg) = Inr psubscribe" "psubscribe (chan_prefix reg @ lit ''*'') = Inr msgs"
    and "run_subscriber ch get_async_pubsub reg = (reg', res)"
  shows "inbox (room_tx (heap (local reg') ! a)) rx =
      inbox (room_tx (heap (local reg) ! a)) rx @
      List.map_filter (remote_frame (chan_prefix reg) (node_id reg) rid) msgs \<and>
    rooms (local reg') = rooms (local reg) \<and> res = Inl Closed"
proof -
  have run: "reg' = fold (on_message ch) msgs reg" "res = Inl Closed"
    using assms(5-7) by (simp_all add: run_subscriber_def)
  have "rooms (local (fold (on_message ch) ms r)) = rooms (local r)" for ms r
    by (induction ms arbitrary: r) (simp_all add: on_message_keeps)
  with frame_channel.on_messages_inbox [OF assms(1-4), of msgs] run show ?thesis
    by simp
qed

theorem subscriber_delivers_witness:
  "(let msgs = [(lit ''ws-kit:room:a'', encode_envelope (generate_node_id 3 4) (Text (lit ''x''))),
                (lit ''ws-kit:room:a'', encode_envelope (node_id one_node) (Text (lit ''echo''))),
                (lit ''ws-kit:room:b'', encode_envelope (generate_node_id 3 4) (Text (lit ''y''))),
                (lit ''ws-kit:room:a'', [1, 2, 3]),
                (lit ''ws-kit:room:a'', encode_envelope (generate_node_id 3 4) (Binary [0]))]
    in ref_inbox (room_tx (heap (local (fst (run_subscriber ref_channel (\<lambda>_. Inr (\<lambda>_. Inr msgs)) one_node))) ! 0)) 0
       = [Text (lit ''x''), Binary [0]])"
proof -
  have live: "0 \<in> ref_live (room_tx (heap (local one_node) ! 0))"
    and empty: "ref_inbox (room_tx (heap (local one_node) ! 0)) 0 = []"
    by (simp_all add: one_node_def from_parts_def ref_live_def ref_inbox_def)
  note del = subscriber_delivers [OF ref_frames.frame_channel_axioms one_node_ok live refl refl prod.collapse [symmetric],
      THEN conjunct1, unfolded empty]
  show ?thesis
    unfolding Let_def by (rule del [THEN trans]) code_simp
qed

text \<open>C38 A fleet broadcast delivers to the local room first, whatever Redis answers, then publishes
  exactly one command, with this node's envelope on the room's channel; it returns the number of
  local receivers, zero included, or the Redis error.\<close>

theorem redis_broadcast_publishes_once:
  assumes "frame_channel ch live inbox drop_rx"
    and "get_or_create ch rid (local reg) = Some (m, a)"
    and "redis_broadcast ch req rid f reg = Some (reg', res)"
  shows "local reg' = fst (broadcast_at ch a f m) \<and>
    publish_conn reg' = fst (req (publish_conn reg)
      [str_bytes (lit ''PUBLISH''), str_bytes (chan_prefix reg @ rid), encode_envelope (node_id reg) f]) \<and>
    res = (case snd (req (publish_conn reg)
        [str_bytes (lit ''PUBLISH''), str_bytes (chan_prefix reg @ rid), encode_envelope (node_id reg) f])
      of Inl e \<Rightarrow> Inl (Redis e) | Inr _ \<Rightarrow> Inr (room_receiver_count ch (heap m ! a)))"
  using frame_channel.redis_broadcast_effect [OF assms(1,3,2)]
  by (simp add: publish_command_def channel_name_def)

theorem redis_broadcast_publishes_once_witness:
  "\<exists>reg'. redis_broadcast ref_channel log_command (lit ''a'') (Text (lit ''x'')) one_node = Some (reg', Inr 1) \<and>
     publish_conn reg' = [[str_bytes (lit ''PUBLISH''), str_bytes (lit ''ws-kit:room:a''),
       encode_envelope (node_id one_node) (Text (lit ''x''))]]"
proof -
  have get: "get_or_create ref_channel (lit ''a'') (local one_node) = Some (local one_node, 0)"
    using one_node_ok(2) by (simp add: get_or_create_def get_or_create_with_capacity_def manager_get_def)
  have "redis_broadcast ref_channel log_command (lit ''a'') (Text (lit ''x'')) one_node \<noteq> None"
    using get by (cases "broadcast_at ref_channel 0 (Text (lit ''x'')) (local one_node)")
      (simp add: redis_broadcast_def Let_def)
  then obtain reg' res where b: "redis_broadcast ref_channel log_command (lit ''a'') (Text (lit ''x'')) one_node =
      Some (reg', res)"
    by auto
  have "room_receiver_count ref_channel (heap (local one_node) ! 0) = 1" "publish_conn one_node = []"
    "chan_prefix one_node @ lit ''a'' = lit ''ws-kit:room:a''"
    by (simp_all add: one_node_def from_parts_def room_receiver_count_def ref_channel_def ref_count_def
        DEFAULT_CHANNEL_PREFIX_def)
  with redis_broadcast_publishes_once [OF ref_frames.frame_channel_axioms get b] b show ?thesis
    by (simp add: log_command_def del: str_bytes_append)
qed

text \<open>C37 A registry reads back the room id of its own channel names; a registry with another prefix
  ignores all of them exactly when neither prefix is an initial part of the other. Prefixes that
  merely differ do not separate two deployments.\<close>

theorem prefixes_isolate_iff:
  "room_id_from_channel (channel_name rid reg) reg = Some rid \<and>
   ((\<forall>rid. room_id_from_channel (channel_name rid reg') reg = None) \<longleftrightarrow>
     \<not> (prefix (chan_prefix reg) (chan_prefix reg') \<or> prefix (chan_prefix reg') (chan_prefix reg)))"
proof (rule conjI)
  show "room_id_from_channel (channel_name rid reg) reg = Some rid"
    by (simp add: room_of_channel)
  have "(\<exists>rid q. chan_prefix reg' @ rid = chan_prefix reg @ q) \<longleftrightarrow>
      prefix (chan_prefix reg) (chan_prefix reg') \<or> prefix (chan_prefix reg') (chan_prefix reg)"
    using common_extension [of "chan_prefix reg'" "chan_prefix reg"] .
  then show "(\<forall>rid. room_id_from_channel (channel_name rid reg') reg = None) \<longleftrightarrow>
     \<not> (prefix (chan_prefix reg) (chan_prefix reg') \<or> prefix (chan_prefix reg') (chan_prefix reg))"
    by (auto simp: channel_no_room channel_name_def)
qed

end
