(* ===== verification/Redis_Fleet.thy ===== *)
theory Redis_Fleet
  imports Redis_Rooms Manager_Invariant
begin

text \<open>
  Several nodes on one Redis server: the delivery semantics that the documentation of
  \<open>src/redis_rooms.rs\<close> states. A broadcast awaits the publish connection after the local delivery,
  so it takes two steps of its node, and anything may happen in between. The server appends a
  published message to what is on its way to each node whose subscription pattern matches, or
  refuses the command; a message on its way may be lost. Besides, the clients of each node use its local
  manager and rooms. A schedule is a list of events, and a run
  computes the state after it.
\<close>

section \<open>Nodes, server and schedules\<close>

text \<open>\<open>broadcast\<close> up to its only await point.\<close>

definition broadcast_local ::
  "'tx frame_channel \<Rightarrow> rstr \<Rightarrow> frame \<Rightarrow> ('tx, 'client, 'conn) redis_registry \<Rightarrow>
   (('tx, 'client, 'conn) redis_registry \<times> nat res) run" where
  "broadcast_local ch rid f reg =
     (case get_or_create ch rid (local reg) of
        None \<Rightarrow> None
      | Some (m, a) \<Rightarrow>
          (case broadcast_at ch a f m of
             (m, r) \<Rightarrow>
               Some (reg\<lparr>local := m\<rparr>,
                 case r of Inr n \<Rightarrow> Inr n | Inl e \<Rightarrow> if e = BroadcastFull then Inr 0 else Inl e)))"

lemma redis_broadcast_split:
  "redis_broadcast ch req rid f reg =
     map_option (\<lambda>(reg, r).
       case r of
         Inl e \<Rightarrow> (reg, Inl e)
       | Inr n \<Rightarrow> (case publish req f rid reg of (reg, Inl e) \<Rightarrow> (reg, Inl e) | (reg, Inr _) \<Rightarrow> (reg, Inr n)))
     (broadcast_local ch rid f reg)"
  by (simp add: redis_broadcast_def broadcast_local_def Let_def split: option.split prod.split)

text \<open>
  The server is an argument: \<open>srv_req\<close> sends a command over a connection, \<open>srv_log\<close> are the commands
  of a connection that the server carried out, \<open>srv_route\<close> is the message a command makes it send
  and \<open>srv_glob\<close> its pattern matching. The locale states what is documented of them: a command is
  carried out once, or not at all and then the caller sees an error (an error can also mean that the
  reply was lost); \<open>PUBLISH\<close> sends its payload on its channel; the pattern \<open>p*\<close> matches what starts
  with \<open>p\<close>, when \<open>p\<close> has no special character.
\<close>

record 'conn redis_server =
  srv_req :: "'conn requester"
  srv_log :: "'conn \<Rightarrow> command list"
  srv_route :: "command \<Rightarrow> (rstr \<times> bytes) option"
  srv_glob :: "rstr \<Rightarrow> rstr \<Rightarrow> bool"

locale redis_bus =
  fixes S :: "'conn redis_server" and P :: rstr
  assumes carried_out: "srv_req S conn cmd = (conn', r) \<Longrightarrow>
      srv_log S conn' = srv_log S conn @ [cmd] \<or> srv_log S conn' = srv_log S conn \<and> (\<exists>e. r = Inl e)"
    and routed: "srv_route S [str_bytes (lit ''PUBLISH''), str_bytes s, payload] = Some (s, payload)"
    and star: "srv_glob S (P @ lit ''*'') c \<longleftrightarrow> prefix P c"

type_synonym ('tx, 'client, 'conn) node = "('tx, 'client, 'conn) redis_registry"

record ('tx, 'client, 'conn) fleet =
  nodes :: "('tx, 'client, 'conn) node list"
  in_flight :: "(nat \<times> rstr \<times> frame) list"
  arriving :: "(rstr \<times> bytes) list list"
  answered :: "(nat \<times> rstr \<times> frame \<times> unit res) list"
    \<comment> \<open>the broadcasts that have returned, with what \<open>publish\<close> gave (an error, or the local count)\<close>

datatype event =
    Start nat rstr frame
  | Publish nat rstr frame bool
  | Deliver nat
  | Lose nat nat
  | Local nat room_op

definition send_to_matching ::
  "'conn redis_server \<Rightarrow> ('tx, 'client, 'conn) node list \<Rightarrow> rstr \<times> bytes \<Rightarrow>
   (rstr \<times> bytes) list list \<Rightarrow> (rstr \<times> bytes) list list" where
  "send_to_matching S regs msg queues =
     map2 (\<lambda>reg q. if srv_glob S (chan_prefix reg @ lit ''*'') (fst msg) then q @ [msg] else q) regs queues"

definition start_step ::
  "'tx frame_channel \<Rightarrow> nat \<Rightarrow> rstr \<Rightarrow> frame \<Rightarrow> ('tx, 'client, 'conn) fleet \<Rightarrow> ('tx, 'client, 'conn) fleet option" where
  "start_step ch i rid f w =
     (if i < length (nodes w) then
        case broadcast_local ch rid f (nodes w ! i) of
          None \<Rightarrow> None
        | Some (reg, Inl _) \<Rightarrow> Some (w\<lparr>nodes := (nodes w)[i := reg]\<rparr>)
        | Some (reg, Inr _) \<Rightarrow>
            Some (w\<lparr>nodes := (nodes w)[i := reg], in_flight := in_flight w @ [(i, rid, f)]\<rparr>)
      else None)"

definition publish_step ::
  "'conn redis_server \<Rightarrow> nat \<Rightarrow> rstr \<Rightarrow> frame \<Rightarrow> bool \<Rightarrow> ('tx, 'client, 'conn) fleet \<Rightarrow> ('tx, 'client, 'conn) fleet option" where
  "publish_step S i rid f up w =
     (if (i, rid, f) \<in> set (in_flight w) \<and> i < length (nodes w) then
        case publish (srv_req S) f rid (nodes w ! i) of
          (reg, res) \<Rightarrow>
            let accepted = drop (length (srv_log S (publish_conn (nodes w ! i)))) (srv_log S (publish_conn reg))
            in if up \<longleftrightarrow> accepted \<noteq> [] then
                 Some (w\<lparr>nodes := (nodes w)[i := reg], in_flight := remove1 (i, rid, f) (in_flight w),
                   arriving := fold (send_to_matching S (nodes w)) (List.map_filter (srv_route S) accepted)
                     (arriving w), answered := answered w @ [(i, rid, f, res)]\<rparr>)
               else None
      else None)"

definition deliver_step :: "'tx frame_channel \<Rightarrow> nat \<Rightarrow> ('tx, 'client, 'conn) fleet \<Rightarrow> ('tx, 'client, 'conn) fleet option" where
  "deliver_step ch j w =
     (if j < length (nodes w) \<and> j < length (arriving w) then
        case arriving w ! j of
          [] \<Rightarrow> None
        | msg # rest \<Rightarrow>
            Some (w\<lparr>nodes := (nodes w)[j := on_message ch msg (nodes w ! j)], arriving := (arriving w)[j := rest]\<rparr>)
      else None)"

definition lose_step :: "nat \<Rightarrow> nat \<Rightarrow> ('tx, 'client, 'conn) fleet \<Rightarrow> ('tx, 'client, 'conn) fleet option" where
  "lose_step j k w =
     (if j < length (arriving w) \<and> k < length (arriving w ! j) then
        Some (w\<lparr>arriving := (arriving w)[j := take k (arriving w ! j) @ drop (Suc k) (arriving w ! j)]\<rparr>)
      else None)"

text \<open>Any operation of \<open>local()\<close> and of the rooms it hands out.\<close>

definition local_step ::
  "'tx frame_channel \<Rightarrow> (nat \<Rightarrow> 'tx \<Rightarrow> 'tx) \<Rightarrow> nat \<Rightarrow> room_op \<Rightarrow> ('tx, 'client, 'conn) fleet \<Rightarrow>
   ('tx, 'client, 'conn) fleet option" where
  "local_step ch dr i op w =
     (if i < length (nodes w) then
        Some (w\<lparr>nodes := (nodes w)[i := (nodes w ! i)\<lparr>local := room_step ch dr op (local (nodes w ! i))\<rparr>]\<rparr>)
      else None)"

primrec fleet_step ::
  "'conn redis_server \<Rightarrow> 'tx frame_channel \<Rightarrow> (nat \<Rightarrow> 'tx \<Rightarrow> 'tx) \<Rightarrow> event \<Rightarrow> ('tx, 'client, 'conn) fleet \<Rightarrow> ('tx, 'client, 'conn) fleet option" where
  "fleet_step S ch dr (Start i rid f) w = start_step ch i rid f w"
| "fleet_step S ch dr (Publish i rid f up) w = publish_step S i rid f up w"
| "fleet_step S ch dr (Deliver j) w = deliver_step ch j w"
| "fleet_step S ch dr (Lose j k) w = lose_step j k w"
| "fleet_step S ch dr (Local i op) w = local_step ch dr i op w"

primrec fleet_run ::
  "'conn redis_server \<Rightarrow> 'tx frame_channel \<Rightarrow> (nat \<Rightarrow> 'tx \<Rightarrow> 'tx) \<Rightarrow> event list \<Rightarrow> ('tx, 'client, 'conn) fleet \<Rightarrow> ('tx, 'client, 'conn) fleet option" where
  "fleet_run S ch dr [] w = Some w"
| "fleet_run S ch dr (e # es) w = Option.bind (fleet_step S ch dr e w) (fleet_run S ch dr es)"

lemma fleet_run_snoc:
  "fleet_run S ch dr (es @ [e]) w = Option.bind (fleet_run S ch dr es w) (fleet_step S ch dr e)"
  by (induction es arbitrary: w) (simp_all split: Option.bind_split)

text \<open>What a schedule does: the frames whose broadcast a node starts, those the server accepts, and
  all accepted messages in order.\<close>

definition started :: "nat \<Rightarrow> rstr \<Rightarrow> event list \<Rightarrow> frame list" where
  "started i rid = List.map_filter (\<lambda>e.
     case e of Start k q f \<Rightarrow> if k = i \<and> q = rid then Some f else None | _ \<Rightarrow> None)"

text \<open>What is broadcast on the node itself to the room \<open>rid\<close>, stored at \<open>a\<close>: across the fleet, or by
  \<open>Room::broadcast\<close> for this node only.\<close>

definition own :: "nat \<Rightarrow> rstr \<Rightarrow> nat \<Rightarrow> event list \<Rightarrow> frame list" where
  "own j rid a = List.map_filter (\<lambda>e.
     case e of
       Start k q f \<Rightarrow> if k = j \<and> q = rid then Some f else None
     | Local k (BroadcastRoom b f) \<Rightarrow> if k = j \<and> b = a then Some f else None
     | _ \<Rightarrow> None)"

definition bus :: "event list \<Rightarrow> (nat \<times> rstr \<times> frame) list" where
  "bus = List.map_filter (\<lambda>e.
     case e of Publish k q f up \<Rightarrow> if up then Some (k, q, f) else None | _ \<Rightarrow> None)"

definition of_room :: "nat \<Rightarrow> rstr \<Rightarrow> (nat \<times> rstr \<times> frame) list \<Rightarrow> frame list" where
  "of_room i rid = List.map_filter (\<lambda>(k, q, f). if k = i \<and> q = rid then Some f else None)"

definition of_publisher :: "nat \<Rightarrow> (nat \<times> frame) list \<Rightarrow> frame list" where
  "of_publisher i = List.map_filter (\<lambda>(k, f). if k = i then Some f else None)"

definition published :: "nat \<Rightarrow> rstr \<Rightarrow> event list \<Rightarrow> frame list" where
  "published i rid es = of_room i rid (bus es)"

lemma map_filter_append: "List.map_filter g (xs @ ys) = List.map_filter g xs @ List.map_filter g ys"
  by (simp add: List.map_filter_def)

lemma subseq_map_filter: "subseq xs ys \<Longrightarrow> subseq (List.map_filter g xs) (List.map_filter g ys)"
  by (simp add: List.map_filter_def subseq_map subseq_filter)

lemmas history_defs = started_def own_def bus_def of_room_def of_publisher_def published_def

lemma started_append: "started i rid (xs @ ys) = started i rid xs @ started i rid ys"
  by (simp add: started_def map_filter_append)

lemma started_snoc [simp]:
  "started i rid (es @ [e]) =
     started i rid es @ (case e of Start k q f \<Rightarrow> if k = i \<and> q = rid then [f] else [] | _ \<Rightarrow> [])"
  by (cases e) (simp_all add: started_def map_filter_append)

lemma own_append: "own j rid a (xs @ ys) = own j rid a xs @ own j rid a ys"
  by (simp add: own_def map_filter_append)

lemma own_single [simp]:
  "own j rid a [Start k q f] = (if k = j \<and> q = rid then [f] else [])"
  "own j rid a [Publish k q f up] = []" "own j rid a [Deliver k] = []" "own j rid a [Lose k n] = []"
  "own j rid a [Local k op] =
     (if k = j then case op of BroadcastRoom b f \<Rightarrow> if b = a then [f] else [] | _ \<Rightarrow> [] else [])"
  by (simp_all add: own_def map_filter_simps split: room_op.split)

lemma own_snoc [simp]: "own j rid a (es @ [e]) = own j rid a es @ own j rid a [e]"
  by (rule own_append)

lemma bus_snoc [simp]:
  "bus (es @ [e]) = bus es @ (case e of Publish k q f up \<Rightarrow> if up then [(k, q, f)] else [] | _ \<Rightarrow> [])"
  by (cases e) (simp_all add: bus_def map_filter_append)

lemma of_room_simps [simp]:
  "of_room i rid [] = []" "of_room i rid (xs @ ys) = of_room i rid xs @ of_room i rid ys"
  "of_room i rid ((k, q, f) # xs) = (if k = i \<and> q = rid then f # of_room i rid xs else of_room i rid xs)"
  by (simp_all add: of_room_def map_filter_append)

lemma of_publisher_simps [simp]:
  "of_publisher i [] = []" "of_publisher i (xs @ ys) = of_publisher i xs @ of_publisher i ys"
  "of_publisher i ((k, f) # xs) = (if k = i then f # of_publisher i xs else of_publisher i xs)"
  by (simp_all add: of_publisher_def map_filter_append)

section \<open>One receiver at one node\<close>

text \<open>The receiver \<open>rx\<close> is subscribed to the hosted room \<open>rid\<close> at \<open>a\<close>; \<open>box\<close> is what was sent to it.\<close>

definition hosted ::
  "('tx \<Rightarrow> nat set) \<Rightarrow> rstr \<Rightarrow> nat \<Rightarrow> nat \<Rightarrow> ('tx, 'client, 'conn) redis_registry \<Rightarrow> bool" where
  "hosted live rid a rx reg \<longleftrightarrow> manager_ok (local reg) \<and> manager_get rid (local reg) = Some a \<and>
     rx \<in> live (room_tx (heap (local reg) ! a))"

definition box ::
  "('tx \<Rightarrow> nat \<Rightarrow> frame list) \<Rightarrow> nat \<Rightarrow> nat \<Rightarrow> ('tx, 'client, 'conn) redis_registry \<Rightarrow> frame list" where
  "box inbox a rx reg = inbox (room_tx (heap (local reg) ! a)) rx"

text \<open>Local operations that leave the receiver its room: they do not remove the room by name, do not sweep
  rooms that have receivers only, and do not close the receiver.\<close>

fun keeps_receiver :: "rstr \<Rightarrow> nat \<Rightarrow> nat \<Rightarrow> room_op \<Rightarrow> bool" where
  "keeps_receiver rid a rx (Remove q) \<longleftrightarrow> q \<noteq> rid"
| "keeps_receiver rid a rx CleanupEmpty \<longleftrightarrow> False"
| "keeps_receiver rid a rx (Close b r) \<longleftrightarrow> b \<noteq> a \<or> r \<noteq> rx"
| "keeps_receiver rid a rx _ \<longleftrightarrow> True"

lemma get_or_create_keeps:
  assumes "manager_ok m" "get_or_create ch q m = Some (m', b)" "manager_get rid m = Some a"
  shows "manager_get rid m' = Some a \<and> heap m' ! a = heap m ! a \<and> b < length (heap m') \<and> a < length (heap m') \<and>
    (b = a \<longleftrightarrow> q = rid)"
proof -
  have less: "manager_get k m = Some c \<Longrightarrow> c < length (heap m)" for k c
    using assms(1) by (simp add: manager_ok_lookup manager_get_def)
  have inj: "manager_get k m = Some c \<Longrightarrow> manager_get k' m = Some c \<Longrightarrow> k = k'" for k k' c
    using assms(1) unfolding manager_ok_lookup manager_get_def by blast
  from assms(2) show ?thesis
    unfolding get_or_create_def
  proof (cases rule: get_or_create_cases)
    case present
    with less inj assms(3) show ?thesis by auto
  next
    case (created r)
    moreover have "q \<noteq> rid" using created(1) assms(3) by auto
    ultimately show ?thesis
      using less [OF assms(3)] assms(3) by (auto simp: nth_append manager_get_def lookup_update)
  qed
qed

context frame_channel
begin

lemma manager_ok_create: "manager_ok m \<Longrightarrow> get_or_create ch q m = Some (m', b) \<Longrightarrow> manager_ok m'"
  using mgr.create_ok [of m q m' b] by (simp add: manager_registry_def)

lemma start_receives:
  assumes "hosted live rid a rx reg" "broadcast_local ch q f reg = Some (reg', res)"
  shows "hosted live rid a rx reg' \<and>
    box inbox a rx reg' = box inbox a rx reg @ (if q = rid then [f] else [])"
proof -
  obtain m b where g: "get_or_create ch q (local reg) = Some (m, b)"
    and reg': "local reg' = fst (broadcast_at ch b f m)"
    using assms(2) by (auto simp: broadcast_local_def split: option.splits prod.splits)
  have ok: "manager_ok (local reg)" and at: "manager_get rid (local reg) = Some a"
    and live: "rx \<in> live (room_tx (heap (local reg) ! a))"
    using assms(1) by (simp_all add: hosted_def)
  note keep = get_or_create_keeps [OF ok g at]
  have "manager_ok (local reg')"
    unfolding reg' by (rule manager_ok_broadcast [OF manager_ok_create [OF ok g]])
  moreover have "manager_get rid (local reg') = Some a"
    using keep by (simp add: reg' manager_get_def broadcast_at_simps)
  ultimately show ?thesis
    using keep live broadcast_at_inbox [of b m f] broadcast_at_simps(3) [of a b ch f m]
    by (cases "b = a") (simp_all add: hosted_def box_def reg')
qed

lemma publish_receives:
  "hosted live rid a rx (fst (publish req f q reg)) = hosted live rid a rx reg"
  "box inbox a rx (fst (publish req f q reg)) = box inbox a rx reg"
  by (simp_all add: hosted_def box_def publish_simps)

lemma local_receives:
  assumes "hosted live rid a rx reg" "keeps_receiver rid a rx op"
  shows "hosted live rid a rx (reg\<lparr>local := room_step ch drop_rx op (local reg)\<rparr>) \<and>
    box inbox a rx (reg\<lparr>local := room_step ch drop_rx op (local reg)\<rparr>) = box inbox a rx reg @
      (case op of BroadcastRoom b f \<Rightarrow> if b = a then [f] else [] | _ \<Rightarrow> [])"
proof -
  let ?m = "local reg"
  have ok: "manager_ok ?m" and at: "manager_get rid ?m = Some a"
    and live: "rx \<in> live (room_tx (heap ?m ! a))"
    using assms(1) by (simp_all add: hosted_def)
  have a: "a < length (heap ?m)"
    using ok at by (simp add: manager_ok_lookup manager_get_def)
  have "manager_get rid (room_step ch drop_rx op ?m) = Some a \<and>
    rx \<in> live (room_tx (heap (room_step ch drop_rx op ?m) ! a)) \<and>
    inbox (room_tx (heap (room_step ch drop_rx op ?m) ! a)) rx = inbox (room_tx (heap ?m ! a)) rx @
      (case op of BroadcastRoom b f \<Rightarrow> if b = a then [f] else [] | _ \<Rightarrow> [])"
  proof (cases op)
    case (GetOrCreate q)
    with live a at show ?thesis
      by (auto simp: get_or_create_def manager_get_def lookup_update nth_append
          elim!: get_or_create_cases split: option.split)
  next
    case (GetOrCreateWith q c)
    with live a at show ?thesis
      by (auto simp: manager_get_def lookup_update nth_append elim!: get_or_create_cases split: option.split)
  next
    case (Remove q)
    with live at assms(2) show ?thesis
      by (auto simp: manager_remove_def manager_get_def lookup_delete Let_def)
  next
    case Cleanup
    have "\<not> room_is_empty ch (heap ?m ! a)"
      using live by (auto simp: room_is_empty_iff room_receiver_count_def count_zero)
    with Cleanup live at show ?thesis
      by (auto simp: cleanup_def manager_get_def in_entries_iff)
  next
    case CleanupEmpty
    with assms(2) show ?thesis by simp
  next
    case (JoinRoom b q name)
    with live at a show ?thesis
      by (cases "b = a") (simp_all add: on_room_at_def manager_get_def room_join_def)
  next
    case (LeaveRoom b q)
    with live at a show ?thesis
      by (cases "b = a") (simp_all add: on_room_at_def manager_get_def room_leave_def)
  next
    case (SubscribeRoom b)
    with live at a subscribe_fresh [of "room_tx (heap ?m ! a)"] show ?thesis
      by (cases "b = a") (auto simp: on_room_at_def manager_get_def room_subscribe_def split_def
          subscribe_live subscribe_inbox)
  next
    case (BroadcastRoom b f)
    with live at a broadcast_at_inbox [of b ?m f] broadcast_at_simps [where m = ?m and ch = ch] show ?thesis
      by (cases "b = a") (simp_all add: manager_get_def)
  next
    case (Close b r)
    with live at a assms(2) show ?thesis
      by (cases "b = a") (simp_all add: on_room_at_def manager_get_def drop_live drop_inbox)
  qed
  with ok_step [OF ok] show ?thesis
    by (simp add: hosted_def box_def)
qed

lemma message_receives:
  assumes "hosted live rid a rx reg"
  shows "hosted live rid a rx (on_message ch msg reg) \<and>
    box inbox a rx (on_message ch msg reg) = box inbox a rx reg @
      (case remote_frame (chan_prefix reg) (node_id reg) rid msg of Some f \<Rightarrow> [f] | None \<Rightarrow> [])"
  using assms on_message_keeps [of ch msg reg] on_message_inbox [of reg rid a rx msg]
  by (auto simp: hosted_def box_def manager_get_def)

end

section \<open>Invariant of a run\<close>

definition message :: "rstr \<Rightarrow> ('tx, 'client, 'conn) fleet \<Rightarrow> nat \<times> rstr \<times> frame \<Rightarrow> rstr \<times> bytes" where
  "message P w0 = (\<lambda>(i, q, f). (P @ q, encode_envelope (node_id (nodes w0 ! i)) f))"

definition same_fleet :: "rstr \<Rightarrow> ('tx, 'client, 'conn) fleet \<Rightarrow> ('tx, 'client, 'conn) fleet \<Rightarrow> bool" where
  "same_fleet P w0 w \<longleftrightarrow> length (nodes w) = length (nodes w0) \<and> length (arriving w) = length (nodes w0) \<and>
     (\<forall>i < length (nodes w0). chan_prefix (nodes w ! i) = P \<and> node_id (nodes w ! i) = node_id (nodes w0 ! i))"

text \<open>A fleet at rest: one prefix, different node ids, nothing on its way.\<close>

definition fleet_start :: "rstr \<Rightarrow> ('tx, 'client, 'conn) fleet \<Rightarrow> bool" where
  "fleet_start P w \<longleftrightarrow> list_all (\<lambda>reg. chan_prefix reg = P) (nodes w) \<and> distinct (map node_id (nodes w)) \<and>
     in_flight w = [] \<and> arriving w = replicate (length (nodes w)) [] \<and> answered w = []"

text \<open>\<open>got\<close> is what the receiver got and from whom, \<open>del\<close> the messages its node has taken from the
  server and \<open>pend\<close> those on their way.\<close>

definition traffic ::
  "rstr \<Rightarrow> ('tx, 'client, 'conn) fleet \<Rightarrow> nat \<Rightarrow> rstr \<Rightarrow> nat \<Rightarrow> event list \<Rightarrow> ('tx, 'client, 'conn) fleet \<Rightarrow>
   (nat \<times> frame) list \<Rightarrow> (nat \<times> rstr \<times> frame) list \<Rightarrow> (nat \<times> rstr \<times> frame) list \<Rightarrow> bool" where
  "traffic P w0 j rid a es w got del pend \<longleftrightarrow>
     arriving w ! j = map (message P w0) pend \<and> list_all (\<lambda>(i, _). i < length (nodes w0)) pend \<and>
     subseq (del @ pend) (bus es) \<and> ((\<forall>k. Lose j k \<notin> set es) \<longrightarrow> del @ pend = bus es) \<and>
     (\<forall>i. of_publisher i got = (if i = j then own j rid a es else of_room i rid del))"

context redis_bus
begin

lemma publish_accepted:
  assumes "accepted = drop (length (srv_log S (publish_conn reg)))
    (srv_log S (publish_conn (fst (publish (srv_req S) f q reg))))"
  shows "List.map_filter (srv_route S) accepted =
     (if accepted \<noteq> [] then [(chan_prefix reg @ q, encode_envelope (node_id reg) f)] else [])"
proof -
  let ?r = "srv_req S (publish_conn reg) (publish_command q f reg)"
  have "accepted = [publish_command q f reg] \<or> accepted = []"
    using carried_out [of "publish_conn reg" "publish_command q f reg" "fst ?r" "snd ?r"]
    unfolding assms by (auto simp: publish_simps)
  then show ?thesis
    using routed [of "channel_name q reg" "encode_envelope (node_id reg) f"]
    by (auto simp: publish_command_def channel_name_def map_filter_simps)
qed

lemma send_to_all:
  assumes "length regs = length queues"
    and "\<And>i. i < length queues \<Longrightarrow> chan_prefix (regs ! i) = P" "prefix P (fst msg)"
  shows "send_to_matching S regs msg queues = map (\<lambda>q. q @ [msg]) queues"
  using assms star [of "fst msg"] by (intro nth_equalityI) (simp_all add: send_to_matching_def)

lemma publish_cases:
  assumes "publish_step S i q f up w = Some w'" "same_fleet P w0 w"
  shows "i < length (nodes w0)" "(i, q, f) \<in> set (in_flight w)" "in_flight w' = remove1 (i, q, f) (in_flight w)"
    "nodes w' = (nodes w)[i := fst (publish (srv_req S) f q (nodes w ! i))]"
    "arriving w' = (if up then map (\<lambda>qu. qu @ [message P w0 (i, q, f)]) (arriving w) else arriving w)"
    "answered w' = answered w @ [(i, q, f, snd (publish (srv_req S) f q (nodes w ! i)))]"
proof -
  from assms(1) show "answered w' = answered w @ [(i, q, f, snd (publish (srv_req S) f q (nodes w ! i)))]"
    by (auto simp: publish_step_def Let_def split: if_splits prod.splits)
  from assms(1) show "(i, q, f) \<in> set (in_flight w)" "in_flight w' = remove1 (i, q, f) (in_flight w)"
    "nodes w' = (nodes w)[i := fst (publish (srv_req S) f q (nodes w ! i))]"
    by (auto simp: publish_step_def Let_def split: if_splits prod.splits)
  from assms(1,2) show i: "i < length (nodes w0)"
    by (auto simp: publish_step_def same_fleet_def split: if_splits)
  define accepted where "accepted = drop (length (srv_log S (publish_conn (nodes w ! i))))
    (srv_log S (publish_conn (fst (publish (srv_req S) f q (nodes w ! i)))))"
  have "up \<longleftrightarrow> accepted \<noteq> []"
    "arriving w' = fold (send_to_matching S (nodes w)) (List.map_filter (srv_route S) accepted) (arriving w)"
    using assms(1) unfolding accepted_def
    by (auto simp: publish_step_def Let_def split: if_splits prod.splits)
  then show "arriving w' = (if up then map (\<lambda>qu. qu @ [message P w0 (i, q, f)]) (arriving w) else arriving w)"
    using assms(2) i send_to_all [of "nodes w" "arriving w" "message P w0 (i, q, f)"]
    unfolding publish_accepted [OF accepted_def]
    by (simp add: same_fleet_def message_def)
qed

lemma publish_logged:
  assumes "publish_step S i q f up w = Some w'" "same_fleet P w0 w"
  shows "srv_log S (publish_conn (nodes w' ! i)) = srv_log S (publish_conn (nodes w ! i)) @
      (if up then [publish_command q f (nodes w ! i)] else [])"
    "\<not> up \<Longrightarrow> \<exists>e. snd (publish (srv_req S) f q (nodes w ! i)) = Inl e \<and>
      (\<exists>e. snd (srv_req S (publish_conn (nodes w ! i)) (publish_command q f (nodes w ! i))) = Inl e)"
proof -
  let ?reg = "nodes w ! i"
  let ?r = "srv_req S (publish_conn ?reg) (publish_command q f ?reg)"
  have i: "i < length (nodes w)"
    and up: "up \<longleftrightarrow> drop (length (srv_log S (publish_conn ?reg))) (srv_log S (fst ?r)) \<noteq> []"
    using assms(1) publish_simps(4) [of "srv_req S" f q ?reg]
    by (auto simp: publish_step_def Let_def split: if_splits prod.splits)
  have new: "nodes w' ! i = fst (publish (srv_req S) f q ?reg)"
    using publish_cases(4) [OF assms] i by simp
  have "srv_log S (fst ?r) = srv_log S (publish_conn ?reg) @ [publish_command q f ?reg] \<or>
      srv_log S (fst ?r) = srv_log S (publish_conn ?reg) \<and> (\<exists>e. snd ?r = Inl e)"
    using carried_out [of "publish_conn ?reg" "publish_command q f ?reg" "fst ?r" "snd ?r"] by simp
  then show "srv_log S (publish_conn (nodes w' ! i)) = srv_log S (publish_conn ?reg) @
      (if up then [publish_command q f ?reg] else [])"
    "\<not> up \<Longrightarrow> \<exists>e. snd (publish (srv_req S) f q ?reg) = Inl e \<and> (\<exists>e. snd ?r = Inl e)"
    using up unfolding new by (auto simp: publish_simps)
qed

end

lemma broadcast_local_keeps:
  "broadcast_local ch q f reg = Some (reg', res) \<Longrightarrow>
   chan_prefix reg' = chan_prefix reg \<and> node_id reg' = node_id reg \<and> publish_conn reg' = publish_conn reg"
  by (auto simp: broadcast_local_def split: option.splits prod.splits)

lemma start_cases:
  assumes "start_step ch i q f w = Some w'"
  obtains reg res where "i < length (nodes w)" "broadcast_local ch q f (nodes w ! i) = Some (reg, res)"
    "nodes w' = (nodes w)[i := reg]" "arriving w' = arriving w"
  using assms by (auto simp: start_step_def split: if_splits option.splits prod.splits sum.splits)

lemma deliver_cases:
  assumes "deliver_step ch k w = Some w'"
  obtains msg rest where "k < length (nodes w)" "k < length (arriving w)" "arriving w ! k = msg # rest"
    "nodes w' = (nodes w)[k := on_message ch msg (nodes w ! k)]" "arriving w' = (arriving w)[k := rest]"
    "in_flight w' = in_flight w"
  using assms by (auto simp: deliver_step_def split: if_splits list.splits)

lemma lose_cases:
  assumes "lose_step l k w = Some w'"
  shows "nodes w' = nodes w" "in_flight w' = in_flight w" "l < length (arriving w)" "k < length (arriving w ! l)"
    "arriving w' = (arriving w)[l := take k (arriving w ! l) @ drop (Suc k) (arriving w ! l)]"
  using assms by (auto simp: lose_step_def split: if_splits)

lemma same_fleet_step:
  assumes "same_fleet P w0 w" "fleet_step S ch dr e w = Some w'"
    and "redis_bus S P"
  shows "same_fleet P w0 w'"
proof (cases e)
  case (Start i q f)
  with assms(2) have "start_step ch i q f w = Some w'" by simp
  then show ?thesis
    using assms(1) by (auto simp: same_fleet_def nth_list_update elim!: start_cases dest: broadcast_local_keeps)
next
  case (Publish i q f up)
  with assms(2) have "publish_step S i q f up w = Some w'" by simp
  from redis_bus.publish_cases [OF assms(3) this assms(1)] show ?thesis
    using assms(1) by (simp add: same_fleet_def nth_list_update publish_simps)
next
  case (Deliver k)
  with assms(2) have "deliver_step ch k w = Some w'" by simp
  then show ?thesis
    using assms(1) by (auto simp: same_fleet_def nth_list_update on_message_keeps elim!: deliver_cases)
next
  case (Lose l k)
  with assms(2) have "lose_step l k w = Some w'" by simp
  from lose_cases [OF this] show ?thesis
    using assms(1) by (simp add: same_fleet_def)
next
  case (Local i op)
  with assms(1,2) show ?thesis
    by (auto simp: same_fleet_def local_step_def nth_list_update split: if_splits)
qed

lemma remote_message:
  assumes "distinct (map node_id (nodes w0))" "i < length (nodes w0)" "j < length (nodes w0)"
  shows "remote_frame P (node_id (nodes w0 ! j)) rid (message P w0 (i, q, f)) =
    (if q = rid \<and> i \<noteq> j then Some f else None)"
proof -
  have "node_id (nodes w0 ! i) = node_id (nodes w0 ! j) \<longleftrightarrow> i = j"
    using nth_eq_iff_index_eq [OF assms(1), of i j] assms(2,3) by simp
  then show ?thesis
    by (simp add: remote_frame_def message_def decode_encode)
qed

lemma traffic_published:
  assumes "traffic P w0 j rid a es w got del pend"
    and "arriving w' ! j = (if up then arriving w ! j @ [message P w0 (i, q, f)] else arriving w ! j)"
    and "i < length (nodes w0)"
  shows "traffic P w0 j rid a (es @ [Publish i q f up]) w' got del (if up then pend @ [(i, q, f)] else pend)"
  using assms by (auto simp: traffic_def simp flip: append_assoc intro: list_emb_append_mono)

lemma subseq_drop_nth: "subseq (take k xs @ drop (Suc k) xs) xs"
proof -
  have "subseq (drop 1 (drop k xs)) (drop k xs)"
    by (rule suffix_imp_subseq [OF suffix_drop])
  then have "subseq (take k xs @ drop (Suc k) xs) (take k xs @ drop k xs)"
    by (intro list_emb_append_mono) simp_all
  then show ?thesis by simp
qed

lemma traffic_lost:
  assumes "traffic P w0 j rid a es w got del pend" "k < length (arriving w ! j)"
    and "arriving w' ! j = take k (arriving w ! j) @ drop (Suc k) (arriving w ! j)"
  shows "traffic P w0 j rid a (es @ [Lose j k]) w' got del (take k pend @ drop (Suc k) pend)"
proof -
  have "subseq (del @ take k pend @ drop (Suc k) pend) (bus es)"
    using assms(1) subseq_drop_nth [of k pend] unfolding traffic_def
    by (meson list_emb_append_mono subseq_order.order_refl subseq_order.trans)
  with assms show ?thesis
    by (auto simp: traffic_def take_map drop_map list_all_iff dest: in_set_takeD in_set_dropD)
qed

lemma traffic_delivered:
  assumes "traffic P w0 j rid a es w got del pend" "arriving w ! j = msg # rest" "arriving w' ! j = rest"
  obtains i q f pend' where "pend = (i, q, f) # pend'" "msg = message P w0 (i, q, f)" "i < length (nodes w0)"
    "traffic P w0 j rid a (es @ [Deliver j]) w' (got @ (if q = rid \<and> i \<noteq> j then [(i, f)] else []))
       (del @ [(i, q, f)]) pend'"
proof -
  from assms(1,2) obtain m pend' where pend: "pend = m # pend'" "msg = message P w0 m"
      "rest = map (message P w0) pend'"
    by (auto simp: traffic_def)
  obtain i q f where m: "m = (i, q, f)" by (cases m)
  show thesis
    by (rule that [of i q f pend']) (use assms pend m in \<open>auto simp: traffic_def\<close>)
qed

lemma traffic_other:
  assumes "traffic P w0 j rid a es w got del pend" "arriving w' ! j = arriving w ! j"
    and "\<And>k. e \<noteq> Lose j k" "\<And>i q f up. e \<noteq> Publish i q f up"
    and "\<And>i. of_publisher i new = (if i = j then own j rid a [e] else [])"
  shows "traffic P w0 j rid a (es @ [e]) w' (got @ new) del pend"
  using assms by (cases e) (auto simp: traffic_def own_append)

context frame_channel
begin

lemma fleet_receives_step:
  assumes same: "same_fleet P w0 w" and bus: "redis_bus S P" and ids: "distinct (map node_id (nodes w0))"
    and j: "j < length (nodes w0)" and tr: "traffic P w0 j rid a es w got del pend"
    and host: "hosted live rid a rx (nodes w ! j)" and step: "fleet_step S ch drop_rx e w = Some w'"
    and keeps: "\<forall>op. e = Local j op \<longrightarrow> keeps_receiver rid a rx op"
  shows "\<exists>new del' pend'. traffic P w0 j rid a (es @ [e]) w' (got @ new) del' pend' \<and>
    hosted live rid a rx (nodes w' ! j) \<and> box inbox a rx (nodes w' ! j) = box inbox a rx (nodes w ! j) @ map snd new"
proof -
  have jw: "j < length (nodes w)" "j < length (arriving w)" using same j by (simp_all add: same_fleet_def)
  show ?thesis
  proof (cases e)
    case (Start i q f)
    with step have "start_step ch i q f w = Some w'" by simp
    then obtain reg res where s: "i < length (nodes w)" "broadcast_local ch q f (nodes w ! i) = Some (reg, res)"
      "nodes w' = (nodes w)[i := reg]" "arriving w' = arriving w" by (rule start_cases)
    let ?new = "if i = j \<and> q = rid then [(j, f)] else []"
    have "traffic P w0 j rid a (es @ [e]) w' (got @ ?new) del pend"
      by (rule traffic_other [OF tr]) (auto simp: s(4) Start own_single)
    moreover have "hosted live rid a rx (nodes w' ! j) \<and>
        box inbox a rx (nodes w' ! j) = box inbox a rx (nodes w ! j) @ map snd ?new"
      using start_receives [OF host, of q f reg res] host s jw by (cases "i = j") simp_all
    ultimately show ?thesis by blast
  next
    case (Publish i q f up)
    with step have "publish_step S i q f up w = Some w'" by simp
    note p = redis_bus.publish_cases [OF bus this same]
    have "traffic P w0 j rid a (es @ [e]) w' (got @ []) del (if up then pend @ [(i, q, f)] else pend)"
      using traffic_published [OF tr _ p(1), of w' up q f] by (simp add: p(5) jw Publish)
    moreover have "hosted live rid a rx (nodes w' ! j) \<and>
        box inbox a rx (nodes w' ! j) = box inbox a rx (nodes w ! j) @ map snd []"
      using host p(4) jw by (cases "i = j") (simp_all add: publish_receives)
    ultimately show ?thesis by blast
  next
    case (Deliver k)
    with step have "deliver_step ch k w = Some w'" by simp
    then obtain msg rest where d: "k < length (arriving w)" "arriving w ! k = msg # rest"
      "nodes w' = (nodes w)[k := on_message ch msg (nodes w ! k)]" "arriving w' = (arriving w)[k := rest]"
      by (rule deliver_cases)
    show ?thesis
    proof (cases "k = j")
      case True
      with d jw have "arriving w ! j = msg # rest" "arriving w' ! j = rest" by simp_all
      from traffic_delivered [OF tr this] obtain i q f pend' where m: "msg = message P w0 (i, q, f)"
        "i < length (nodes w0)" and tr': "traffic P w0 j rid a (es @ [Deliver j]) w'
          (got @ (if q = rid \<and> i \<noteq> j then [(i, f)] else [])) (del @ [(i, q, f)]) pend'" .
      have "remote_frame (chan_prefix (nodes w ! j)) (node_id (nodes w ! j)) rid msg =
          (if q = rid \<and> i \<noteq> j then Some f else None)"
        using remote_message [OF ids m(2) j] same j unfolding m(1) by (simp add: same_fleet_def)
      with message_receives [OF host, of msg] tr' show ?thesis
        unfolding Deliver True d(3) using jw by (intro exI conjI) (assumption | simp)+
    next
      case False
      have "traffic P w0 j rid a (es @ [e]) w' (got @ []) del pend"
        by (rule traffic_other [OF tr]) (use False in \<open>auto simp: d(4) Deliver own_single\<close>)
      moreover have "nodes w' ! j = nodes w ! j" using False d(3) by simp
      ultimately show ?thesis using host by (metis append_Nil2 list.map(1))
    qed
  next
    case (Lose l k)
    with step have "lose_step l k w = Some w'" by simp
    note l = lose_cases [OF this]
    have "\<exists>pend'. traffic P w0 j rid a (es @ [e]) w' (got @ []) del pend'"
    proof (cases "l = j")
      case True
      with traffic_lost [OF tr, of k w'] l jw Lose show ?thesis by auto
    next
      case False
      then have "traffic P w0 j rid a (es @ [e]) w' (got @ []) del pend"
        by (intro traffic_other [OF tr]) (auto simp: l(5) Lose own_single)
      then show ?thesis ..
    qed
    with host l(1) show ?thesis by (metis append_Nil2 list.map(1))
  next
    case (Local i op)
    with step have i: "i < length (nodes w)"
      and w': "w' = w\<lparr>nodes := (nodes w)[i := (nodes w ! i)\<lparr>local := room_step ch drop_rx op (local (nodes w ! i))\<rparr>]\<rparr>"
      by (simp_all add: local_step_def split: if_splits)
    let ?new = "map (Pair j) (own j rid a [e])"
    have "of_publisher i ?new = (if i = j then own j rid a [e] else [])" for i
      by (simp add: of_publisher_def List.map_filter_def comp_def)
    then have "traffic P w0 j rid a (es @ [e]) w' (got @ ?new) del pend"
      by (intro traffic_other [OF tr]) (simp_all add: w' Local)
    moreover have "hosted live rid a rx (nodes w' ! j) \<and>
        box inbox a rx (nodes w' ! j) = box inbox a rx (nodes w ! j) @ map snd ?new"
      using local_receives [OF host, of op] keeps host i jw Local
      by (cases "i = j") (simp_all add: w' own_single comp_def)
    ultimately show ?thesis by blast
  qed
qed

lemma fleet_receives:
  assumes bus: "redis_bus S P" and start: "fleet_start P w0" and j: "j < length (nodes w0)"
    and host: "hosted live rid a rx (nodes w0 ! j)" and run: "fleet_run S ch drop_rx es w0 = Some w"
    and keeps: "\<forall>op. Local j op \<in> set es \<longrightarrow> keeps_receiver rid a rx op"
  shows "same_fleet P w0 w \<and> hosted live rid a rx (nodes w ! j) \<and>
    (\<exists>got del pend. traffic P w0 j rid a es w got del pend \<and>
       box inbox a rx (nodes w ! j) = box inbox a rx (nodes w0 ! j) @ map snd got)"
  using run keeps
proof (induction es arbitrary: w rule: rev_induct)
  case Nil
  have "traffic P w0 j rid a [] w0 [] [] []"
    using start j by (simp add: traffic_def fleet_start_def history_defs map_filter_simps)
  with Nil start host show ?case
    by (auto simp: same_fleet_def fleet_start_def list_all_length)
next
  case (snoc e es)
  from snoc.prems(1) obtain v where run: "fleet_run S ch drop_rx es w0 = Some v" and step: "fleet_step S ch drop_rx e v = Some w"
    by (auto simp: fleet_run_snoc bind_eq_Some_conv)
  have keep: "\<forall>op. Local j op \<in> set es \<longrightarrow> keeps_receiver rid a rx op"
    "\<forall>op. e = Local j op \<longrightarrow> keeps_receiver rid a rx op"
    using snoc.prems(2) by simp_all
  from snoc.IH [OF run keep(1)] obtain got del pend where v: "same_fleet P w0 v" "hosted live rid a rx (nodes v ! j)"
    "traffic P w0 j rid a es v got del pend"
    "box inbox a rx (nodes v ! j) = box inbox a rx (nodes w0 ! j) @ map snd got" by blast
  have ids: "distinct (map node_id (nodes w0))" using start by (simp add: fleet_start_def)
  from fleet_receives_step [OF v(1) bus ids j v(3,2) step keep(2)] same_fleet_step [OF v(1) step bus] v(4)
  show ?case by (metis append_assoc map_append)
qed

end

lemma traffic_result:
  assumes "traffic P w0 j rid a es w got del pend"
  shows "of_publisher j got = own j rid a es \<and>
    (\<forall>i. i \<noteq> j \<longrightarrow> subseq (of_publisher i got) (published i rid es) \<and>
       ((\<forall>k. Lose j k \<notin> set es) \<and> arriving w ! j = [] \<longrightarrow> of_publisher i got = published i rid es))"
proof -
  from assms have "subseq del (bus es)"
    unfolding traffic_def by (meson list_emb_append2 subseq_order.order_refl subseq_order.trans subseq_rev_drop_many)
  then have "subseq (of_room i rid del) (published i rid es)" for i
    unfolding published_def of_room_def by (rule subseq_map_filter)
  with assms show ?thesis
    by (auto simp: traffic_def published_def)
qed

section \<open>What is on its way can be delivered\<close>

lemma deliver_all:
  assumes "j < length (nodes w)" "j < length (arriving w)"
  shows "\<exists>w'. fleet_run S ch dr (replicate (length (arriving w ! j)) (Deliver j)) w = Some w' \<and> arriving w' ! j = []"
  using assms
proof (induction "arriving w ! j" arbitrary: w)
  case Nil
  then show ?case by simp
next
  case (Cons msg q)
  let ?v = "w\<lparr>nodes := (nodes w)[j := on_message ch msg (nodes w ! j)], arriving := (arriving w)[j := q]\<rparr>"
  have step: "fleet_step S ch dr (Deliver j) w = Some ?v"
    using Cons.hyps(2) [symmetric] Cons.prems by (simp add: deliver_step_def)
  have "arriving ?v ! j = q" using Cons.prems by simp
  with Cons.hyps(1) [of ?v] Cons.prems step show ?case
    unfolding Cons.hyps(2) [symmetric] by simp
qed

lemma fleet_run_append:
  "fleet_run S ch dr (es @ fs) w = Option.bind (fleet_run S ch dr es w) (fleet_run S ch dr fs)"
  by (induction es arbitrary: w) (simp_all split: Option.bind_split)

lemma published_deliveries [simp]:
  "published i rid (es @ replicate n (Deliver j)) = published i rid es"
  "own k rid a (es @ replicate n (Deliver j)) = own k rid a es"
  by (induction n) (simp_all add: published_def own_append bus_def own_def map_filter_append
      map_filter_simps flip: replicate_append_same append_assoc)

section \<open>Every broadcast is published at most once\<close>

definition refused :: "nat \<Rightarrow> rstr \<Rightarrow> event list \<Rightarrow> frame list" where
  "refused i rid = List.map_filter (\<lambda>e.
     case e of Publish k q f up \<Rightarrow> if \<not> up \<and> k = i \<and> q = rid then Some f else None | _ \<Rightarrow> None)"

lemma refused_snoc [simp]:
  "refused i rid (es @ [e]) = refused i rid es @
     (case e of Publish k q f up \<Rightarrow> if \<not> up \<and> k = i \<and> q = rid then [f] else [] | _ \<Rightarrow> [])"
  by (cases e) (simp_all add: refused_def map_filter_append map_filter_simps)

lemma of_room_remove1:
  "x \<in> set xs \<Longrightarrow> mset (of_room i rid xs) = mset (of_room i rid [x]) + mset (of_room i rid (remove1 x xs))"
  by (induction xs) (auto split: prod.splits)

lemma start_never_fails:
  assumes "start_step ch i q f w = Some w'"
  shows "in_flight w' = in_flight w @ [(i, q, f)]"
proof -
  have "snd (broadcast_at ch a f m) = Inl e \<Longrightarrow> e = BroadcastFull" for a m e
    by (auto simp: broadcast_at_def room_broadcast_def room_record_drop_def split: prod.splits option.splits)
  then show ?thesis
    using assms unfolding start_step_def broadcast_local_def
    by (auto split: if_splits option.splits prod.splits sum.splits) (metis snd_conv)+
qed

lemma publish_in_flight:
  "publish_step S i q f up w = Some w' \<Longrightarrow>
   (i, q, f) \<in> set (in_flight w) \<and> in_flight w' = remove1 (i, q, f) (in_flight w)"
  by (auto simp: publish_step_def Let_def split: if_splits prod.splits)

lemma in_flight_accounts:
  assumes "fleet_run S ch dr es w0 = Some w" "in_flight w0 = []"
  shows "mset (started i rid es) =
    mset (published i rid es) + mset (refused i rid es) + mset (of_room i rid (in_flight w))"
  using assms(1)
proof (induction es arbitrary: w rule: rev_induct)
  case Nil
  with assms(2) show ?case by (simp add: history_defs refused_def map_filter_simps)
next
  case (snoc e es)
  from snoc.prems obtain v where run: "fleet_run S ch dr es w0 = Some v" and step: "fleet_step S ch dr e v = Some w"
    by (auto simp: fleet_run_snoc bind_eq_Some_conv)
  note IH = snoc.IH [OF run]
  show ?case
  proof (cases e)
    case (Start k q f)
    with step IH start_never_fails [of ch k q f v w] show ?thesis by (simp add: published_def)
  next
    case (Publish k q f up)
    with step publish_in_flight [of S k q f up v w] of_room_remove1 [of "(k, q, f)" "in_flight v" i rid] IH
    show ?thesis by (auto simp: published_def)
  next
    case (Deliver k)
    with step IH show ?thesis by (auto simp: published_def elim!: deliver_cases)
  next
    case (Lose l k)
    with step IH lose_cases(2) [of l k v w] show ?thesis by (simp add: published_def)
  next
    case (Local k op)
    with step IH show ?thesis by (auto simp: published_def local_step_def split: if_splits)
  qed
qed

text \<open>What a node's connection has carried, and which broadcasts returned \<open>Ok\<close>.\<close>

definition of_node :: "nat \<Rightarrow> (nat \<times> rstr \<times> frame) list \<Rightarrow> (rstr \<times> frame) list" where
  "of_node i = List.map_filter (\<lambda>(k, q, f). if k = i then Some (q, f) else None)"

definition confirmed :: "nat \<Rightarrow> rstr \<Rightarrow> (nat \<times> rstr \<times> frame \<times> unit res) list \<Rightarrow> frame list" where
  "confirmed i rid = List.map_filter (\<lambda>(k, q, f, res).
     if k = i \<and> q = rid then case res of Inr _ \<Rightarrow> Some f | Inl _ \<Rightarrow> None else None)"

lemma of_node_simps [simp]:
  "of_node i [] = []" "of_node i (xs @ ys) = of_node i xs @ of_node i ys"
  "of_node i [(k, q, f)] = (if k = i then [(q, f)] else [])"
  by (simp_all add: of_node_def map_filter_append map_filter_simps)

lemma confirmed_simps [simp]:
  "confirmed i rid [] = []" "confirmed i rid (xs @ ys) = confirmed i rid xs @ confirmed i rid ys"
  "confirmed i rid [(k, q, f, Inl e)] = []"
  "confirmed i rid [(k, q, f, Inr u)] = (if k = i \<and> q = rid then [f] else [])"
  by (simp_all add: confirmed_def map_filter_append map_filter_simps)

definition logged ::
  "'conn redis_server \<Rightarrow> rstr \<Rightarrow> ('tx, 'client, 'conn) fleet \<Rightarrow> nat \<Rightarrow> rstr \<Rightarrow> event list \<Rightarrow>
   ('tx, 'client, 'conn) fleet \<Rightarrow> bool" where
  "logged S P w0 i rid es w \<longleftrightarrow>
     srv_log S (publish_conn (nodes w ! i)) = srv_log S (publish_conn (nodes w0 ! i)) @
       map (\<lambda>(q, f). [str_bytes (lit ''PUBLISH''), str_bytes (P @ q), encode_envelope (node_id (nodes w0 ! i)) f])
         (of_node i (bus es)) \<and>
     subseq (confirmed i rid (answered w)) (published i rid es) \<and>
     ((\<forall>conn cmd. \<exists>conn'. srv_req S conn cmd = (conn', Inr ())) \<longrightarrow>
       refused i rid es = [] \<and> confirmed i rid (answered w) = published i rid es)"

lemma logged_other:
  assumes "logged S P w0 i rid es w" "publish_conn (nodes w' ! i) = publish_conn (nodes w ! i)"
    and "answered w' = answered w" "case e of Publish k q f up \<Rightarrow> False | _ \<Rightarrow> True"
  shows "logged S P w0 i rid (es @ [e]) w'"
  using assms by (cases e) (simp_all add: logged_def published_def)

lemma logged_publish:
  assumes "logged S P w0 i rid es w" "redis_bus S P" "same_fleet P w0 w" "i < length (nodes w0)"
    and step: "publish_step S k q f up w = Some w'"
  shows "logged S P w0 i rid (es @ [Publish k q f up]) w'"
proof -
  let ?reg = "nodes w ! k"
  note p = redis_bus.publish_cases [OF assms(2) step assms(3)]
  note log = redis_bus.publish_logged [OF assms(2) step assms(3)]
  have cmd: "publish_command q f ?reg =
      [str_bytes (lit ''PUBLISH''), str_bytes (P @ q), encode_envelope (node_id (nodes w0 ! k)) f]"
    using assms(3) p(1) by (simp add: publish_command_def channel_name_def same_fleet_def del: str_bytes_append)
  have other: "k \<noteq> i \<Longrightarrow> nodes w' ! i = nodes w ! i" using p(4) by simp
  show ?thesis
  proof (cases up)
    case True
    have ok: "snd (publish (srv_req S) f q ?reg) = Inr ()" if "\<forall>conn cmd. \<exists>conn'. srv_req S conn cmd = (conn', Inr ())"
      using that [rule_format, of "publish_conn ?reg" "publish_command q f ?reg"] by (auto simp: publish_simps)
    show ?thesis
      using assms(1) True log(1) cmd other ok
      by (cases "k = i"; cases "snd (publish (srv_req S) f q ?reg)")
        (auto simp: logged_def p(6) published_def intro: list_emb_append_mono simp del: str_bytes_append)
  next
    case False
    then obtain e e' where e: "snd (publish (srv_req S) f q ?reg) = Inl e"
      "snd (srv_req S (publish_conn ?reg) (publish_command q f ?reg)) = Inl e'"
      using log(2) by blast
    have "\<not> (\<forall>conn cmd. \<exists>conn'. srv_req S conn cmd = (conn', Inr ()))"
      using e(2) by (metis Inl_Inr_False snd_conv)
    then show ?thesis
      using assms(1) False log(1) other e(1)
      by (cases "k = i") (auto simp: logged_def p(6) published_def)
  qed
qed

lemma run_logged:
  assumes "redis_bus S P" "fleet_start P w0" "fleet_run S ch dr es w0 = Some w" "i < length (nodes w0)"
  shows "logged S P w0 i rid es w"
proof -
  have "same_fleet P w0 w \<and> logged S P w0 i rid es w"
    using assms(3)
  proof (induction es arbitrary: w rule: rev_induct)
    case Nil
    with assms(2) show ?case
      by (auto simp: same_fleet_def fleet_start_def list_all_length logged_def history_defs refused_def map_filter_simps)
  next
    case (snoc e es)
    from snoc.prems obtain v where run: "fleet_run S ch dr es w0 = Some v" and step: "fleet_step S ch dr e v = Some w"
      by (auto simp: fleet_run_snoc bind_eq_Some_conv)
    from snoc.IH [OF run] have same: "same_fleet P w0 v" and log: "logged S P w0 i rid es v" by blast+
    have i: "i < length (nodes v)" using same assms(4) by (simp add: same_fleet_def)
    have "logged S P w0 i rid (es @ [e]) w"
    proof (cases e)
      case (Start k q f)
      with step have "start_step ch k q f v = Some w" by simp
      then have "publish_conn (nodes w ! i) = publish_conn (nodes v ! i)" "answered w = answered v"
        using i by (auto simp: start_step_def nth_list_update dest: broadcast_local_keeps
            split: if_splits option.splits prod.splits sum.splits)
      with log show ?thesis by (intro logged_other) (simp_all add: Start)
    next
      case (Publish k q f up)
      with step logged_publish [OF log assms(1) same assms(4)] show ?thesis by simp
    next
      case (Deliver k)
      with step have "publish_conn (nodes w ! i) = publish_conn (nodes v ! i)" "answered w = answered v"
        using i by (auto simp: deliver_step_def nth_list_update on_message_keeps split: if_splits list.splits)
      with log show ?thesis by (intro logged_other) (simp_all add: Deliver)
    next
      case (Lose l k)
      with step have "publish_conn (nodes w ! i) = publish_conn (nodes v ! i)" "answered w = answered v"
        by (auto simp: lose_step_def split: if_splits)
      with log show ?thesis by (intro logged_other) (simp_all add: Lose)
    next
      case (Local k op)
      with step have "publish_conn (nodes w ! i) = publish_conn (nodes v ! i)" "answered w = answered v"
        using i by (auto simp: local_step_def nth_list_update split: if_splits)
      with log show ?thesis by (intro logged_other) (simp_all add: Local)
    qed
    with same_fleet_step [OF same step assms(1)] show ?case by blast
  qed
  then show ?thesis ..
qed

text \<open>Two nodes for the witnesses, both hosting the room of \<open>one_node\<close>.\<close>

definition two_nodes :: "(frame ref_tx, unit, bool list \<times> command list) fleet" where
  "two_nodes = \<lparr> nodes =
     [from_parts (local one_node) () ([True], []) DEFAULT_CHANNEL_PREFIX 1 2,
      from_parts (local one_node) () ([False], []) DEFAULT_CHANNEL_PREFIX 3 4], in_flight = [], arriving = [[], []], answered = [] \<rparr>"

definition log_server :: "(bool list \<times> command list) redis_server" where
  "log_server = \<lparr> srv_req = (\<lambda>(ups, log) cmd.
       if ups \<noteq> [] \<and> hd ups then ((tl ups, log @ [cmd]), Inr ())
       else ((tl ups, log), Inl (lit ''connection lost''))),
     srv_log = snd,
     srv_route = (\<lambda>cmd. if length cmd = 3 then map_option (\<lambda>s. (s, cmd ! 2)) (from_utf8 (cmd ! 1)) else None),
     srv_glob = (\<lambda>pattern c. prefix (butlast pattern) c) \<rparr>"

interpretation log_bus: redis_bus log_server P
  by unfold_locales (auto simp: log_server_def butlast_append split: if_splits)

definition two_nodes_schedule :: "event list" where
  "two_nodes_schedule =
     [Start 0 (lit ''a'') (Text (lit ''x'')), Start 1 (lit ''a'') (Binary [7]),
      Publish 0 (lit ''a'') (Text (lit ''x'')) True, Local 1 (JoinRoom 0 5 (lit ''bob'')),
      Deliver 0, Local 1 Cleanup, Deliver 1,
      Publish 1 (lit ''a'') (Binary [7]) False]"

lemma two_nodes_start: "fleet_start DEFAULT_CHANNEL_PREFIX two_nodes"
proof -
  have "generate_node_id 1 2 \<noteq> generate_node_id 3 4" by code_simp
  then show ?thesis
    by (simp add: fleet_start_def two_nodes_def one_node_def from_parts_def numeral_2_eq_2)
qed

lemma two_nodes_hosted: "hosted ref_live (lit ''a'') 0 0 (nodes two_nodes ! 1)"
  using one_node_ok by (simp add: hosted_def two_nodes_def from_parts_def)
    (simp add: one_node_def from_parts_def ref_live_def)

section \<open>Properties\<close>

text \<open>C2 Delivery across the fleet, in every schedule of broadcasts, publishes, deliveries, losses and local
  operations of the nodes: what a receiver gets is its own node's broadcasts, each exactly once and
  in order, merged with a subsequence, in order, of what each other node published to its room.
  Nothing arrives twice and no echo comes back. When no message to its node was lost and none is on
  its way to it, it has all of them. The receiver's own node must leave it its room: it does not
  remove the room by id, close the receiver or call \<open>cleanup_empty\<close>, which takes rooms that have
  receivers but no participants (\<open>cleanup\<close> does not); the other nodes may do anything.\<close>

theorem fleet_at_most_once:
  assumes "frame_channel ch live inbox drop_rx" "redis_bus S P" "fleet_start P w0"
    and "j < length (nodes w0)" "hosted live rid a rx (nodes w0 ! j)" "fleet_run S ch drop_rx es w0 = Some w"
    and "\<forall>op. Local j op \<in> set es \<longrightarrow> keeps_receiver rid a rx op"
  shows "\<exists>got. box inbox a rx (nodes w ! j) = box inbox a rx (nodes w0 ! j) @ map snd got \<and>
    of_publisher j got = own j rid a es \<and>
    (\<forall>i. i \<noteq> j \<longrightarrow> subseq (of_publisher i got) (published i rid es) \<and>
       ((\<forall>k. Lose j k \<notin> set es) \<and> arriving w ! j = [] \<longrightarrow> of_publisher i got = published i rid es))"
proof -
  from frame_channel.fleet_receives [OF assms] obtain got del pend where
    tr: "traffic P w0 j rid a es w got del pend"
    and got: "box inbox a rx (nodes w ! j) = box inbox a rx (nodes w0 ! j) @ map snd got"
    by blast
  from traffic_result [OF tr] got show ?thesis by blast
qed

theorem fleet_at_most_once_witness:
  "\<exists>w got. fleet_run log_server ref_channel ref_drop two_nodes_schedule two_nodes = Some w \<and>
     box ref_inbox 0 0 (nodes w ! 1) = map snd got \<and> of_publisher 1 got = [Binary [7]] \<and>
     of_publisher 0 got = [Text (lit ''x'')]"
proof -
  have "case fleet_run log_server ref_channel ref_drop two_nodes_schedule two_nodes of
      None \<Rightarrow> False | Some w \<Rightarrow> arriving w ! 1 = []"
    by code_simp
  then obtain w where run: "fleet_run log_server ref_channel ref_drop two_nodes_schedule two_nodes = Some w"
    and drained: "arriving w ! 1 = []"
    by (auto split: option.splits)
  have keeps: "\<forall>op. Local 1 op \<in> set two_nodes_schedule \<longrightarrow> keeps_receiver (lit ''a'') 0 0 op"
    by (auto simp: two_nodes_schedule_def)
  have node: "1 < length (nodes two_nodes)" "box ref_inbox 0 0 (nodes two_nodes ! 1) = []"
    by (simp_all add: two_nodes_def box_def one_node_def from_parts_def ref_inbox_def)
  have history: "Lose 1 k \<notin> set two_nodes_schedule"
    "own 1 (lit ''a'') 0 two_nodes_schedule = [Binary [7]]"
    "published 0 (lit ''a'') two_nodes_schedule = [Text (lit ''x'')]" for k
    by (simp_all add: two_nodes_schedule_def history_defs map_filter_simps)
  from fleet_at_most_once [OF ref_frames.frame_channel_axioms log_bus.redis_bus_axioms two_nodes_start node(1)
      two_nodes_hosted run keeps] obtain got where got: "box ref_inbox 0 0 (nodes w ! 1) = map snd got"
    "of_publisher 1 got = [Binary [7]]"
    "\<And>i. i \<noteq> 1 \<Longrightarrow> (\<forall>k. Lose 1 k \<notin> set two_nodes_schedule) \<and> arriving w ! 1 = [] \<longrightarrow>
      of_publisher i got = published i (lit ''a'') two_nodes_schedule"
    unfolding node(2) history(2) by auto
  have "(\<forall>k. Lose 1 k \<notin> set two_nodes_schedule) \<and> arriving w ! 1 = []"
    by (intro conjI allI history(1) drained)
  with got(3) [of 0] history(3) have "of_publisher 0 got = [Text (lit ''x'')]"
    by simp
  with run got(1,2) show ?thesis by blast
qed

text \<open>C25 A broadcast is published once: the commands that the server carried out on a node's connection
  are, in order, one \<open>PUBLISH\<close> of the node's envelope on the room's channel for each broadcast it
  accepted. The broadcasts a node has started for a room are those accepted, those refused and those
  that still wait for the connection. A broadcast that returned \<open>Ok\<close> was accepted, and a server that
  answers every request refuses none.\<close>

theorem fleet_accounts:
  assumes "redis_bus S P" "fleet_start P w0" "fleet_run S ch dr es w0 = Some w" "i < length (nodes w0)"
  shows "srv_log S (publish_conn (nodes w ! i)) = srv_log S (publish_conn (nodes w0 ! i)) @
      map (\<lambda>(q, f). [str_bytes (lit ''PUBLISH''), str_bytes (P @ q), encode_envelope (node_id (nodes w0 ! i)) f])
        (of_node i (bus es)) \<and>
    mset (started i rid es) =
      mset (published i rid es) + mset (refused i rid es) + mset (of_room i rid (in_flight w)) \<and>
    subseq (confirmed i rid (answered w)) (published i rid es) \<and>
    ((\<forall>conn cmd. \<exists>conn'. srv_req S conn cmd = (conn', Inr ())) \<longrightarrow>
      refused i rid es = [] \<and> confirmed i rid (answered w) = published i rid es)"
proof -
  have "mset (started i rid es) =
      mset (published i rid es) + mset (refused i rid es) + mset (of_room i rid (in_flight w))"
    by (rule in_flight_accounts [OF assms(3)]) (use assms(2) in \<open>simp add: fleet_start_def\<close>)
  with run_logged [OF assms, of rid] show ?thesis by (simp add: logged_def)
qed

theorem fleet_accounts_witness:
  "\<exists>w. fleet_run log_server ref_channel ref_drop two_nodes_schedule two_nodes = Some w \<and>
     srv_log log_server (publish_conn (nodes w ! 0)) =
       [[str_bytes (lit ''PUBLISH''), str_bytes (DEFAULT_CHANNEL_PREFIX @ lit ''a''),
         encode_envelope (generate_node_id 1 2) (Text (lit ''x''))]]"
proof -
  have "fleet_run log_server ref_channel ref_drop two_nodes_schedule two_nodes \<noteq> None"
    by code_simp
  then obtain w where run: "fleet_run log_server ref_channel ref_drop two_nodes_schedule two_nodes = Some w"
    by blast
  have node: "0 < length (nodes two_nodes)" "node_id (nodes two_nodes ! 0) = generate_node_id 1 2"
    "srv_log log_server (publish_conn (nodes two_nodes ! 0)) = []"
    by (simp_all add: two_nodes_def from_parts_def log_server_def)
  have sent: "of_node 0 (bus two_nodes_schedule) = [(lit ''a'', Text (lit ''x''))]"
    by (simp add: two_nodes_schedule_def bus_def of_node_def map_filter_simps)
  from fleet_accounts [OF log_bus.redis_bus_axioms two_nodes_start run node(1), THEN conjunct1] run
  show ?thesis by (simp add: node(2,3) sent del: str_bytes_append)
qed


text \<open>C26 What was not lost arrives: from every state of a run that lost no message to node \<open>j\<close>, the node
  can take what is on its way, and then its receiver has all that the other nodes published to the
  room, each publisher's frames in order, besides the broadcasts of its own node. As in C2, node \<open>j\<close>
  does not remove the room by id, close the receiver or call \<open>cleanup_empty\<close> in that run.\<close>

theorem fleet_drains:
  assumes "frame_channel ch live inbox drop_rx" "redis_bus S P" "fleet_start P w0"
    and "j < length (nodes w0)" "hosted live rid a rx (nodes w0 ! j)" "fleet_run S ch drop_rx es w0 = Some w"
    and "\<forall>k. Lose j k \<notin> set es" "\<forall>op. Local j op \<in> set es \<longrightarrow> keeps_receiver rid a rx op"
  shows "\<exists>w' got. fleet_run S ch drop_rx (replicate (length (arriving w ! j)) (Deliver j)) w = Some w' \<and>
    arriving w' ! j = [] \<and> box inbox a rx (nodes w' ! j) = box inbox a rx (nodes w0 ! j) @ map snd got \<and>
    of_publisher j got = own j rid a es \<and> (\<forall>i. i \<noteq> j \<longrightarrow> of_publisher i got = published i rid es)"
proof -
  note receives = frame_channel.fleet_receives [OF assms(1-5)]
  let ?ds = "replicate (length (arriving w ! j)) (Deliver j)"
  have "j < length (nodes w)" "j < length (arriving w)"
    using receives [OF assms(6,8)] assms(4) by (simp_all add: same_fleet_def)
  from deliver_all [OF this] obtain w' where w': "fleet_run S ch drop_rx ?ds w = Some w'" "arriving w' ! j = []"
    by blast
  then have "fleet_run S ch drop_rx (es @ ?ds) w0 = Some w'"
    by (simp add: fleet_run_append assms(6))
  moreover have "\<forall>op. Local j op \<in> set (es @ ?ds) \<longrightarrow> keeps_receiver rid a rx op"
    using assms(8) by simp
  ultimately obtain got del pend where tr: "traffic P w0 j rid a (es @ ?ds) w' got del pend"
    and got: "box inbox a rx (nodes w' ! j) = box inbox a rx (nodes w0 ! j) @ map snd got"
    using receives by blast
  have "\<forall>k. Lose j k \<notin> set (es @ ?ds)" using assms(7) by simp
  with traffic_result [OF tr] w' got show ?thesis
    unfolding published_deliveries by blast
qed

theorem fleet_drains_witness:
  "\<exists>w w' got. fleet_run log_server ref_channel ref_drop (take 4 two_nodes_schedule) two_nodes = Some w \<and>
     fleet_run log_server ref_channel ref_drop (replicate (length (arriving w ! 1)) (Deliver 1)) w = Some w' \<and>
     box ref_inbox 0 0 (nodes w' ! 1) = map snd got \<and> of_publisher 0 got = [Text (lit ''x'')]"
proof -
  have "fleet_run log_server ref_channel ref_drop (take 4 two_nodes_schedule) two_nodes \<noteq> None"
    by code_simp
  then obtain w where run: "fleet_run log_server ref_channel ref_drop (take 4 two_nodes_schedule) two_nodes = Some w"
    by blast
  have node: "1 < length (nodes two_nodes)" "box ref_inbox 0 0 (nodes two_nodes ! 1) = []"
    by (simp_all add: two_nodes_def box_def one_node_def from_parts_def ref_inbox_def)
  have "\<forall>k. Lose 1 k \<notin> set (take 4 two_nodes_schedule)"
    "published 0 (lit ''a'') (take 4 two_nodes_schedule) = [Text (lit ''x'')]"
    by (simp_all add: two_nodes_schedule_def history_defs map_filter_simps numeral_eq_Suc)
  moreover have "\<forall>op. Local 1 op \<in> set (take 4 two_nodes_schedule) \<longrightarrow> keeps_receiver (lit ''a'') 0 0 op"
    by (auto simp: two_nodes_schedule_def numeral_eq_Suc)
  ultimately show ?thesis
    using fleet_drains [OF ref_frames.frame_channel_axioms log_bus.redis_bus_axioms two_nodes_start node(1)
      two_nodes_hosted run] node(2) run by fastforce
qed

end
