(* ===== verification/Unit_Tests.thy ===== *)
theory Unit_Tests
  imports Ws_Config Ws_Codec Ws_Origin Ws_Extractor
begin

text \<open>
  The crate's own unit tests of \<open>error.rs\<close>, \<open>config.rs\<close>, \<open>codec.rs\<close>, \<open>origin.rs\<close> and \<open>extractor.rs\<close>,
  evaluated on the model: each test is a definition of its name, the conjunction of its assertions,
  and the lemma of its file proves them all. They tie the definitions of the other theories to
  results the code is known to give. A returned \<open>Some x\<close> of a function that could panic is
  \<open>Some (Some x)\<close> here, so the tests show that it does not.
\<close>

section \<open>\<open>error.rs\<close> and \<open>config.rs\<close>\<close>

definition display_messages :: bool where
  "display_messages \<longleftrightarrow>
     ws_error_display AuthMissing = lit ''authentication token missing'' \<and>
     ws_error_display AuthInvalid = lit ''authentication token invalid'' \<and>
     ws_error_display TooManyConnections = lit ''too many connections'' \<and>
     ws_error_display BroadcastFull = lit ''broadcast channel full'' \<and>
     ws_error_display InvalidMessage = lit ''invalid message'' \<and>
     ws_error_display Compression = lit ''malformed compressed payload'' \<and>
     ws_error_display PayloadTooLarge = lit ''payload exceeds size limit'' \<and>
     ws_error_display (Redis (lit ''down'')) = lit ''redis error: down'' \<and>
     ws_error_display Closed = lit ''connection closed''"

definition new_equals_default :: bool where
  "new_equals_default \<longleftrightarrow> config_new = config_default"

definition config_defaults :: bool where
  "config_defaults \<longleftrightarrow>
     (let c = config_default in
      heartbeat_interval c = from_secs 30 \<and> broadcast_capacity c = 1024 \<and> max_connections c = 1000)"

definition builder_overrides :: bool where
  "builder_overrides \<longleftrightarrow>
     (let c = builder_build (set_max_connections 10 (set_broadcast_capacity 512
                (set_heartbeat_interval (from_secs 10) config_builder)))
      in heartbeat_interval c = from_secs 10 \<and> broadcast_capacity c = 512 \<and> max_connections c = 10)"

definition builder_default_equals_config_default :: bool where
  "builder_default_equals_config_default \<longleftrightarrow> builder_build config_builder = config_default"

definition default_allowed_origins_empty_allows_all :: bool where
  "default_allowed_origins_empty_allows_all \<longleftrightarrow>
     allowed_origins config_default = [] \<and> allowed_origins (builder_build config_builder) = []"

definition builder_sets_allowed_origins :: bool where
  "builder_sets_allowed_origins \<longleftrightarrow>
     (let c = builder_build (allow_origin (lit ''https://staging.example.com'')
                (allow_origin (lit ''https://app.example.com'') config_builder));
          c2 = builder_build (set_allowed_origins [lit ''https://b.dev'']
                (allow_origin (lit ''https://a.dev'') config_builder))
      in allowed_origins c = [lit ''https://app.example.com'', lit ''https://staging.example.com''] \<and>
         allowed_origins c2 = [lit ''https://b.dev''])"

lemma error_tests: "display_messages"
  by code_simp

lemma config_tests:
  "new_equals_default" "config_defaults" "builder_overrides" "builder_default_equals_config_default"
  "default_allowed_origins_empty_allows_all" "builder_sets_allowed_origins"
  by code_simp+

section \<open>\<open>codec.rs\<close>: frames\<close>

definition frame_constructors_and_kinds :: bool where
  "frame_constructors_and_kinds \<longleftrightarrow>
     is_text (frame_from_string (lit ''hello'')) \<and> is_text (frame_from_str (lit ''hello'')) \<and>
     is_binary (frame_from_bytes [0x00, 0x01]) \<and> is_binary (frame_from_vec [1, 2]) \<and>
     is_binary (frame_from_slice [1, 2]) \<and> is_binary (frame_binary [])"

text \<open>\<open>"h\<close> \<open>U+00E9\<close> \<open>llo"\<close>.\<close>

definition frame_len_and_bytes :: bool where
  "frame_len_and_bytes \<longleftrightarrow>
     (let hello = lit ''h'' @ uchr 0xE9 # lit ''llo''; t = frame_from_str hello; b = frame_from_vec (replicate 4 0)
      in frame_len t = 6 \<and> as_bytes t = str_bytes hello \<and> \<not> frame_is_empty t \<and>
         frame_len b = 4 \<and> frame_is_empty (frame_from_string []))"

definition frame_into_bytes_and_text :: bool where
  "frame_into_bytes_and_text \<longleftrightarrow>
     into_bytes (frame_from_string (lit ''abc'')) = [97, 98, 99] \<and>
     hd (into_bytes (frame_from_vec [9])) = 9 \<and>
     into_text (frame_from_string (lit ''text'')) = Inr (lit ''text'') \<and>
     into_text (frame_from_vec [0xff, 0xfe]) = Inl InvalidMessage"

definition frame_zero_copy_moves :: bool where
  "frame_zero_copy_moves \<longleftrightarrow>
     frame_from_string (lit ''owned'') = Text (lit ''owned'') \<and> frame_len (frame_from_vec (replicate 8 1)) = 8"

definition frame_clone_eq :: bool where
  "frame_clone_eq \<longleftrightarrow> frame_from_string (lit ''a'') \<noteq> frame_from_bytes [97]"

lemma frame_tests:
  "frame_constructors_and_kinds" "frame_len_and_bytes" "frame_into_bytes_and_text"
  "frame_zero_copy_moves" "frame_clone_eq"
  by code_simp+

section \<open>\<open>origin.rs\<close>\<close>

definition normalize_origin_basic_and_case :: bool where
  "normalize_origin_basic_and_case \<longleftrightarrow>
     normalize_origin (lit ''https://example.com'') = lit ''https://example.com'' \<and>
     normalize_origin (lit ''HTTPS://EXAMPLE.COM'') = lit ''https://example.com'' \<and>
     normalize_origin (lit ''https://EXAMPLE.com'') = lit ''https://example.com'' \<and>
     normalize_origin (lit ''  https://example.com  '') = lit ''https://example.com''"

definition normalize_origin_default_ports_omitted :: bool where
  "normalize_origin_default_ports_omitted \<longleftrightarrow>
     normalize_origin (lit ''https://example.com:443'') = lit ''https://example.com'' \<and>
     normalize_origin (lit ''http://example.com:80'') = lit ''http://example.com'' \<and>
     normalize_origin (lit ''wss://example.com:443'') = lit ''wss://example.com'' \<and>
     normalize_origin (lit ''ws://example.com:80'') = lit ''ws://example.com''"

definition normalize_origin_custom_ports_kept :: bool where
  "normalize_origin_custom_ports_kept \<longleftrightarrow>
     normalize_origin (lit ''https://example.com:8443'') = lit ''https://example.com:8443'' \<and>
     normalize_origin (lit ''https://example.com:8443'') \<noteq> normalize_origin (lit ''https://example.com'') \<and>
     normalize_origin (lit ''http://example.com:8080'') \<noteq> normalize_origin (lit ''http://example.com'')"

definition normalize_origin_ipv6 :: bool where
  "normalize_origin_ipv6 \<longleftrightarrow>
     normalize_origin (lit ''https://[2001:DB8::1]:443'') = lit ''https://[2001:db8::1]'' \<and>
     normalize_origin (lit ''http://[::1]:8080'') = lit ''http://[::1]:8080'' \<and>
     normalize_origin (lit ''http://[::1]'') = lit ''http://[::1]''"

definition normalize_origin_no_scheme_fail_closed :: bool where
  "normalize_origin_no_scheme_fail_closed \<longleftrightarrow>
     normalize_origin (lit ''example.com'') = lit ''example.com'' \<and>
     normalize_origin (lit ''localhost:3000'') = lit ''localhost:3000''"

definition origin_allowed_empty_list_allows_all :: bool where
  "origin_allowed_empty_list_allows_all \<longleftrightarrow>
     origin_allowed (Some (lit ''https://anything.dev'')) [] \<and> origin_allowed None []"

definition origin_allowed_match_and_normalization :: bool where
  "origin_allowed_match_and_normalization \<longleftrightarrow>
     (let allowed = [lit ''https://example.com''] in
      origin_allowed (Some (lit ''https://example.com'')) allowed \<and>
      origin_allowed (Some (lit ''https://example.com:443'')) allowed \<and>
      origin_allowed (Some (lit ''HTTPS://EXAMPLE.COM'')) allowed \<and>
      origin_allowed (Some (lit ''https://example.com'')) [lit ''https://example.com:443''])"

definition origin_allowed_missing_origin_rejected_when_listed :: bool where
  "origin_allowed_missing_origin_rejected_when_listed \<longleftrightarrow> \<not> origin_allowed None [lit ''https://example.com'']"

definition origin_allowed_no_wildcard_or_suffix_matching :: bool where
  "origin_allowed_no_wildcard_or_suffix_matching \<longleftrightarrow>
     (let allowed = [lit ''https://example.com''] in
      \<not> origin_allowed (Some (lit ''https://evil-example.com'')) allowed \<and>
      \<not> origin_allowed (Some (lit ''https://example.com.evil.com'')) allowed \<and>
      \<not> origin_allowed (Some (lit ''https://api.example.com'')) allowed \<and>
      \<not> origin_allowed (Some (lit ''https://example.com:8443'')) allowed)"

definition origin_allowed_scheme_matters :: bool where
  "origin_allowed_scheme_matters \<longleftrightarrow>
     (let allowed = [lit ''https://example.com''] in
      \<not> origin_allowed (Some (lit ''http://example.com'')) allowed \<and>
      \<not> origin_allowed (Some (lit ''ws://example.com'')) allowed)"

text \<open>A request with one header; values are strings that \<open>to_str\<close> can read.\<close>

definition parts_with :: "(rstr \<times> rstr) list \<Rightarrow> rstr \<Rightarrow> rstr option" where
  "parts_with headers = map_of headers"

definition origin_allowed_in_parts_reads_header :: bool where
  "origin_allowed_in_parts_reads_header \<longleftrightarrow>
     (let allowed = [lit ''https://example.com''];
          check = (\<lambda>headers allowed. origin_allowed_in_parts (parts_with headers) Some allowed)
      in check [(lit ''origin'', lit ''https://example.com'')] allowed \<and>
         \<not> check [(lit ''origin'', lit ''https://evil.com'')] allowed \<and>
         \<not> check [] allowed \<and> check [] [])"

definition origin_allowed_in_parts_host_header_ignored :: bool where
  "origin_allowed_in_parts_host_header_ignored \<longleftrightarrow>
     \<not> origin_allowed_in_parts (parts_with [(lit ''host'', lit ''example.com'')]) Some [lit ''https://example.com'']"

lemma origin_tests:
  "normalize_origin_basic_and_case" "normalize_origin_default_ports_omitted"
  "normalize_origin_custom_ports_kept" "normalize_origin_ipv6" "normalize_origin_no_scheme_fail_closed"
  "origin_allowed_empty_list_allows_all" "origin_allowed_match_and_normalization"
  "origin_allowed_missing_origin_rejected_when_listed" "origin_allowed_no_wildcard_or_suffix_matching"
  "origin_allowed_scheme_matters" "origin_allowed_in_parts_reads_header"
  "origin_allowed_in_parts_host_header_ignored"
  by code_simp+

section \<open>\<open>extractor.rs\<close>\<close>

text \<open>\<open>"Be\<close> \<open>U+00E9\<close> \<open>erer x"\<close>, \<open>"Bear\<close> \<open>U+00E9\<close> \<open>ration token"\<close> and \<open>"Bearer caf\<close> \<open>U+00E9"\<close>.\<close>

definition parse_bearer_multibyte_no_panic :: bool where
  "parse_bearer_multibyte_no_panic \<longleftrightarrow>
     parse_bearer (lit ''Be'' @ uchr 0xE9 # lit ''erer x'') = Some None \<and>
     parse_bearer (lit ''Bear'' @ uchr 0xE9 # lit ''ration token'') = Some None \<and>
     parse_bearer (lit ''Bearer caf'' @ [uchr 0xE9]) = Some (Some (lit ''caf'' @ [uchr 0xE9]))"

definition parse_bearer_ok :: bool where
  "parse_bearer_ok \<longleftrightarrow>
     parse_bearer (lit ''Bearer abc123'') = Some (Some (lit ''abc123'')) \<and>
     parse_bearer (lit ''bearer abc123'') = Some (Some (lit ''abc123'')) \<and>
     parse_bearer (lit ''BEARER abc123'') = Some (Some (lit ''abc123'')) \<and>
     parse_bearer (lit ''Bearer   spaced  '') = Some (Some (lit ''spaced''))"

definition parse_bearer_fail :: bool where
  "parse_bearer_fail \<longleftrightarrow>
     parse_bearer (lit ''Basic abc'') = Some None \<and> parse_bearer (lit ''Bearer '') = Some None \<and>
     parse_bearer (lit ''Bearer'') = Some None \<and> parse_bearer [] = Some None"

definition query_param_extraction :: bool where
  "query_param_extraction \<longleftrightarrow>
     extract_query_param (lit ''token=abc123&foo=bar'') (lit ''token'') = Some (lit ''abc123'') \<and>
     extract_query_param (lit ''?access_token=xyz'') (lit ''access_token'') = Some (lit ''xyz'') \<and>
     extract_query_param (lit ''foo=1&token=second'') (lit ''token'') = Some (lit ''second'') \<and>
     extract_query_param [] (lit ''token'') = None \<and>
     extract_query_param (lit ''token=&foo=bar'') (lit ''token'') = None"

definition query_url_decode :: bool where
  "query_url_decode \<longleftrightarrow>
     extract_query_param (lit ''token=hello%20world'') (lit ''token'') = Some (lit ''hello world'') \<and>
     extract_query_param (lit ''token=a%2Bb'') (lit ''token'') = Some (lit ''a+b'')"

definition cookie_extraction :: bool where
  "cookie_extraction \<longleftrightarrow>
     parse_cookie (lit ''session=abc; token=xyz; foo=bar'') (lit ''token'') = Some (lit ''xyz'') \<and>
     parse_cookie (lit ''token=hello%20world'') (lit ''token'') = Some (lit ''hello world'') \<and>
     parse_cookie (lit ''a=b; c=d'') (lit ''token'') = None"

definition extractor_order_header_first :: bool where
  "extractor_order_header_first \<longleftrightarrow>
     extract_from_parts extractor_default (Some (lit ''Bearer header_tok'')) None (lit ''token=query_tok'') =
       Some (Some (lit ''header_tok''))"

definition extractor_fallback_to_query :: bool where
  "extractor_fallback_to_query \<longleftrightarrow>
     extract_from_parts extractor_default None None (lit ''token=query_tok'') = Some (Some (lit ''query_tok''))"

definition extractor_fallback_access_token :: bool where
  "extractor_fallback_access_token \<longleftrightarrow>
     extract_from_parts extractor_default None None (lit ''access_token=at'') = Some (Some (lit ''at''))"

definition extractor_cookie_source :: bool where
  "extractor_cookie_source \<longleftrightarrow>
     extract_from_parts (extractor_new [Cookie (lit ''session'')]) None (Some (lit ''session=mycookie'')) [] =
       Some (Some (lit ''mycookie''))"

definition extractor_none_when_missing :: bool where
  "extractor_none_when_missing \<longleftrightarrow> extract_from_parts extractor_default None None [] = Some None"

definition axum_bearer_extraction :: bool where
  "axum_bearer_extraction \<longleftrightarrow>
     extract_token extractor_default (parts_with [(lit ''authorization'', lit ''Bearer axum_tok'')]) Some
       (lit ''token=ignored'') = Some (Some (lit ''axum_tok''))"

definition axum_query_fallback :: bool where
  "axum_query_fallback \<longleftrightarrow>
     extract_token extractor_default (parts_with []) Some (lit ''token=qtoken'') = Some (Some (lit ''qtoken''))"

definition axum_cookie :: bool where
  "axum_cookie \<longleftrightarrow>
     extract_token (extractor_new [Cookie (lit ''tok'')]) (parts_with [(lit ''cookie'', lit ''tok=cookie_val'')])
       Some [] = Some (Some (lit ''cookie_val''))"

lemma extractor_tests:
  "parse_bearer_multibyte_no_panic" "parse_bearer_ok" "parse_bearer_fail" "query_param_extraction"
  "query_url_decode" "cookie_extraction" "extractor_order_header_first" "extractor_fallback_to_query"
  "extractor_fallback_access_token" "extractor_cookie_source" "extractor_none_when_missing"
  "axum_bearer_extraction" "axum_query_fallback" "axum_cookie"
  by code_simp+

end
