(* ===== verification/Unit_Tests_Rooms.thy ===== *)
theory Unit_Tests_Rooms
  imports Ws_Hub Room_Manager Ws_Compression
begin

text \<open>
  The crate's own unit tests of \<open>stats.rs\<close>, \<open>hub.rs\<close>, \<open>room.rs\<close> and \<open>compression.rs\<close>, evaluated on the
  model. A test takes the channel (or the coder) it runs with as an argument and threads the state
  its calls change; what a receiver has got is its \<open>inbox\<close>, in the order of \<open>recv\<close>. The tests of
  rooms are proved for the reference channel.

  Left out: \<open>concurrent_recording_no_lost_updates\<close>, which \<open>interleaved_recording\<close> covers for all
  interleavings, and the tests about shared clones, which state passing has by construction; of
  \<open>compression.rs\<close> those about the compression rate and the error detection of \<open>flate2\<close>.
\<close>

text \<open>\<open>unwrap()\<close>: the test fails on a panic or an error.\<close>

definition unwrapped :: "'a option \<Rightarrow> ('a \<Rightarrow> bool) \<Rightarrow> bool" where
  "unwrapped x test = (case x of None \<Rightarrow> False | Some v \<Rightarrow> test v)"

definition is_ok :: "'a res \<Rightarrow> bool" where
  "is_ok r \<longleftrightarrow> \<not> isl r"

section \<open>\<open>stats.rs\<close>\<close>

definition initial_snapshot_zeroed :: bool where
  "initial_snapshot_zeroed \<longleftrightarrow> snapshot stats_new =
     \<lparr> st_connections = 0, st_rooms = 0, st_messages_in = 0, st_messages_out = 0, st_bytes_in = 0,
       st_bytes_out = 0, st_drops = 0, per_room = [] \<rparr>"

definition connection_counter_saturates :: bool where
  "connection_counter_saturates \<longleftrightarrow>
     (case inc_connections stats_new of (s, n1) \<Rightarrow>
      case inc_connections s of (s, n2) \<Rightarrow>
      case dec_connections s of (s, n3) \<Rightarrow>
      case dec_connections s of (s, n4) \<Rightarrow>
      case dec_connections s of (s, _) \<Rightarrow>
        n1 = 1 \<and> n2 = 2 \<and> n3 = 1 \<and> n4 = 0 \<and> st_connections (snapshot s) = 0)"

definition room_lifecycle_gauge :: bool where
  "room_lifecycle_gauge \<longleftrightarrow>
     (let s = room_opened (room_opened stats_new); t = room_closed (room_closed (room_closed s))
      in st_rooms (snapshot s) = 2 \<and> st_rooms (snapshot t) = 0)"

definition global_traffic_counters :: bool where
  "global_traffic_counters \<longleftrightarrow>
     (let s = snapshot (record_drop (record_message_out 3 96 (record_message_in 128 stats_new)))
      in st_messages_in s = 1 \<and> st_bytes_in s = 128 \<and> st_messages_out s = 3 \<and> st_bytes_out s = 96 \<and>
         st_drops s = 1)"

definition room_counters_roll_up_to_globals :: bool where
  "room_counters_roll_up_to_globals \<longleftrightarrow>
     (let s = snapshot (record_room_drop (lit ''lobby'') (record_room_message_out (lit ''lobby'') 2 20
                (record_room_message_in (lit ''lobby'') 10 stats_new)))
      in unwrapped (map_of (per_room s) (lit ''lobby'')) (\<lambda>lobby.
           rs_messages_in lobby = 1 \<and> rs_bytes_in lobby = 10 \<and> rs_messages_out lobby = 2 \<and>
           rs_bytes_out lobby = 20 \<and> rs_drops lobby = 1) \<and>
         st_messages_in s = 1 \<and> st_messages_out s = 2 \<and> st_bytes_out s = 20 \<and> st_drops s = 1)"

definition rooms_are_isolated_in_snapshot :: bool where
  "rooms_are_isolated_in_snapshot \<longleftrightarrow>
     (let s = snapshot (record_room_message_out (lit ''b'') 2 10 (record_room_message_out (lit ''a'') 1 5 stats_new))
      in length (per_room s) = 2 \<and>
         unwrapped (map_of (per_room s) (lit ''a'')) (\<lambda>r. rs_messages_out r = 1) \<and>
         unwrapped (map_of (per_room s) (lit ''b'')) (\<lambda>r. rs_messages_out r = 2) \<and>
         st_messages_out s = 3)"

lemma stats_tests:
  "initial_snapshot_zeroed" "connection_counter_saturates" "room_lifecycle_gauge"
  "global_traffic_counters" "room_counters_roll_up_to_globals" "rooms_are_isolated_in_snapshot"
  by code_simp+

section \<open>\<open>hub.rs\<close>\<close>

definition broadcast_and_subscribe ::
  "('tx, nat \<times> rstr) channel_ops \<Rightarrow> ('tx \<Rightarrow> nat \<Rightarrow> (nat \<times> rstr) list) \<Rightarrow> bool" where
  "broadcast_and_subscribe ch inbox \<longleftrightarrow>
     unwrapped (hub_new ch 16) (\<lambda>hub.
       case hub_subscribe ch hub of (hub, rx1) \<Rightarrow>
       case hub_subscribe ch hub of (hub, rx2) \<Rightarrow>
       let msg = (1, lit ''hi'') in
       case hub_broadcast ch msg hub of (hub, n) \<Rightarrow>
         n = Inr 2 \<and> inbox (hub_tx hub) rx1 = [msg] \<and> inbox (hub_tx hub) rx2 = [msg])"

definition broadcast_no_receivers_error :: "('tx, rstr) channel_ops \<Rightarrow> bool" where
  "broadcast_no_receivers_error ch \<longleftrightarrow>
     unwrapped (hub_new ch 16) (\<lambda>hub.
       case hub_broadcast ch (lit ''hello'') hub of (hub, err) \<Rightarrow>
       case hub_try_broadcast ch (lit ''hello'') hub of (_, n) \<Rightarrow> err = Inl BroadcastFull \<and> n = 0)"

definition connection_count_atomic :: "('tx, rstr) channel_ops \<Rightarrow> bool" where
  "connection_count_atomic ch \<longleftrightarrow>
     unwrapped (hub_new ch 8) (\<lambda>hub.
       case increment_connections None hub of (h1, r1) \<Rightarrow>
       case increment_connections None h1 of (h2, r2) \<Rightarrow>
       case decrement_connections h2 of (h3, _) \<Rightarrow>
       case decrement_connections h3 of (h4, _) \<Rightarrow>
       case decrement_connections h4 of (h5, _) \<Rightarrow>
         r1 = Inr 1 \<and> r2 = Inr 2 \<and>
         map hub_connection_count [hub, h1, h2, h3, h5] = [0, 1, 2, 1, 0])"

definition max_connections_enforced :: "('tx, rstr) channel_ops \<Rightarrow> bool" where
  "max_connections_enforced ch \<longleftrightarrow>
     unwrapped (hub_new ch 8) (\<lambda>hub.
       case increment_connections (Some 2) hub of (hub, r1) \<Rightarrow>
       case increment_connections (Some 2) hub of (hub, r2) \<Rightarrow>
       case increment_connections (Some 2) hub of (hub, err) \<Rightarrow>
         is_ok r1 \<and> is_ok r2 \<and> err = Inl TooManyConnections)"

lemma hub_tests:
  "broadcast_and_subscribe ref_channel ref_inbox" "broadcast_no_receivers_error ref_channel"
  "connection_count_atomic ref_channel" "max_connections_enforced ref_channel"
  by code_simp+

section \<open>\<open>room.rs\<close>: rooms\<close>

definition room_join_leave :: "'tx frame_channel \<Rightarrow> bool" where
  "room_join_leave ch \<longleftrightarrow>
     unwrapped (room_new ch (lit ''lobby'') 16) (\<lambda>room.
       participant_count room = 0 \<and>
       (let room = room_join 2 (lit ''bob'') (room_join 1 (lit ''alice'') room) in
        participant_count room = 2 \<and> room_contains 1 room \<and>
        (case room_leave 1 room of (room, left) \<Rightarrow>
           left \<and> \<not> room_contains 1 room \<and> participant_count room = 1)))"

definition room_rejoin_updates_name :: "'tx frame_channel \<Rightarrow> bool" where
  "room_rejoin_updates_name ch \<longleftrightarrow>
     unwrapped (room_new ch (lit ''lobby'') 16) (\<lambda>room.
       let room = room_join 1 (lit ''alice2'') (room_join 1 (lit ''alice'') room) in
       participant_count room = 1 \<and> participant_names room = [lit ''alice2''])"

definition room_participant_snapshots :: "'tx frame_channel \<Rightarrow> bool" where
  "room_participant_snapshots ch \<longleftrightarrow>
     unwrapped (room_new ch (lit ''lobby'') 16) (\<lambda>room.
       let room = room_join 3 (lit ''bob'') (room_join 7 (lit ''alice'') room) in
       sort_key fst (room_participants room) = [(3, lit ''bob''), (7, lit ''alice'')] \<and>
       sort (participant_names room) = [lit ''alice'', lit ''bob''] \<and> participant_count room = 2)"

text \<open>A room with one receiver, and what it receives of the frames sent one after the other.\<close>

definition broadcasts_to_one ::
  "'tx frame_channel \<Rightarrow> ('tx \<Rightarrow> nat \<Rightarrow> frame list) \<Rightarrow> rstr \<Rightarrow> frame list \<Rightarrow> (nat res list \<Rightarrow> frame list \<Rightarrow> bool) \<Rightarrow> bool" where
  "broadcasts_to_one ch inbox rid fs test =
     unwrapped (room_new ch rid 16) (\<lambda>room.
       case room_subscribe ch room of (room, rx) \<Rightarrow>
       case fold (\<lambda>f (room, ns). case room_broadcast ch f room [] of (room, _, n) \<Rightarrow> (room, ns @ [n])) fs (room, [])
       of (room, ns) \<Rightarrow> test ns (inbox (room_tx room) rx))"

definition room_broadcast_text :: "'tx frame_channel \<Rightarrow> ('tx \<Rightarrow> nat \<Rightarrow> frame list) \<Rightarrow> bool" where
  "room_broadcast_text ch inbox =
     broadcasts_to_one ch inbox (lit ''chat'') [frame_from_string (lit ''hello'')] (\<lambda>ns got.
       ns = [Inr 1] \<and> got = [frame_from_str (lit ''hello'')])"

definition room_broadcast_binary :: "'tx frame_channel \<Rightarrow> ('tx \<Rightarrow> nat \<Rightarrow> frame list) \<Rightarrow> bool" where
  "room_broadcast_binary ch inbox =
     broadcasts_to_one ch inbox (lit ''binroom'') [frame_from_vec [0xde, 0xad, 0xbe, 0xef]] (\<lambda>ns got.
       ns = [Inr 1] \<and> map is_binary got = [True] \<and> map as_bytes got = [[0xde, 0xad, 0xbe, 0xef]])"

definition room_broadcast_bytes_vec_convenience :: "'tx frame_channel \<Rightarrow> ('tx \<Rightarrow> nat \<Rightarrow> frame list) \<Rightarrow> bool" where
  "room_broadcast_bytes_vec_convenience ch inbox =
     broadcasts_to_one ch inbox (lit ''binroom'') [frame_from_vec [1, 2, 3]] (\<lambda>ns got.
       list_all is_ok ns \<and> map is_binary got = [True] \<and> map as_bytes got = [[1, 2, 3]])"

definition room_text_and_binary_share_one_channel :: "'tx frame_channel \<Rightarrow> ('tx \<Rightarrow> nat \<Rightarrow> frame list) \<Rightarrow> bool" where
  "room_text_and_binary_share_one_channel ch inbox =
     broadcasts_to_one ch inbox (lit ''mixed'') [frame_from_string (lit ''text''), frame_from_bytes [0x00, 0x01]]
       (\<lambda>ns got. list_all is_ok ns \<and> map is_text got = [True, False] \<and> map is_binary got = [False, True])"

definition room_broadcast_no_receiver :: "'tx frame_channel \<Rightarrow> bool" where
  "room_broadcast_no_receiver ch \<longleftrightarrow>
     unwrapped (room_new ch (lit ''empty'') 16) (\<lambda>room.
       case room_broadcast ch (frame_from_string (lit ''hi'')) room [] of (_, _, r) \<Rightarrow> r = Inl BroadcastFull)"

definition room_stats_records_outbound_and_drops ::
  "'tx frame_channel \<Rightarrow> (nat \<Rightarrow> 'tx \<Rightarrow> 'tx) \<Rightarrow> bool" where
  "room_stats_records_outbound_and_drops ch drop_rx \<longleftrightarrow>
     unwrapped (room_with_stats ch (lit ''metrics'') 16 (Some 0)) (\<lambda>room.
       case room_subscribe ch room of (room, rx) \<Rightarrow>
       case room_broadcast ch (frame_from_string (lit ''12345'')) room [stats_new] of (room, recs, n) \<Rightarrow>
       case room_broadcast ch (frame_from_string (lit ''nobody'')) (room\<lparr>room_tx := drop_rx rx (room_tx room)\<rparr>) recs
       of (_, recs', err) \<Rightarrow>
       let s = snapshot (recs ! 0); s' = snapshot (recs' ! 0) in
         is_ok n \<and>
         unwrapped (map_of (per_room s) (lit ''metrics'')) (\<lambda>r. rs_messages_out r = 1 \<and> rs_bytes_out r = 5) \<and>
         st_messages_out s = 1 \<and> \<not> is_ok err \<and>
         unwrapped (map_of (per_room s') (lit ''metrics'')) (\<lambda>r. rs_drops r = 1) \<and> st_drops s' = 1)"

lemma room_tests:
  "room_join_leave ref_channel" "room_rejoin_updates_name ref_channel"
  "room_participant_snapshots ref_channel" "room_broadcast_text ref_channel ref_inbox"
  "room_broadcast_binary ref_channel ref_inbox" "room_broadcast_bytes_vec_convenience ref_channel ref_inbox"
  "room_text_and_binary_share_one_channel ref_channel ref_inbox" "room_broadcast_no_receiver ref_channel"
  "room_stats_records_outbound_and_drops ref_channel ref_drop"
  by code_simp+

section \<open>\<open>room.rs\<close>: the manager\<close>

definition manager_get_or_create_idempotent :: "'tx frame_channel \<Rightarrow> bool" where
  "manager_get_or_create_idempotent ch \<longleftrightarrow>
     unwrapped (get_or_create ch (lit ''room1'') manager_new) (\<lambda>(m, r1).
     unwrapped (get_or_create ch (lit ''room1'') m) (\<lambda>(m, r2).
       r1 = r2 \<and> room_count m = 1))"

definition manager_with_config_capacity :: "'tx frame_channel \<Rightarrow> bool" where
  "manager_with_config_capacity ch \<longleftrightarrow>
     (let cfg = builder_build (set_broadcast_capacity 2048 config_builder) in
      unwrapped (get_or_create ch (lit ''room1'') (manager_with_config cfg)) (\<lambda>(m, r).
      unwrapped (get_or_create ch (lit ''room1'') m) (\<lambda>(m, r2).
        r = r2 \<and> room_count m = 1)))"

definition manager_cleanup_removes_empty :: "'tx frame_channel \<Rightarrow> bool" where
  "manager_cleanup_removes_empty ch \<longleftrightarrow>
     unwrapped (get_or_create ch (lit ''a'') manager_new) (\<lambda>(m, _).
     case cleanup ch m of (m, n) \<Rightarrow>
       n = 1 \<and> room_count m = 0 \<and>
       unwrapped (get_or_create ch (lit ''b'') m) (\<lambda>(m, r).
       case cleanup ch (on_room_at r (room_join 1 (lit ''user1'')) m) of (m, n) \<Rightarrow>
         n = 0 \<and> room_count m = 1))"

definition manager_cleanup_empty_removes_zero_participant_rooms :: "'tx frame_channel \<Rightarrow> bool" where
  "manager_cleanup_empty_removes_zero_participant_rooms ch \<longleftrightarrow>
     unwrapped (get_or_create ch (lit ''a'') manager_new) (\<lambda>(m, _).
     case cleanup_empty m of (m, n) \<Rightarrow>
       n = 1 \<and> room_count m = 0 \<and>
       unwrapped (get_or_create ch (lit ''a'') m) (\<lambda>(m, a).
       case cleanup_empty (on_room_at a (room_join 1 (lit ''alice'')) m) of (m, n) \<Rightarrow>
         n = 0 \<and> room_count m = 1 \<and>
         unwrapped (get_or_create ch (lit ''a'') m) (\<lambda>(m, kept).
         case cleanup_empty (on_room_at a (\<lambda>r. fst (room_leave 1 r)) m) of (m, n) \<Rightarrow>
           a = kept \<and> n = 1 \<and> room_count m = 0)))"

definition manager_total_participants :: "'tx frame_channel \<Rightarrow> bool" where
  "manager_total_participants ch \<longleftrightarrow>
     unwrapped (get_or_create ch (lit ''r1'') manager_new) (\<lambda>(m, r1).
     unwrapped (get_or_create ch (lit ''r2'') m) (\<lambda>(m, r2).
       let m' = on_room_at r2 (room_join 3 (lit ''carol''))
             (on_room_at r1 (room_join 2 (lit ''bob'')) (on_room_at r1 (room_join 1 (lit ''alice'')) m))
       in total_participants m = 0 \<and> total_participants m' = 3 \<and>
          total_participants (on_room_at r2 (\<lambda>r. fst (room_leave 3 r)) m') = 2))"

definition manager_get_and_remove :: "'tx frame_channel \<Rightarrow> bool" where
  "manager_get_and_remove ch \<longleftrightarrow>
     manager_get (lit ''nonexistent'') (manager_new :: 'tx manager) = None \<and>
     unwrapped (get_or_create ch (lit ''x'') manager_new) (\<lambda>(m, r).
     case manager_remove (lit ''x'') m of (m', removed) \<Rightarrow>
       manager_get (lit ''x'') m \<noteq> None \<and> removed = Some r \<and> manager_get (lit ''x'') m' = None)"

definition manager_stats_room_lifecycle :: "'tx frame_channel \<Rightarrow> bool" where
  "manager_stats_room_lifecycle ch \<longleftrightarrow>
     (let rooms_now = (\<lambda>m. st_rooms (snapshot (recorders m ! 0))) in
      unwrapped (get_or_create ch (lit ''a'') (manager_with_stats config_default stats_new)) (\<lambda>(m1, _).
      unwrapped (get_or_create ch (lit ''a'') m1) (\<lambda>(m2, _).
      case manager_remove (lit ''a'') m2 of (m3, _) \<Rightarrow>
      unwrapped (get_or_create ch (lit ''b'') m3) (\<lambda>(m4, _).
      unwrapped (get_or_create ch (lit ''c'') m4) (\<lambda>(m5, _).
      case cleanup ch m5 of (m6, _) \<Rightarrow>
        map rooms_now [m1, m2, m3, m6] = [1, 1, 0, 0])))))"

text \<open>The trait object: the calls go through the operations of any registry; \<open>join\<close> acts on the
  room at the address \<open>get_or_create\<close> returned.\<close>

definition trait_object_room_registry ::
  "'s registry \<Rightarrow> (nat \<Rightarrow> ('tx room \<Rightarrow> 'tx room) \<Rightarrow> 's \<Rightarrow> 's) \<Rightarrow> 's \<Rightarrow> bool" where
  "trait_object_room_registry registry on_room_of s \<longleftrightarrow>
     unwrapped (reg_get_or_create registry (lit ''dyn_room'') s) (\<lambda>(s, r).
       let s = on_room_of r (room_join 1 (lit ''alice'')) s in
       case reg_remove registry (lit ''dyn_room'') s of (s1, removed) \<Rightarrow>
       case reg_cleanup registry s1 of (s2, n) \<Rightarrow>
       case reg_cleanup_empty registry s2 of (s3, k) \<Rightarrow>
         reg_room_count registry s = 1 \<and> reg_total_participants registry s = 1 \<and>
         reg_room_ids registry s = [lit ''dyn_room''] \<and> reg_get registry (lit ''dyn_room'') s \<noteq> None \<and>
         removed \<noteq> None \<and> n = 0 \<and> k = 0)"

definition manager_broadcast_isolation :: "'tx frame_channel \<Rightarrow> ('tx \<Rightarrow> nat \<Rightarrow> frame list) \<Rightarrow> bool" where
  "manager_broadcast_isolation ch inbox \<longleftrightarrow>
     unwrapped (get_or_create ch (lit ''r1'') manager_new) (\<lambda>(m, r1).
     unwrapped (get_or_create ch (lit ''r2'') m) (\<lambda>(m, r2).
     case room_subscribe ch (heap m ! r1) of (room1, rx1) \<Rightarrow>
     case room_subscribe ch (heap m ! r2) of (room2, rx2) \<Rightarrow>
     case broadcast_at ch r1 (frame_from_string (lit ''for r1''))
       (on_room_at r2 (\<lambda>_. room2) (on_room_at r1 (\<lambda>_. room1) m)) of (m, res) \<Rightarrow>
       is_ok res \<and> inbox (room_tx (heap m ! r1)) rx1 = [frame_from_str (lit ''for r1'')] \<and>
       inbox (room_tx (heap m ! r2)) rx2 = []))"

lemma manager_tests:
  "manager_get_or_create_idempotent ref_channel" "manager_with_config_capacity ref_channel"
  "manager_cleanup_removes_empty ref_channel"
  "manager_cleanup_empty_removes_zero_participant_rooms ref_channel"
  "manager_total_participants ref_channel" "manager_get_and_remove ref_channel"
  "manager_stats_room_lifecycle ref_channel"
  "trait_object_room_registry (manager_registry ref_channel) on_room_at manager_new"
  "manager_broadcast_isolation ref_channel ref_inbox"
  by code_simp+

section \<open>\<open>compression.rs\<close>\<close>

text \<open>The round trips and the size limit are proved for every coder that obeys the laws and does not
  fail, the other tests that need a coder for any.\<close>

definition small_payloads_stay_identity :: "deflater \<Rightarrow> inflater \<Rightarrow> bool" where
  "small_payloads_stay_identity deflate inflate \<longleftrightarrow>
     (let small = str_bytes (lit ''tiny'') in
      case compress deflate with_defaults small of
        Inl _ \<Rightarrow> False
      | Inr env \<Rightarrow> hd env AND FLAG_COMPRESSED = 0 \<and> tl env = small \<and>
          decompress inflate with_defaults env = Inr small)"

definition empty_payload_roundtrips :: "deflater \<Rightarrow> inflater \<Rightarrow> bool" where
  "empty_payload_roundtrips deflate inflate \<longleftrightarrow>
     (case compress deflate with_defaults [] of
        Inl _ \<Rightarrow> False | Inr env \<Rightarrow> decompress inflate with_defaults env = Inr []) \<and>
     (case compress_frame deflate with_defaults (frame_from_str []) of
        Inl _ \<Rightarrow> False | Inr wire \<Rightarrow> decompress_frame inflate with_defaults wire = Inr (frame_from_str []))"

definition unknown_flags_fail_closed :: "inflater \<Rightarrow> bool" where
  "unknown_flags_fail_closed inflate \<longleftrightarrow>
     decompress inflate with_defaults [0x80, 1, 2, 3] = Inl Compression \<and>
     decompress_frame inflate with_defaults (frame_from_vec [0x04, 1]) = Inl Compression \<and>
     decompress inflate with_defaults [] = Inl Compression \<and>
     decompress_frame inflate with_defaults (frame_from_bytes []) = Inl Compression"

definition text_frame_with_invalid_utf8_flag_rejected :: "inflater \<Rightarrow> bool" where
  "text_frame_with_invalid_utf8_flag_rejected inflate \<longleftrightarrow>
     decompress_frame inflate with_defaults (frame_from_vec [FLAG_TEXT, 0xFF, 0xFE, 0xFF]) = Inl Compression"

text \<open>A frame comes back from its wire form.\<close>

definition survives :: "deflater \<Rightarrow> inflater \<Rightarrow> frame \<Rightarrow> bool" where
  "survives deflate inflate f \<longleftrightarrow>
     (case compress_frame deflate with_defaults f of
        Inl _ \<Rightarrow> False
      | Inr wire \<Rightarrow> is_binary wire \<and> decompress_frame inflate with_defaults wire = Inr f)"

definition repetitive :: "nat \<Rightarrow> bytes" where
  "repetitive n = take n (concat (replicate (n div 64 + 1) (map word_of_nat [0..<64])))"

definition roundtrip_text_and_binary :: "deflater \<Rightarrow> inflater \<Rightarrow> bool" where
  "roundtrip_text_and_binary deflate inflate \<longleftrightarrow>
     survives deflate inflate (frame_from_string (concat (replicate 40 (lit ''chat line '')))) \<and>
     survives deflate inflate (frame_from_vec (repetitive 4096))"

definition multibyte_text :: rstr where
  "multibyte_text = lit ''h'' @ uchr 0xE9 # lit ''llo w'' @ uchr 0xF6 # lit ''rld '' @ uchr 0x2014 # lit '' '' @
     uchr 0xFC # lit ''n'' @ uchr 0xEF # lit ''c'' @ uchr 0xF6 # lit ''de '' @ uchr 0x1F310 # lit '' ''"

definition multibyte_utf8_text_survives_exactly :: "deflater \<Rightarrow> inflater \<Rightarrow> bool" where
  "multibyte_utf8_text_survives_exactly deflate inflate \<longleftrightarrow>
     survives deflate inflate (frame_from_str (concat (replicate 20 multibyte_text)))"

definition bomb_guard_caps_decompression :: "deflater \<Rightarrow> inflater \<Rightarrow> bool" where
  "bomb_guard_caps_decompression deflate inflate \<longleftrightarrow>
     (let small = compressor_new \<lparr> level = 6, min_size = 64, max_size = 1024 \<rparr>;
          refused = (\<lambda>data. case compress deflate small data of
            Inl _ \<Rightarrow> False | Inr env \<Rightarrow> decompress inflate small env = Inl PayloadTooLarge)
      in refused (replicate (2 ^ 20) 0) \<and> refused (replicate 2048 7))"

definition identity_envelope_roundtrips_through_decompress :: "inflater \<Rightarrow> bool" where
  "identity_envelope_roundtrips_through_decompress inflate \<longleftrightarrow>
     decompress inflate with_defaults (0 # str_bytes (lit ''ok'')) = Inr (str_bytes (lit ''ok'')) \<and>
     decompress inflate with_defaults (0 # replicate (unat (max_size (config with_defaults)) + 1) 0) =
       Inl PayloadTooLarge"

definition negotiation_tokens :: bool where
  "negotiation_tokens \<longleftrightarrow>
     extension_accepted (Some EXTENSION_NAME) \<and> extension_accepted (Some (lit ''X-WS-KIT-DEFLATE'')) \<and>
     extension_accepted (Some (lit '' permessage-deflate, x-ws-kit-deflate '')) \<and>
     \<not> extension_accepted (Some (lit ''permessage-deflate'')) \<and>
     \<not> extension_accepted (Some (lit ''x-ws-kit-deflate2'')) \<and>
     \<not> extension_accepted (Some []) \<and> \<not> extension_accepted None \<and>
     offer_extension = lit ''x-ws-kit-deflate''"

definition config_level_bounds_and_accessors :: bool where
  "config_level_bounds_and_accessors \<longleftrightarrow>
     (let cfg = compression_default\<lparr>level := 9\<rparr> in config (compressor_new cfg) = cfg) \<and>
     compression_new = compression_default"

context deflate_coder
begin

lemma compress_succeeds:
  assumes "\<And>l d. deflate l d \<noteq> None"
  obtains e where "compress deflate c data = Inr e"
proof -
  have "\<exists>e. compress deflate c data = Inr e"
    using assms [of "level (config c)" data] by (auto simp: compress_def)
  with that show thesis by blast
qed

lemma frame_survives:
  assumes "\<And>l d. deflate l d \<noteq> None" "frame_len f \<le> 1024 * 1024"
  shows "survives deflate inflate f"
proof -
  obtain e where "compress deflate with_defaults (as_bytes f) = Inr e"
    by (rule compress_succeeds [OF assms(1)])
  then obtain p where w: "compress_frame deflate with_defaults f = Inr (Binary p)"
    by (simp add: compress_frame_def Let_def)
  have m: "max_size (config with_defaults) \<noteq> - 1" "unat (max_size (config with_defaults)) = 1024 * 1024"
    by (simp_all add: with_defaults_def compressor_new_def compression_default_def)
  from decompress_frame_compress_frame [OF w m(1)] show ?thesis
    using assms(2) by (simp add: survives_def w m(2))
qed

lemma bomb_refused:
  assumes "\<And>l d. deflate l d \<noteq> None"
  shows "bomb_guard_caps_decompression deflate inflate"
proof -
  let ?c = "compressor_new \<lparr> level = 6, min_size = 64, max_size = 1024 \<rparr>"
  have refused: "case compress deflate ?c data of
      Inl _ \<Rightarrow> False | Inr env \<Rightarrow> decompress inflate ?c env = Inl PayloadTooLarge" if "1024 < length data" for data
  proof -
    obtain e where e: "compress deflate ?c data = Inr e"
      by (rule compress_succeeds [OF assms])
    have "max_size (config ?c) \<noteq> - 1" "unat (max_size (config ?c)) < length data"
      using that by (simp_all add: compressor_new_def)
    with decompress_compress [OF e] show ?thesis by (simp add: e)
  qed
  show ?thesis
    unfolding bomb_guard_caps_decompression_def Let_def
    by (intro conjI refused; simp only: length_replicate; simp)
qed

lemma roundtrips:
  assumes "\<And>l d. deflate l d \<noteq> None"
  shows "roundtrip_text_and_binary deflate inflate" "multibyte_utf8_text_survives_exactly deflate inflate"
proof -
  have len: "byte_len (concat (replicate n s)) = n * byte_len s" for n and s :: rstr
    by (induction n) (simp_all add: byte_len_def str_bytes_def)
  have "byte_len (lit ''chat line '') = 10" "byte_len multibyte_text = 34"
    by code_simp+
  then show "roundtrip_text_and_binary deflate inflate" "multibyte_utf8_text_survives_exactly deflate inflate"
    unfolding roundtrip_text_and_binary_def multibyte_utf8_text_survives_exactly_def
      frame_from_string_def frame_from_str_def frame_from_vec_def
    by (intro conjI frame_survives [OF assms]; simp add: len repetitive_def)+
qed

end

lemma run_deflate_succeeds: "run_deflate l data \<noteq> None"
  by (simp add: run_deflate_def split: list.split)

lemma identity_envelope: "identity_envelope_roundtrips_through_decompress inflate"
proof -
  let ?m = "unat (max_size (config with_defaults))"
  have "length (str_bytes (lit ''ok'')) = 2" by code_simp
  then have "decompress inflate with_defaults (0 # str_bytes (lit ''ok'')) = Inr (str_bytes (lit ''ok''))"
    by (simp add: decompress_def with_defaults_def compressor_new_def compression_default_def)
  moreover have "decompress inflate with_defaults (0 # replicate (?m + 1) 0) = Inl PayloadTooLarge"
    by (simp add: decompress_def)
  ultimately show ?thesis
    unfolding identity_envelope_roundtrips_through_decompress_def by blast
qed

lemma small_payload: "small_payloads_stay_identity deflate inflate"
proof -
  let ?d = "str_bytes (lit ''tiny'')"
  have "length ?d = 4" by code_simp
  moreover from this have "compress deflate with_defaults ?d = Inr (0 # ?d)"
    by (simp add: compress_def with_defaults_def compressor_new_def compression_default_def)
  ultimately show ?thesis
    by (simp add: small_payloads_stay_identity_def Let_def decompress_def with_defaults_def
        compressor_new_def compression_default_def)
qed

lemma empty_payload: "empty_payload_roundtrips deflate inflate"
proof -
  have "compress deflate with_defaults [] = Inr [0]"
    by (simp add: compress_def with_defaults_def compressor_new_def compression_default_def)
  moreover from this have "compress_frame deflate with_defaults (Text []) = Inr (Binary [FLAG_TEXT, 0])"
    by (simp add: compress_frame_def str_bytes_def)
  moreover have "from_utf8 [] = Some []"
    using from_utf8_str_bytes [of "[]"] by simp
  ultimately show ?thesis
    by (simp add: empty_payload_roundtrips_def decompress_frame_def decompress_def frame_from_str_def
        FLAG_KNOWN_def FLAG_TEXT_def FLAG_COMPRESSED_def)
qed

lemma compression_tests:
  "unknown_flags_fail_closed run_inflate" "text_frame_with_invalid_utf8_flag_rejected run_inflate"
  "negotiation_tokens" "config_level_bounds_and_accessors"
  by code_simp+

lemmas compression_roundtrip_tests = run_coder.roundtrips [OF run_deflate_succeeds]
  run_coder.bomb_refused [OF run_deflate_succeeds] identity_envelope small_payload empty_payload

end
