(* ===== verification/Unit_Tests_Redis.thy ===== *)
theory Unit_Tests_Redis
  imports Redis_Fleet Unit_Tests_Rooms
begin

text \<open>
  The crate's own unit tests of \<open>redis_rooms.rs\<close> on the model. The mock connection is a log of the
  commands sent; its \<open>published\<close> handle is the \<open>publish_conn\<close> of the registry's state. The two tests
  that need a live server run on a fleet of two nodes and the server of \<open>Redis_Fleet\<close>: a frame is
  delivered when the schedule says so.
\<close>

text \<open>\<open>MockPublishConn\<close> and \<open>FailingConn\<close>.\<close>

definition mock_publish_conn :: "command list requester" where
  "mock_publish_conn cmds cmd = (cmds @ [cmd], Inr ())"

definition failing_conn :: "unit requester" where
  "failing_conn c cmd = (c, Inl (lit ''connection dropped''))"

definition test_registry :: "u64 \<Rightarrow> u64 \<Rightarrow> ('tx, unit, command list) redis_registry" where
  "test_registry hi lo = from_parts manager_new () [] DEFAULT_CHANNEL_PREFIX hi lo"

text \<open>\<open>reg.local().get_or_create(id).subscribe()\<close>: the address of the room and the receiver.\<close>

definition local_subscribe ::
  "'tx frame_channel \<Rightarrow> rstr \<Rightarrow> ('tx, 'client, 'conn) redis_registry \<Rightarrow>
   (('tx, 'client, 'conn) redis_registry \<times> nat \<times> nat) option" where
  "local_subscribe ch rid reg =
     (case get_or_create ch rid (local reg) of
        None \<Rightarrow> None
      | Some (m, a) \<Rightarrow>
          (case room_subscribe ch (heap m ! a) of
             (room, rx) \<Rightarrow> Some (reg\<lparr>local := on_room_at a (\<lambda>_. room) m\<rparr>, a, rx)))"

definition received :: "('tx \<Rightarrow> nat \<Rightarrow> frame list) \<Rightarrow> nat \<Rightarrow> nat \<Rightarrow> ('tx, 'client, 'conn) redis_registry \<Rightarrow> frame list" where
  "received inbox a rx reg = inbox (room_tx (heap (local reg) ! a)) rx"

section \<open>Broadcast and publish\<close>

definition broadcast_fans_out_locally_and_publishes ::
  "'tx frame_channel \<Rightarrow> ('tx \<Rightarrow> nat \<Rightarrow> frame list) \<Rightarrow> bool" where
  "broadcast_fans_out_locally_and_publishes ch inbox \<longleftrightarrow>
     unwrapped (local_subscribe ch (lit ''lobby'') (test_registry 1 2)) (\<lambda>(reg, a, rx).
     unwrapped (redis_broadcast ch mock_publish_conn (lit ''lobby'') (frame_from_str (lit ''hi fleet'')) reg) (\<lambda>(reg, n).
       n = Inr 1 \<and> received inbox a rx reg = [frame_from_str (lit ''hi fleet'')] \<and>
       publish_conn reg = [[str_bytes (lit ''PUBLISH''), str_bytes (lit ''ws-kit:room:lobby''),
         encode_envelope (node_id reg) (frame_from_str (lit ''hi fleet''))]]))"

definition broadcast_creates_local_room_on_demand :: "'tx frame_channel \<Rightarrow> bool" where
  "broadcast_creates_local_room_on_demand ch \<longleftrightarrow>
     (let reg = test_registry 1 2 in
      manager_get (lit ''fresh'') (local reg) = None \<and>
      unwrapped (redis_broadcast ch mock_publish_conn (lit ''fresh'') (frame_from_str (lit ''x'')) reg) (\<lambda>(reg, n).
        n = Inr 0 \<and> manager_get (lit ''fresh'') (local reg) \<noteq> None))"

definition publish_connection_failure_maps_to_ws_error :: "'tx manager \<Rightarrow> bool" where
  "publish_connection_failure_maps_to_ws_error m \<longleftrightarrow>
     (case publish failing_conn (frame_from_str (lit ''x'')) (lit ''lobby'')
       (from_parts m () () DEFAULT_CHANNEL_PREFIX 1 2) of
        (_, Inl (Redis _)) \<Rightarrow> True | _ \<Rightarrow> False)"

lemma broadcast_tests:
  "broadcast_fans_out_locally_and_publishes ref_channel ref_inbox"
  "broadcast_creates_local_room_on_demand ref_channel"
  "publish_connection_failure_maps_to_ws_error (manager_new :: frame ref_tx manager)"
  by code_simp+

section \<open>Remote envelopes\<close>

definition peer :: "u8 \<Rightarrow> node_id" where
  "peer b = node_of_bytes (replicate 16 b)"

definition remote_envelope_reaches_hosted_room ::
  "'tx frame_channel \<Rightarrow> ('tx \<Rightarrow> nat \<Rightarrow> frame list) \<Rightarrow> bool" where
  "remote_envelope_reaches_hosted_room ch inbox \<longleftrightarrow>
     unwrapped (local_subscribe ch (lit ''lobby'') (test_registry 1 2)) (\<lambda>(reg, a, rx).
       let f = frame_from_str (lit ''from peer'') in
       case apply_remote ch (lit ''lobby'') (encode_envelope (peer 7) f) reg of (reg, delivered) \<Rightarrow>
         delivered = Inr (Some 1) \<and> received inbox a rx reg = [f])"

definition remote_binary_envelope_roundtrips ::
  "'tx frame_channel \<Rightarrow> ('tx \<Rightarrow> nat \<Rightarrow> frame list) \<Rightarrow> bool" where
  "remote_binary_envelope_roundtrips ch inbox \<longleftrightarrow>
     unwrapped (local_subscribe ch (lit ''bin'') (test_registry 1 2)) (\<lambda>(reg, a, rx).
       case apply_remote ch (lit ''bin'') (encode_envelope (peer 9) (Binary [0x00, 0xff, 0x10])) reg of (reg, r) \<Rightarrow>
         is_ok r \<and> map is_binary (received inbox a rx reg) = [True] \<and>
         map as_bytes (received inbox a rx reg) = [[0x00, 0xff, 0x10]])"

definition self_echo_is_dropped :: "'tx frame_channel \<Rightarrow> ('tx \<Rightarrow> nat \<Rightarrow> frame list) \<Rightarrow> bool" where
  "self_echo_is_dropped ch inbox \<longleftrightarrow>
     unwrapped (local_subscribe ch (lit ''lobby'') (test_registry 1 2)) (\<lambda>(reg, a, rx).
       case apply_remote ch (lit ''lobby'')
         (encode_envelope (node_id reg) (frame_from_str (lit ''my own publish''))) reg of (reg, r) \<Rightarrow>
         r = Inr None \<and> received inbox a rx reg = [])"

definition remote_traffic_never_materializes_rooms :: "'tx frame_channel \<Rightarrow> bool" where
  "remote_traffic_never_materializes_rooms ch \<longleftrightarrow>
     (case apply_remote ch (lit ''ghost'') (encode_envelope (peer 3) (frame_from_str (lit ''anyone there?'')))
       (test_registry 1 2) of (reg, r) \<Rightarrow>
        r = Inr None \<and> manager_get (lit ''ghost'') (local reg) = None)"

definition malformed_envelopes_fail_closed :: "'tx frame_channel \<Rightarrow> bool" where
  "malformed_envelopes_fail_closed ch \<longleftrightarrow>
     (let refused = (\<lambda>bs. snd (apply_remote ch (lit ''r'') bs (test_registry 1 2)) = Inl InvalidMessage) in
      refused (replicate 10 0) \<and> refused [] \<and>
      refused ((encode_envelope (peer 0) (frame_from_str (lit ''v0'')))[0 := 99]) \<and>
      refused ((encode_envelope (peer 0) (frame_from_str (lit ''bad kind'')))[17 := 42]) \<and>
      refused (take 18 ((encode_envelope (peer 0) (frame_from_str (lit ''ok'')))[17 := KIND_TEXT]) @ [0xFF, 0xFE]))"

definition envelope_decode_roundtrip_preserves_frame_kind :: bool where
  "envelope_decode_roundtrip_preserves_frame_kind \<longleftrightarrow>
     list_all (\<lambda>f. decode_envelope (encode_envelope (peer 1) f) = Inr (peer 1, f))
       [frame_from_string (lit ''hello''), Binary [0, 1, 2, 255]]"

lemma envelope_tests:
  "remote_envelope_reaches_hosted_room ref_channel ref_inbox"
  "remote_binary_envelope_roundtrips ref_channel ref_inbox" "self_echo_is_dropped ref_channel ref_inbox"
  "remote_traffic_never_materializes_rooms ref_channel" "malformed_envelopes_fail_closed ref_channel"
  "envelope_decode_roundtrip_preserves_frame_kind"
  by code_simp+

section \<open>Channel names, ids and the trait\<close>

definition channel_names_roundtrip :: "('tx, 'client, 'conn) redis_registry \<Rightarrow> bool" where
  "channel_names_roundtrip reg \<longleftrightarrow>
     channel_name (lit ''lobby'') reg = lit ''ws-kit:room:lobby'' \<and>
     room_id_from_channel (lit ''ws-kit:room:lobby'') reg = Some (lit ''lobby'') \<and>
     room_id_from_channel (lit ''ws-kit:room:a:b:c'') reg = Some (lit ''a:b:c'') \<and>
     room_id_from_channel (lit ''other:room:x'') reg = None \<and>
     room_id_from_channel (lit ''ws-kit:room:'') reg = Some []"

definition custom_prefix_changes_channels :: "'tx manager \<Rightarrow> bool" where
  "custom_prefix_changes_channels m \<longleftrightarrow>
     (let reg = from_parts m () ([] :: command list) (lit ''tenant-a/rooms:'') 1 2 in
      channel_name (lit ''lobby'') reg = lit ''tenant-a/rooms:lobby'' \<and>
      room_id_from_channel (lit ''tenant-a/rooms:lobby'') reg = Some (lit ''lobby'') \<and>
      chan_prefix reg = lit ''tenant-a/rooms:'')"

text \<open>\<open>hi\<close> and \<open>lo\<close> of the two registries: the hashers are seeded at random.\<close>

definition node_ids_are_distinct_per_registry :: "u64 \<times> u64 \<Rightarrow> u64 \<times> u64 \<Rightarrow> bool" where
  "node_ids_are_distinct_per_registry a b \<longleftrightarrow>
     node_id (test_registry (fst a) (snd a) :: (frame ref_tx, unit, command list) redis_registry) \<noteq>
     node_id (test_registry (fst b) (snd b) :: (frame ref_tx, unit, command list) redis_registry)"

definition room_registry_trait_delegates_to_local_manager ::
  "'s registry \<Rightarrow> (nat \<Rightarrow> ('tx room \<Rightarrow> 'tx room) \<Rightarrow> 's \<Rightarrow> 's) \<Rightarrow> (nat \<Rightarrow> 's \<Rightarrow> 'tx room) \<Rightarrow> 's \<Rightarrow> bool" where
  "room_registry_trait_delegates_to_local_manager R on_room_of room_of s \<longleftrightarrow>
     unwrapped (reg_get_or_create R (lit ''trait-lobby'') s) (\<lambda>(s, room).
       let s1 = on_room_of room (room_join 7 (lit ''alice'')) s in
       case reg_remove R (lit ''trait-lobby'') s1 of (s2, removed) \<Rightarrow>
       case reg_cleanup R s2 of (s3, n) \<Rightarrow>
       case reg_cleanup_empty R s3 of (s4, k) \<Rightarrow>
         reg_get R (lit ''trait-lobby'') s \<noteq> None \<and> reg_room_count R s = 1 \<and>
         reg_room_ids R s = [lit ''trait-lobby''] \<and>
         room_contains 7 (room_of room s1) \<and> reg_total_participants R s1 = 1 \<and>
         removed \<noteq> None \<and> reg_get R (lit ''trait-lobby'') s2 = None \<and> reg_room_count R s2 = 0 \<and>
         n = 0 \<and> k = 0)"

definition on_local_room ::
  "nat \<Rightarrow> ('tx room \<Rightarrow> 'tx room) \<Rightarrow> ('tx, 'client, 'conn) redis_registry \<Rightarrow> ('tx, 'client, 'conn) redis_registry" where
  "on_local_room a f reg = reg\<lparr>local := on_room_at a f (local reg)\<rparr>"

lemma registry_tests:
  "channel_names_roundtrip (test_registry 1 2 :: (frame ref_tx, unit, command list) redis_registry)"
  "custom_prefix_changes_channels (manager_new :: frame ref_tx manager)"
  "node_ids_are_distinct_per_registry (1, 2) (3, 4)"
  "room_registry_trait_delegates_to_local_manager (redis_room_registry ref_channel) on_local_room
     (\<lambda>a reg. heap (local reg) ! a) (test_registry 1 2 :: (frame ref_tx, unit, command list) redis_registry)"
  by code_simp+

section \<open>Two nodes over pub/sub\<close>

text \<open>Two connected nodes; \<open>node_a\<close>, node 0, has a receiver in the room \<open>rid\<close>, and \<open>node_b\<close> too if
  \<open>b_hosts\<close>.\<close>

definition live_fleet ::
  "'tx frame_channel \<Rightarrow> rstr \<Rightarrow> bool \<Rightarrow> (('tx, unit, bool list \<times> command list) fleet \<times> nat \<times> nat) option" where
  "live_fleet ch rid b_hosts =
     (let node_a = from_parts manager_new () ([True], []) DEFAULT_CHANNEL_PREFIX 1 2;
          node_b = from_parts manager_new () ([True], []) DEFAULT_CHANNEL_PREFIX 3 4
      in case (local_subscribe ch rid node_a, local_subscribe ch rid node_b) of
           (Some (node_a, a, rx_a), Some (hosting_b, _, _)) \<Rightarrow>
             Some (\<lparr> nodes = [node_a, if b_hosts then hosting_b else node_b], in_flight = [],
               arriving = [[], []], answered = [] \<rparr>, a, rx_a)
         | _ \<Rightarrow> None)"

definition live_two_nodes_fan_out_over_pubsub ::
  "'tx frame_channel \<Rightarrow> ('tx \<Rightarrow> nat \<Rightarrow> frame list) \<Rightarrow> (nat \<Rightarrow> 'tx \<Rightarrow> 'tx) \<Rightarrow> bool" where
  "live_two_nodes_fan_out_over_pubsub ch inbox drop_rx \<longleftrightarrow>
     (let rid = lit ''live''; hello = frame_from_str (lit ''cross-node hello'');
          itself = frame_from_str (lit ''from a itself'') in
      unwrapped (live_fleet ch rid True) (\<lambda>(w, a, rx_a).
        node_id (nodes w ! 0) \<noteq> node_id (nodes w ! 1) \<and>
        unwrapped (fleet_run log_server ch drop_rx
          [Start 1 rid hello, Publish 1 rid hello True, Deliver 0, Deliver 1] w) (\<lambda>w.
          received inbox a rx_a (nodes w ! 0) = [hello] \<and>
          unwrapped (fleet_run log_server ch drop_rx
            [Start 0 rid itself, Publish 0 rid itself True, Deliver 0, Deliver 1] w) (\<lambda>w.
            received inbox a rx_a (nodes w ! 0) = [hello, itself]))))"

definition live_binary_frame_crosses_nodes ::
  "'tx frame_channel \<Rightarrow> ('tx \<Rightarrow> nat \<Rightarrow> frame list) \<Rightarrow> (nat \<Rightarrow> 'tx \<Rightarrow> 'tx) \<Rightarrow> bool" where
  "live_binary_frame_crosses_nodes ch inbox drop_rx \<longleftrightarrow>
     (let rid = lit ''bin-live''; f = Binary [0xde, 0xad, 0xbe, 0xef] in
      unwrapped (live_fleet ch rid False) (\<lambda>(w, a, rx_a).
        unwrapped (fleet_run log_server ch drop_rx
          [Start 1 rid f, Publish 1 rid f True, Deliver 0] w) (\<lambda>w.
          map is_binary (received inbox a rx_a (nodes w ! 0)) = [True] \<and>
          map as_bytes (received inbox a rx_a (nodes w ! 0)) = [[0xde, 0xad, 0xbe, 0xef]])))"

lemma live_tests:
  "live_two_nodes_fan_out_over_pubsub ref_channel ref_inbox ref_drop"
  "live_binary_frame_crosses_nodes ref_channel ref_inbox ref_drop"
  by code_simp+

end
