(* ===== verification/Spec2Isabelle.thy ===== *)
theory Spec2Isabelle
  imports Ws_Config Ws_Codec Ws_Origin Ws_Extractor Conn_Counter Counter_Progress Loom_Models Bcast_Channel Ws_Hub
    Ws_Stats Stats_Races Stats_Alone Ws_Room Room_Manager Manager_Invariant Creation_Races Cleanup_Races Ws_Compression Redis_Rooms Redis_Fleet
    Unit_Tests Unit_Tests_Rooms Unit_Tests_Redis
begin

text \<open>
  Verification of ws-kit, a toolkit for WebSocket services in Rust (\<open>src/src/*.rs\<close>).

  \<^bold>\<open>The program.\<close> A service checks a handshake (\<open>origin.rs\<close>, \<open>extractor.rs\<close>), counts its connections
  (\<open>counter.rs\<close>, through the hub of \<open>hub.rs\<close>) and sends frames (\<open>codec.rs\<close>, optionally compressed by
  \<open>compression.rs\<close>) to the receivers of broadcast channels: one hub, or many rooms kept by a manager
  (\<open>room.rs\<close>) that reports to a statistics recorder (\<open>stats.rs\<close>). \<open>redis_rooms.rs\<close> joins the managers
  of several nodes over Redis pub/sub. \<open>config.rs\<close> and \<open>error.rs\<close> are shared by all.

  \<^bold>\<open>Theories.\<close>

  \<^item> \<open>Ws_Prelude\<close>, \<open>Rust_Str\<close>: machine integers, finite dictionaries, and what the code uses of Rust's
    strings (UTF-8, slices at byte positions, ASCII case, trimming, splitting).
  \<^item> \<open>Ws_Error\<close>, \<open>Ws_Config\<close>, \<open>Ws_Codec\<close>: \<open>WsError\<close>, \<open>WsConfig\<close> and its builder, \<open>Frame\<close> and \<open>JsonCodec\<close>.
  \<^item> \<open>Ws_Origin\<close>: the origin check, refined to a comparison of scheme, host and significant port.
  \<^item> \<open>Ws_Extractor\<close>: token extraction; the first configured source that has a token wins, and query
    strings and cookies written by percent-encoding are read back.
  \<^item> \<open>Conn_Counter\<close>: the counter, sequentially and as atomic accesses of any number of threads under
    relaxed memory: no update is lost, the limit holds, races have exact winners. \<open>Counter_Progress\<close>:
    spurious failures apart, every schedule of its retry loops ends. \<open>Loom_Models\<close>: the four tests of \<open>loom_tests.rs\<close>, whose
    assertions hold in all interleavings, not only in those loom explores.
  \<^item> \<open>Bcast_Channel\<close>, \<open>Ws_Hub\<close>: the contract of the broadcast channel (locale \<open>broadcast_channel\<close>) and
    the hub over it.
  \<^item> \<open>Ws_Stats\<close>: the recorder; global counters are the totals of the rooms, calls may interleave.
    \<open>Stats_Races\<close>: recording and snapshots as single relaxed accesses of any number of threads; what
    a snapshot taken meanwhile guarantees, and that it need not be the state of any moment.
    \<open>Stats_Alone\<close>: the accesses of an undisturbed call of a thread that has seen the newest values,
    however its choices fall, are the method.
  \<^item> \<open>Ws_Room\<close>, \<open>Room_Manager\<close>: rooms, rosters, broadcasts; the trait \<open>RoomRegistry\<close> as a record of
    operations with its contract (locale \<open>room_registry\<close>), the manager that implements it and the room
    gauge. \<open>Manager_Invariant\<close>: the shape of a manager that every operation keeps.
    \<open>Creation_Races\<close>: creators and removers as single steps; racing creators agree on one room, and
    the gauge drifts by the races lost. \<open>Cleanup_Races\<close>: the clean-ups as single steps among the
    operations of other callers (the scan visits every room that stays); who is in a room keeps it,
    who joins during a clean-up may lose it.
  \<^item> \<open>Ws_Compression\<close>: the compressed envelope over a coder with the laws of locale \<open>deflate_coder\<close>.
  \<^item> \<open>Redis_Rooms\<close>, \<open>Redis_Fleet\<close>: the pub/sub envelope, the registry (a second implementation of the
    trait contract), the subscriber loop; then a fleet of nodes and a server with the laws of locale
    \<open>redis_bus\<close>, under every schedule of broadcasts, publishes, deliveries, losses and local
    operations on the nodes' rooms.
  \<^item> At the end of this theory: compressed frames sent through the hub.
  \<^item> \<open>Unit_Tests\<close>, \<open>Unit_Tests_Rooms\<close>, \<open>Unit_Tests_Redis\<close>: the crate's own unit tests, each as a definition
    of its assertions, proved on the model. They are the evidence, beside reading, that the definitions
    compute what the code computes; the theorems say what holds beyond the tested inputs.

  \<^bold>\<open>How the state corresponds.\<close> A struct is a record and an enum a datatype with the constructors of
  the source. A method of \<open>&self\<close> that mutates is a function from the old to the new state. Errors are
  \<open>Inl\<close> of \<open>ws_error\<close>; a call that may panic has an option result (type \<open>run\<close>), \<open>None\<close> being the
  panic. An \<open>Arc<Room>\<close> is an address in the \<open>heap\<close> of the manager, an \<open>Arc\<close> of recorder cells an
  index, so that sharing is visible. A \<open>DashMap\<close> is a finite dictionary. Counters are 64-bit words
  and wrap as in a release build; \<open>usize\<close> has 64 bits. Where calls of several threads or nodes meet, a
  step is one access of shared state: an atomic operation (counter, statistics), one dictionary
  operation (rooms), or the code between two await points (fleet). Relaxed atomics are histories of
  values, of which a thread may read any that is not older than what it has seen.

  \<^bold>\<open>Parameters.\<close> The tokio broadcast channel, serde_json, flate2, the header map of http, the redis
  client and the server are not part of the repository. They are arguments of the definitions, and
  what is relied on is stated by the locales \<open>broadcast_channel\<close>, \<open>frame_channel\<close>, \<open>deflate_coder\<close>
  and \<open>redis_bus\<close>, each with an interpretation on executable definitions. The inbox of a receiver is
  all that was sent to it while it was subscribed: what a slow receiver misses when the ring
  overwrites old entries is the channel's business and is not modelled.

  \<^bold>\<open>Bounds.\<close> Counting theorems assume fewer than \<open>2 ^ 64\<close> calls. No definition uses fuel: every
  recursion is structural, and the loops over shared memory are step relations whose length,
  spurious failures of the weak compare-exchange apart, \<open>calls_finish\<close> bounds.

  \<^bold>\<open>Not modelled.\<close> The \<open>metrics\<close> facade behind a feature flag of \<open>stats.rs\<close> and the \<open>Debug\<close>
  implementations, which only print; the crate root; the unit tests that measure \<open>flate2\<close> or \<open>serde_json\<close>
  or only clone a handle, the integration tests, benchmarks and fuzz drivers; nodes that join or leave a running fleet.
\<close>

section \<open>The hub and the compressor together\<close>

text \<open>C7 A compressed stream through the hub: the frames a service compresses and broadcasts arrive at a
  subscriber, whatever other operations the hub performs between them, as wire frames that the
  receiving compressor restores to the original frames, all and in order.\<close>

theorem compressed_hub_stream:
  assumes "broadcast_channel ch live inbox drop_rx" "deflate_coder deflate inflate"
    and "hub_subscribe ch h = (h', r)" "sent ops = ws"
    and "list_all2 (\<lambda>f w. compress_frame deflate c f = Inr w) fs ws"
    and "max_size (config c') \<noteq> - 1" "list_all (\<lambda>f. frame_len f \<le> unat (max_size (config c'))) fs"
  shows "map (decompress_frame inflate c') (inbox (hub_tx (fold (hub_step ch) ops h')) r) = map Inr fs"
proof -
  note restored = deflate_coder.decompress_frame_compress_frame [OF assms(2) _ assms(6)]
  have "map (decompress_frame inflate c') ws = map Inr fs"
    using assms(5,7) by (induction rule: list_all2_induct) (simp_all add: restored)
  then show ?thesis
    using broadcast_channel.hub_subscriber_inbox [OF assms(1,3), of ops] assms(4) by simp
qed

theorem compressed_hub_stream_witness:
  "map (decompress_frame run_inflate with_defaults)
     (ref_inbox (hub_tx (fold (hub_step ref_channel)
        [Broadcast (Binary [0x02, 0x01, 1, 100, 97]), IncrementConnections None, Subscribe, TryBroadcast (Binary [0, 0, 7])]
        \<lparr> hub_tx = \<lparr> next_rx = 1, rx_queues = [(0, [])] \<rparr>, hub_count = 0 \<rparr>)) 0) =
   [Inr (Text (replicate 100 (uchr 97))), Inr (Binary [7])]"
proof -
  let ?fs = "[Text (replicate 100 (uchr 97)), Binary [7]]"
    and ?ws = "[Binary [0x02, 0x01, 1, 100, 97], Binary [0, 0, 7]] :: frame list"
  have "map (compress_frame run_deflate with_defaults) ?fs = map Inr ?ws"
    by code_simp
  then have wire: "list_all2 (\<lambda>f w. compress_frame run_deflate with_defaults f = Inr w) ?fs ?ws"
    by simp
  have "list_all (\<lambda>f. frame_len f \<le> 100) ?fs"
    by code_simp
  then have limit: "max_size (config with_defaults) \<noteq> - 1"
    "list_all (\<lambda>f. frame_len f \<le> unat (max_size (config with_defaults))) ?fs"
    by (auto simp: with_defaults_def compressor_new_def compression_default_def)
  have sub: "hub_subscribe ref_channel \<lparr> hub_tx = \<lparr> next_rx = 0, rx_queues = [] \<rparr>, hub_count = 0 \<rparr> =
      (\<lparr> hub_tx = \<lparr> next_rx = 1, rx_queues = [(0, [] :: frame list)] \<rparr>, hub_count = 0 \<rparr>, 0)"
    by (simp add: hub_subscribe_def ref_channel_def ref_subscribe_def)
  have sent: "sent [Broadcast (Binary [0x02, 0x01, 1, 100, 97]), IncrementConnections None, Subscribe,
      TryBroadcast (Binary [0, 0, 7])] = ?ws"
    by simp
  from compressed_hub_stream [OF ref.broadcast_channel_axioms run_coder.deflate_coder_axioms sub sent wire limit]
  show ?thesis by (simp only: list.map)
qed

end
